(* ===== verification/Msm_Prelude.thy ===== *)
theory Msm_Prelude
  imports Main "HOL-Library.Word"
begin

text \<open>
  What every component of the development shares: the names of the machine integers, the
  error values and their sequencing combinator, and the generic facts on lists of cells
  (overwriting a range, reading a range) and on little-endian encodings that carry the
  proofs about memory.
\<close>

section \<open>Machine integers\<close>

type_synonym u8 = "8 word"
type_synonym u16 = "16 word"
type_synonym u32 = "32 word"
type_synonym u64 = "64 word"

section \<open>Errors and sequencing\<close>

text \<open>
  A run of a C++ function ends in one of three ways: it returns, it calls
  \<^verbatim>\<open>std::abort\<close> after printing a diagnostic (defined behaviour, with the reason kept), or it
  does something the language leaves undefined. The last is made explicit so that a theorem
  \<open>f h = Inr r\<close> says in particular that the run is free of memory errors.
\<close>

datatype fault =
    NullDeref      \<comment> \<open>an access through a null pointer\<close>
  | Dangling       \<comment> \<open>an access to a block that is not allocated (any more)\<close>
  | OutOfBounds    \<comment> \<open>an access that leaves its block\<close>
  | BadValue       \<comment> \<open>a value that is uninitialised, or not of the type it is read as or cast to\<close>
  | Misaligned     \<comment> \<open>an \<open>atomic_ref\<close> on an address that is not aligned for its type\<close>
  | Overlap        \<comment> \<open>a \<open>memcpy\<close> between overlapping ranges\<close>
  | InvalidFree    \<comment> \<open>\<open>free\<close> of a pointer that \<open>malloc\<close> did not return, or twice\<close>
  | StackOverflow  \<comment> \<open>a recursion deeper than the stack\<close>

datatype abort_reason =
    DuplicateName
  | SchemaMismatch
  | TypeMismatch

datatype err = Fault fault | Abort abort_reason

type_synonym 'a res = "err + 'a"

named_theorems run_simps \<open>symbolic execution of the model's memory operations\<close>

fun bindE :: "'e + 'a \<Rightarrow> ('a \<Rightarrow> 'e + 'b) \<Rightarrow> 'e + 'b" where
  "bindE (Inl e) f = Inl e"
| "bindE (Inr x) f = f x"

lemma bindE_cong [fundef_cong]:
  assumes "m = m'" and "\<And>x. m' = Inr x \<Longrightarrow> f x = f' x"
  shows "bindE m f = bindE m' f'"
  using assms by (cases m') auto

lemma bindE_eq_Inr: "bindE m f = Inr y \<longleftrightarrow> (\<exists>x. m = Inr x \<and> f x = Inr y)"
  by (cases m) auto

lemma bindE_InrI: "m = Inr x \<Longrightarrow> f x = Inr y \<Longrightarrow> bindE m f = Inr y"
  by simp

lemma bindE_assoc: "bindE (bindE m f) g = bindE m (\<lambda>x. bindE (f x) g)"
  by (cases m) auto

lemma bindE_return [simp]: "bindE m Inr = m"
  by (cases m) auto

section \<open>Overwriting a range of a list\<close>

text \<open>
  \<open>patch cs k xs\<close> is \<open>cs\<close> with the elements from index \<open>k\<close> on replaced by
  \<open>xs\<close>; \<open>piece cs k n\<close> reads \<open>n\<close> elements from index \<open>k\<close> on.
\<close>

definition patch :: "'a list \<Rightarrow> nat \<Rightarrow> 'a list \<Rightarrow> 'a list" where
  "patch cs k xs = take k cs @ xs @ drop (k + length xs) cs"

definition piece :: "'a list \<Rightarrow> nat \<Rightarrow> nat \<Rightarrow> 'a list" where
  "piece cs k n = take n (drop k cs)"

lemma length_patch [simp]:
  "k + length xs \<le> length cs \<Longrightarrow> length (patch cs k xs) = length cs"
  by (simp add: patch_def)

lemma length_piece [simp]: "k + n \<le> length cs \<Longrightarrow> length (piece cs k n) = n"
  by (simp add: piece_def)

lemma piece_0_length [simp]: "piece cs 0 (length cs) = cs"
  by (simp add: piece_def)

lemma piece_full [simp]: "n = length cs \<Longrightarrow> piece cs 0 n = cs"
  by (simp add: piece_def)

lemma nth_piece: "i < n \<Longrightarrow> k + n \<le> length cs \<Longrightarrow> piece cs k n ! i = cs ! (k + i)"
  by (simp add: piece_def)

lemma patch_nothing [simp]: "patch cs k [] = cs"
  by (simp add: patch_def)

lemma nth_patch:
  assumes "k + length xs \<le> length cs" and "i < length cs"
  shows "patch cs k xs ! i =
    (if k \<le> i \<and> i < k + length xs then xs ! (i - k) else cs ! i)"
  using assms by (auto simp: patch_def nth_append)

lemma piece_patch_same [simp]:
  "k + length xs \<le> length cs \<Longrightarrow> n = length xs \<Longrightarrow> piece (patch cs k xs) k n = xs"
  by (simp add: piece_def patch_def)

lemma piece_patch_disjoint:
  assumes "k + length xs \<le> length cs" and "j + n \<le> length cs"
    and "j + n \<le> k \<or> k + length xs \<le> j"
  shows "piece (patch cs k xs) j n = piece cs j n"
  using assms by (intro nth_equalityI) (auto simp: nth_piece nth_patch)

text \<open>The same, also for a write that leaves the list.\<close>

lemma piece_patch_outside:
  assumes "j + n \<le> length cs" and "j + n \<le> k \<or> k + length xs \<le> j"
  shows "piece (patch cs k xs) j n = piece cs j n"
proof (cases "k + length xs \<le> length cs")
  case True
  then show ?thesis using assms by (rule piece_patch_disjoint)
next
  case False
  then have "j + n \<le> k" using assms by linarith
  then show ?thesis
    using assms(1) by (auto simp: piece_def patch_def drop_take min_def)
qed

lemma piece_piece: "j + m \<le> n \<Longrightarrow> k + n \<le> length cs \<Longrightarrow> piece (piece cs k n) j m = piece cs (k + j) m"
  by (simp add: piece_def take_drop add.commute min_def)

lemma patch_all [simp]: "length xs = length cs \<Longrightarrow> patch cs 0 xs = xs"
  by (simp add: patch_def)

lemma piece_append_left: "k + n \<le> length xs \<Longrightarrow> piece (xs @ ys) k n = piece xs k n"
  by (simp add: piece_def)

lemma piece_append_right: "length xs \<le> k \<Longrightarrow> piece (xs @ ys) k n = piece ys (k - length xs) n"
  by (simp add: piece_def)

lemma patch_append_left:
  "k + length zs \<le> length xs \<Longrightarrow> patch (xs @ ys) k zs = patch xs k zs @ ys"
  by (simp add: patch_def)

lemma patch_append_right:
  "length xs \<le> k \<Longrightarrow> patch (xs @ ys) k zs = xs @ patch ys (k - length xs) zs"
  by (simp add: patch_def)

lemma piece_replicate [simp]: "k + n \<le> m \<Longrightarrow> piece (replicate m x) k n = replicate n x"
  by (simp add: piece_def min_def)

lemma patch_replicate_head:
  "length xs \<le> m \<Longrightarrow> patch (replicate m x) 0 xs = xs @ replicate (m - length xs) x"
  by (simp add: patch_def)

lemma take_patch_extend:
  "k + length xs \<le> length cs \<Longrightarrow> take (k + length xs) (patch cs k xs) = take k cs @ xs"
  by (simp add: patch_def)

lemma take_patch_before:
  "k + length xs \<le> length cs \<Longrightarrow> n \<le> k \<Longrightarrow> take n (patch cs k xs) = take n cs"
  by (simp add: patch_def min_def)

lemma piece_cong_take:
  assumes "take m xs = take m ys" and "k + n \<le> m"
  shows "piece xs k n = piece ys k n"
proof -
  have "piece zs k n = drop k (take (k + n) (take m zs))" for zs :: "'a list"
    using assms(2) by (simp add: piece_def drop_take min_absorb1)
  then show ?thesis using assms(1) by metis
qed

section \<open>Little-endian encodings\<close>

text \<open>
  \<open>le_enc n v\<close> are the \<open>n\<close> bytes of the value \<open>v\<close>, least significant first, as
  x86-64 stores integers; \<open>le_dec\<close> reads them back.
\<close>

fun le_enc :: "nat \<Rightarrow> nat \<Rightarrow> u8 list" where
  "le_enc 0 v = []"
| "le_enc (Suc n) v = of_nat (v mod 256) # le_enc n (v div 256)"

fun le_dec :: "u8 list \<Rightarrow> nat" where
  "le_dec [] = 0"
| "le_dec (b # bs) = unat b + 256 * le_dec bs"

lemma length_le_enc [simp]: "length (le_enc n v) = n"
  by (induction n arbitrary: v) auto

lemma le_dec_enc: "le_dec (le_enc n v) = v mod 256 ^ n"
proof (induction n arbitrary: v)
  case 0
  then show ?case by simp
next
  case (Suc n)
  have "unat (of_nat (v mod 256) :: u8) = v mod 256"
    by (simp add: unat_of_nat)
  then show ?case
    using Suc [of "v div 256"] mod_mult2_eq [of v 256 "256 ^ n"]
    by simp
qed

lemma le_dec_less: "le_dec bs < 256 ^ length bs"
proof (induction bs)
  case Nil
  then show ?case by simp
next
  case (Cons b bs)
  have "unat b < 256" using unsigned_less [of b] by simp
  with Cons show ?case by simp
qed

lemma le_enc_dec: "le_enc (length bs) (le_dec bs) = bs"
proof (induction bs)
  case Nil
  then show ?case by simp
next
  case (Cons b bs)
  have "unat b < 256" using unsigned_less [of b] by simp
  with Cons show ?case by simp
qed

lemma le_dec_inj: "length xs = length ys \<Longrightarrow> le_dec xs = le_dec ys \<Longrightarrow> xs = ys"
  by (metis le_enc_dec)

lemma le_enc_zero: "le_enc n 0 = replicate n 0"
  by (induction n) auto

lemma le_dec_zero: "le_dec (replicate n 0) = 0"
  by (induction n) auto

section \<open>Reading machine words as numbers\<close>

lemma unat_u32_less: "unat (w :: u32) < 4294967296"
  using unsigned_less [of w] by simp

lemma unat_u64_less: "unat (w :: u64) < 18446744073709551616"
  using unsigned_less [of w] by simp

lemma unat_u16_less: "unat (w :: u16) < 65536"
  using unsigned_less [of w] by simp

lemma unat_ucast_u32_u64 [simp]: "unat (ucast (w :: u32) :: u64) = unat w"
proof -
  have "unat w < 2 ^ 64" by (rule less_trans [OF unat_u32_less]) simp
  then show ?thesis by (simp add: unsigned_ucast_eq take_bit_nat_eq_self)
qed

lemma unat_u32_mult_le: "unat (a :: u32) * unat (b :: u32) \<le> 4294967295 * 4294967295"
proof -
  have "unat a \<le> 4294967295" "unat b \<le> 4294967295"
    using unat_u32_less [of a] unat_u32_less [of b] by linarith+
  then show ?thesis by (rule mult_le_mono)
qed

lemma unat_size_u32_mult:
  "unat (8 + ucast (a :: u32) * ucast (b :: u32) :: u64) = 8 + unat a * unat b"
proof -
  have "8 + unat a * unat b < 18446744073709551616"
    using unat_u32_mult_le [of a b] by linarith
  then show ?thesis
    by (simp add: unat_word_ariths)
qed

lemma unat_minus_1_u32: "unat (- 1 :: u32) = 4294967295"
  by (simp add: unsigned_minus_1_eq_mask mask_eq_exp_minus_1)

lemma unat_size_u32_add: "unat (8 + ucast (a :: u32) :: u64) = 8 + unat a"
  using unat_u32_less [of a] by (simp add: unat_word_ariths)

lemma word_gt_0_unat: "(0 < (w :: 'a::len word)) \<longleftrightarrow> 0 < unat w"
  by (simp add: word_less_nat_alt)

lemma unat_eq_zero_iff: "unat (w :: 'a::len word) = 0 \<longleftrightarrow> w = 0"
  by (simp add: unat_eq_zero)

end
