(* ===== verification/Msm_Heap.thy ===== *)
theory Msm_Heap
  imports Msm_Prelude
begin

text \<open>
  The memory the library works on: blocks returned by \<^verbatim>\<open>malloc\<close>, pointers into them, and the
  accesses of the source (plain \<^verbatim>\<open>memcpy\<close>/\<^verbatim>\<open>memset\<close> and the \<^verbatim>\<open>std::atomic_ref\<close> helpers at the
  top of \<^verbatim>\<open>msm_allocator.cpp\<close>).

  A pointer is null or a block together with a byte offset. A block is a list of cells, one per
  byte: uninitialised, a byte, or one of the eight bytes of a stored pointer. A stored null pointer
  is eight zero bytes, which is what the source relies on when it clears a slot with
  \<^verbatim>\<open>memset\<close> and reads a null pointer from it. Freed blocks are never given out again, so every
  use of a freed block is seen as \<open>Dangling\<close>.

  \<open>oom\<close> decides which calls of \<^verbatim>\<open>malloc\<close> fail: it is asked with the number of the call and
  the size, so every pattern of failures is some \<open>oom\<close>. \<open>trace\<close> records the writes in
  the order in which they are made, with the memory order of the atomic ones; no operation reads it.
\<close>

section \<open>Pointers, cells and the heap\<close>

datatype ptr = Null | Ptr (blk: nat) (off: nat)

datatype cell = Undef | Byte u8 | Frag ptr nat

datatype memory_order = Relaxed | Acquire | Release

datatype access = Plain | Atomic memory_order

datatype event =
    Write access nat nat "cell list"   \<comment> \<open>block, offset, new cells\<close>
  | Alloc nat nat                      \<comment> \<open>block, size\<close>
  | AllocFail nat
  | Free nat

record heap =
  blocks :: "nat \<Rightarrow> cell list option"
  next_block :: nat
  oom :: "nat \<Rightarrow> nat \<Rightarrow> bool"
  trace :: "event list"

text \<open>Pointer arithmetic. Every access through a null pointer, with or without an offset, is a
  \<open>NullDeref\<close>, so the offset of a null pointer is not kept.\<close>

fun padd :: "ptr \<Rightarrow> nat \<Rightarrow> ptr" where
  "padd Null n = Null"
| "padd (Ptr b k) n = Ptr b (k + n)"

fun aligned :: "nat \<Rightarrow> ptr \<Rightarrow> bool" where
  "aligned n Null = True"
| "aligned n (Ptr b k) = (k mod n = 0)"

section \<open>Raw accesses\<close>

definition put :: "access \<Rightarrow> nat \<Rightarrow> nat \<Rightarrow> cell list \<Rightarrow> heap \<Rightarrow> heap" where
  "put a b k xs h =
     h\<lparr>blocks := (blocks h)(b := map_option (\<lambda>cs. patch cs k xs) (blocks h b)),
       trace := trace h @ [Write a b k xs]\<rparr>"

fun load_cells :: "heap \<Rightarrow> ptr \<Rightarrow> nat \<Rightarrow> cell list res" where
  "load_cells h Null n = Inl (Fault NullDeref)"
| "load_cells h (Ptr b k) n =
     (case blocks h b of
        None \<Rightarrow> Inl (Fault Dangling)
      | Some cs \<Rightarrow> if k + n \<le> length cs then Inr (piece cs k n) else Inl (Fault OutOfBounds))"

fun store_cells :: "access \<Rightarrow> heap \<Rightarrow> ptr \<Rightarrow> cell list \<Rightarrow> heap res" where
  "store_cells a h Null xs = Inl (Fault NullDeref)"
| "store_cells a h (Ptr b k) xs =
     (case blocks h b of
        None \<Rightarrow> Inl (Fault Dangling)
      | Some cs \<Rightarrow> if k + length xs \<le> length cs then Inr (put a b k xs h) else Inl (Fault OutOfBounds))"

section \<open>The C library: malloc, free, memset, memcpy\<close>

definition new_block :: "nat \<Rightarrow> heap \<Rightarrow> heap" where
  "new_block n h =
     h\<lparr>blocks := (blocks h)(next_block h \<mapsto> replicate n Undef),
       next_block := Suc (next_block h),
       trace := trace h @ [Alloc (next_block h) n]\<rparr>"

definition fail_block :: "nat \<Rightarrow> heap \<Rightarrow> heap" where
  "fail_block n h = h\<lparr>next_block := Suc (next_block h), trace := trace h @ [AllocFail n]\<rparr>"

definition drop_block :: "nat \<Rightarrow> heap \<Rightarrow> heap" where
  "drop_block b h = h\<lparr>blocks := (blocks h)(b := None), trace := trace h @ [Free b]\<rparr>"

definition malloc :: "heap \<Rightarrow> nat \<Rightarrow> ptr \<times> heap" where
  "malloc h n =
     (if oom h (next_block h) n then (Null, fail_block n h)
      else (Ptr (next_block h) 0, new_block n h))"

fun free :: "heap \<Rightarrow> ptr \<Rightarrow> heap res" where
  "free h Null = Inr h"
| "free h (Ptr b k) =
     (if k = 0 \<and> blocks h b \<noteq> None then Inr (drop_block b h) else Inl (Fault InvalidFree))"

definition memset :: "heap \<Rightarrow> ptr \<Rightarrow> u8 \<Rightarrow> nat \<Rightarrow> heap res" where
  "memset h p v n = store_cells Plain h p (replicate n (Byte v))"

fun overlapping :: "ptr \<Rightarrow> ptr \<Rightarrow> nat \<Rightarrow> bool" where
  "overlapping (Ptr b k) (Ptr c j) n = (b = c \<and> k < j + n \<and> j < k + n)"
| "overlapping p q n = False"

definition memcpy :: "heap \<Rightarrow> ptr \<Rightarrow> ptr \<Rightarrow> nat \<Rightarrow> heap res" where
  "memcpy h dst src n =
     (if overlapping dst src n then Inl (Fault Overlap)
      else bindE (load_cells h src n) (\<lambda>xs. store_cells Plain h dst xs))"

section \<open>Typed accesses\<close>

fun cells_bytes :: "cell list \<Rightarrow> u8 list option" where
  "cells_bytes [] = Some []"
| "cells_bytes (Byte b # cs) = map_option ((#) b) (cells_bytes cs)"
| "cells_bytes (_ # cs) = None"

definition word_cells :: "nat \<Rightarrow> 'a::len word \<Rightarrow> cell list" where
  "word_cells n w = map Byte (le_enc n (unat w))"

definition decode_word :: "cell list \<Rightarrow> ('a::len word) res" where
  "decode_word cs =
     (case cells_bytes cs of None \<Rightarrow> Inl (Fault BadValue) | Some bs \<Rightarrow> Inr (of_nat (le_dec bs)))"

fun ptr_cells :: "ptr \<Rightarrow> cell list" where
  "ptr_cells Null = replicate 8 (Byte 0)"
| "ptr_cells (Ptr b k) = map (Frag (Ptr b k)) [0..<8]"

definition decode_ptr :: "cell list \<Rightarrow> ptr res" where
  "decode_ptr cs =
     (if cs = replicate 8 (Byte 0) then Inr Null
      else case cs of
          Frag q i # _ \<Rightarrow> if cs = map (Frag q) [0..<8] then Inr q else Inl (Fault BadValue)
        | _ \<Rightarrow> Inl (Fault BadValue))"

definition load_u16 :: "heap \<Rightarrow> ptr \<Rightarrow> u16 res" where
  "load_u16 h p = bindE (load_cells h p 2) decode_word"

definition load_u32 :: "heap \<Rightarrow> ptr \<Rightarrow> u32 res" where
  "load_u32 h p = bindE (load_cells h p 4) decode_word"

definition load_u64 :: "heap \<Rightarrow> ptr \<Rightarrow> u64 res" where
  "load_u64 h p = bindE (load_cells h p 8) decode_word"

definition load_ptr :: "heap \<Rightarrow> ptr \<Rightarrow> ptr res" where
  "load_ptr h p = bindE (load_cells h p 8) decode_ptr"

definition store_u16 :: "heap \<Rightarrow> ptr \<Rightarrow> u16 \<Rightarrow> heap res" where
  "store_u16 h p v = store_cells Plain h p (word_cells 2 v)"

definition store_u32 :: "heap \<Rightarrow> ptr \<Rightarrow> u32 \<Rightarrow> heap res" where
  "store_u32 h p v = store_cells Plain h p (word_cells 4 v)"

definition store_u64 :: "heap \<Rightarrow> ptr \<Rightarrow> u64 \<Rightarrow> heap res" where
  "store_u64 h p v = store_cells Plain h p (word_cells 8 v)"

definition store_ptr :: "heap \<Rightarrow> ptr \<Rightarrow> ptr \<Rightarrow> heap res" where
  "store_ptr h p q = store_cells Plain h p (ptr_cells q)"

text \<open>
  The \<^verbatim>\<open>std::atomic_ref\<close> helpers. \<^verbatim>\<open>atomic_ref\<close> requires an address aligned for its type;
  on one that is not, the behaviour is undefined. The value an atomic access reads or writes does
  not depend on its memory order; the order of a store is recorded in the trace.
\<close>

definition atomic_load_u32 :: "heap \<Rightarrow> ptr \<Rightarrow> memory_order \<Rightarrow> u32 res" where
  "atomic_load_u32 h addr order =
     (if aligned 4 addr then load_u32 h addr else Inl (Fault Misaligned))"

definition atomic_store_u32 :: "heap \<Rightarrow> ptr \<Rightarrow> u32 \<Rightarrow> memory_order \<Rightarrow> heap res" where
  "atomic_store_u32 h addr val order =
     (if aligned 4 addr then store_cells (Atomic order) h addr (word_cells 4 val)
      else Inl (Fault Misaligned))"

definition atomic_load_ptr :: "heap \<Rightarrow> ptr \<Rightarrow> memory_order \<Rightarrow> ptr res" where
  "atomic_load_ptr h addr order =
     (if aligned 8 addr then load_ptr h addr else Inl (Fault Misaligned))"

definition atomic_store_ptr :: "heap \<Rightarrow> ptr \<Rightarrow> ptr \<Rightarrow> memory_order \<Rightarrow> heap res" where
  "atomic_store_ptr h addr val order =
     (if aligned 8 addr then store_cells (Atomic order) h addr (ptr_cells val)
      else Inl (Fault Misaligned))"

section \<open>Basic facts\<close>

lemma padd_eq_Null [simp]: "padd p n = Null \<longleftrightarrow> p = Null"
  by (cases p) auto

lemma padd_padd [simp]: "padd (padd p m) n = padd p (m + n)"
  by (cases p) auto

lemma padd_0 [simp]: "padd p 0 = p"
  by (cases p) auto

lemma blk_padd [simp]: "p \<noteq> Null \<Longrightarrow> blk (padd p n) = blk p"
  by (cases p) auto

lemma blocks_put: "blocks (put a b k xs h) =
    (blocks h)(b := map_option (\<lambda>cs. patch cs k xs) (blocks h b))"
  by (simp add: put_def)

lemma put_simps [simp]:
  "blocks h b = Some cs \<Longrightarrow> blocks (put a b k xs h) b = Some (patch cs k xs)"
  "c \<noteq> b \<Longrightarrow> blocks (put a b k xs h) c = blocks h c"
  "next_block (put a b k xs h) = next_block h"
  "oom (put a b k xs h) = oom h"
  "trace (put a b k xs h) = trace h @ [Write a b k xs]"
  by (simp_all add: put_def)

lemma new_block_simps [simp]:
  "blocks (new_block n h) = (blocks h)(next_block h \<mapsto> replicate n Undef)"
  "next_block (new_block n h) = Suc (next_block h)"
  "oom (new_block n h) = oom h"
  "trace (new_block n h) = trace h @ [Alloc (next_block h) n]"
  by (simp_all add: new_block_def)

lemma fail_block_simps [simp]:
  "blocks (fail_block n h) = blocks h"
  "next_block (fail_block n h) = Suc (next_block h)"
  "oom (fail_block n h) = oom h"
  "trace (fail_block n h) = trace h @ [AllocFail n]"
  by (simp_all add: fail_block_def)

lemma drop_block_simps [simp]:
  "blocks (drop_block b h) = (blocks h)(b := None)"
  "next_block (drop_block b h) = next_block h"
  "oom (drop_block b h) = oom h"
  "trace (drop_block b h) = trace h @ [Free b]"
  by (simp_all add: drop_block_def)

lemma load_cells_Some [run_simps]:
  "blocks h b = Some cs \<Longrightarrow> k + n \<le> length cs \<Longrightarrow> load_cells h (Ptr b k) n = Inr (piece cs k n)"
  by simp

lemma store_cells_Some [run_simps]:
  "blocks h b = Some cs \<Longrightarrow> k + length xs \<le> length cs \<Longrightarrow>
   store_cells a h (Ptr b k) xs = Inr (put a b k xs h)"
  by simp

lemma load_cells_InrD:
  assumes "load_cells h p n = Inr xs"
  obtains b k cs where "p = Ptr b k" and "blocks h b = Some cs" and "k + n \<le> length cs"
    and "xs = piece cs k n"
  using assms by (cases p) (auto split: option.splits if_splits)

lemma store_cells_InrD:
  assumes "store_cells a h p xs = Inr h'"
  obtains b k cs where "p = Ptr b k" and "blocks h b = Some cs" and "k + length xs \<le> length cs"
    and "h' = put a b k xs h"
  using assms by (cases p) (auto split: option.splits if_splits)

lemma load_put_disjoint:
  assumes "blocks h b = Some cs" and "k + length xs \<le> length cs"
    and "blk q \<noteq> b \<or> off q + n \<le> k \<or> k + length xs \<le> off q"
  shows "load_cells (put a b k xs h) q n = load_cells h q n"
  using assms by (cases q) (auto simp: blocks_put piece_patch_disjoint)

section \<open>Encodings of values in cells\<close>

lemma cells_bytes_map_Byte [simp]: "cells_bytes (map Byte bs) = Some bs"
  by (induction bs) auto

lemma cells_bytes_SomeD: "cells_bytes cs = Some bs \<Longrightarrow> cs = map Byte bs"
  by (induction cs arbitrary: bs rule: cells_bytes.induct) auto

lemma length_word_cells [simp]: "length (word_cells n w) = n"
  by (simp add: word_cells_def)

lemma length_ptr_cells [simp]: "length (ptr_cells q) = 8"
  by (cases q) auto

lemma decode_word_cells:
  assumes "LENGTH('a::len) \<le> 8 * n"
  shows "decode_word (word_cells n (w :: 'a word)) = Inr w"
proof -
  have "unat w < 2 ^ LENGTH('a)" by (rule unsigned_less)
  also have "\<dots> \<le> (2::nat) ^ (8 * n)" using assms by (rule power_increasing) simp
  also have "\<dots> = 256 ^ n" by (simp add: power_mult)
  finally have "unat w < 256 ^ n" .
  then show ?thesis by (simp add: decode_word_def word_cells_def le_dec_enc)
qed

lemma decode_word_cells_16 [simp]: "decode_word (word_cells 2 (w :: u16)) = Inr w"
  by (simp add: decode_word_cells)

lemma decode_word_cells_32 [simp]: "decode_word (word_cells 4 (w :: u32)) = Inr w"
  by (simp add: decode_word_cells)

lemma decode_word_cells_64 [simp]: "decode_word (word_cells 8 (w :: u64)) = Inr w"
  by (simp add: decode_word_cells)

lemma decode_word_zero: "decode_word (replicate n (Byte 0)) = Inr 0"
  using cells_bytes_map_Byte [of "replicate n 0"]
  by (simp add: decode_word_def le_dec_zero)

lemma word_cells_0: "word_cells n (0 :: 'a::len word) = replicate n (Byte 0)"
  by (simp add: word_cells_def le_enc_zero)

lemma decode_ptr_cells [simp]: "decode_ptr (ptr_cells q) = Inr q"
  by (cases q) (simp_all add: decode_ptr_def upt_rec numeral_eq_Suc)

lemma decode_ptr_zero [simp]: "decode_ptr (replicate 8 (Byte 0)) = Inr Null"
  by (simp add: decode_ptr_def)

lemma ptr_cells_inj [simp]: "ptr_cells p = ptr_cells q \<longleftrightarrow> p = q"
  by (metis decode_ptr_cells sum.inject(2))

lemma decode_ptr_InrD: "decode_ptr cs = Inr q \<Longrightarrow> q \<noteq> Null \<Longrightarrow> cs = map (Frag q) [0..<8]"
  by (auto simp: decode_ptr_def split: if_splits list.splits cell.splits)

section \<open>The contract of a typed access\<close>

text \<open>
  What every component relies on when it stores a value and reads it back: the encoding has a
  fixed width and decoding undoes it. The consequences for the heap are proved once, and hold for
  the integers and the pointers alike.
\<close>

locale cell_codec =
  fixes enc :: "'v \<Rightarrow> cell list" and dec :: "cell list \<Rightarrow> 'v res" and width :: nat
  assumes enc_length: "length (enc v) = width"
    and dec_enc: "dec (enc v) = Inr v"
begin

lemma load_store_same:
  assumes "store_cells a h p (enc v) = Inr h'"
  shows "bindE (load_cells h' p width) dec = Inr v"
  using assms by (elim store_cells_InrD) (simp add: enc_length dec_enc)

lemma load_at:
  assumes "blocks h b = Some cs" and "k + width \<le> length cs" and "piece cs k width = enc v"
  shows "bindE (load_cells h (Ptr b k) width) dec = Inr v"
  using assms by (simp add: dec_enc)

lemma load_store_other:
  assumes "store_cells a h p (enc v) = Inr h'"
    and "blk q \<noteq> blk p \<or> off q + n \<le> off p \<or> off p + width \<le> off q"
  shows "load_cells h' q n = load_cells h q n"
proof -
  obtain b k cs where *: "p = Ptr b k" "blocks h b = Some cs" "k + length (enc v) \<le> length cs"
    "h' = put a b k (enc v) h"
    using assms(1) by (rule store_cells_InrD)
  show ?thesis
    using * assms(2) load_put_disjoint [OF *(2,3)] by (simp add: enc_length)
qed

lemma enc_inject: "enc v = enc w \<longleftrightarrow> v = w"
  by (metis dec_enc sum.inject(2))

end

interpretation c16: cell_codec "word_cells 2 :: u16 \<Rightarrow> cell list" decode_word 2
  by unfold_locales simp_all

interpretation c32: cell_codec "word_cells 4 :: u32 \<Rightarrow> cell list" decode_word 4
  by unfold_locales simp_all

interpretation c64: cell_codec "word_cells 8 :: u64 \<Rightarrow> cell list" decode_word 8
  by unfold_locales simp_all

interpretation cptr: cell_codec ptr_cells decode_ptr 8
  by unfold_locales simp_all

section \<open>Buffers with a counted header\<close>

text \<open>
  Arrays, strings and objects all keep their data in one heap block with the same eight-byte
  header, \<^verbatim>\<open>[size:4 | cap:4]\<close>, in front of the data.
\<close>

definition counted :: "u32 \<Rightarrow> u32 \<Rightarrow> cell list \<Rightarrow> cell list" where
  "counted n cap data = word_cells 4 n @ word_cells 4 cap @ data"

lemma length_counted [simp]: "length (counted n cap data) = 8 + length data"
  by (simp add: counted_def)

lemma piece_counted_size [simp]: "piece (counted n cap data) 0 4 = word_cells 4 n"
  by (simp add: counted_def piece_append_left)

lemma piece_counted_cap [simp]: "piece (counted n cap data) 4 4 = word_cells 4 cap"
  by (simp add: counted_def piece_append_left piece_append_right)

lemma piece_counted_data [simp]: "piece (counted n cap data) (8 + k) m = piece data k m"
  by (simp add: counted_def piece_append_right)

lemma piece_counted_data_0 [simp]: "piece (counted n cap data) 8 m = piece data 0 m"
  using piece_counted_data [of n cap data 0 m] by simp

lemma patch_counted_size [simp]:
  "patch (counted n cap data) 0 (word_cells 4 n') = counted n' cap data"
  by (simp add: counted_def patch_append_left)

lemma patch_counted_cap [simp]:
  "patch (counted n cap data) 4 (word_cells 4 cap') = counted n cap' data"
  by (simp add: counted_def patch_append_left patch_append_right)

lemma patch_counted_data [simp]:
  "patch (counted n cap data) (8 + k) xs = counted n cap (patch data k xs)"
  by (simp add: counted_def patch_append_right)

lemma patch_counted_data_0 [simp]:
  "patch (counted n cap data) 8 xs = counted n cap (patch data 0 xs)"
  using patch_counted_data [of n cap data 0 xs] by simp

lemma counted_inject [simp]:
  "counted n cap data = counted n' cap' data' \<longleftrightarrow> n = n' \<and> cap = cap' \<and> data = data'"
  by (auto simp: counted_def c32.enc_inject)

text \<open>A block fresh from \<^verbatim>\<open>malloc\<close> whose header is written in two steps is a counted buffer.\<close>

lemma counted_of_replicate:
  "patch (patch (replicate (8 + m) x) 0 (word_cells 4 n)) 4 (word_cells 4 cap)
     = counted n cap (replicate m x)"
  by (simp add: counted_def patch_replicate_head patch_append_right)

lemma atomic_load_u32_size [run_simps]:
  "blocks h b = Some (counted n cap data) \<Longrightarrow> atomic_load_u32 h (Ptr b 0) ord = Inr n"
  by (simp add: atomic_load_u32_def load_u32_def)

lemma atomic_load_u32_cap [run_simps]:
  "blocks h b = Some (counted n cap data) \<Longrightarrow> atomic_load_u32 h (Ptr b 4) ord = Inr cap"
  by (simp add: atomic_load_u32_def load_u32_def)

lemma atomic_store_u32_at [run_simps]:
  "blocks h b = Some cs \<Longrightarrow> k + 4 \<le> length cs \<Longrightarrow> k mod 4 = 0 \<Longrightarrow>
   atomic_store_u32 h (Ptr b k) v ord = Inr (put (Atomic ord) b k (word_cells 4 v) h)"
  by (simp add: atomic_store_u32_def)

lemma memset_at [run_simps]:
  "blocks h b = Some cs \<Longrightarrow> k + n \<le> length cs \<Longrightarrow>
   memset h (Ptr b k) v n = Inr (put Plain b k (replicate n (Byte v)) h)"
  by (simp add: memset_def)

lemma memcpy_at [run_simps]:
  "blocks h b = Some cs \<Longrightarrow> k + n \<le> length cs \<Longrightarrow>
   blocks h c = Some ds \<Longrightarrow> j + n \<le> length ds \<Longrightarrow> b \<noteq> c \<Longrightarrow>
   memcpy h (Ptr b k) (Ptr c j) n = Inr (put Plain b k (piece ds j n) h)"
  by (simp add: memcpy_def)

section \<open>Slots\<close>

text \<open>
  The slot of a dynamic value is 16 bytes, \<^verbatim>\<open>[header:8 | data_ptr:8]\<close>, somewhere in a block.
  \<open>slot_holds h slot q\<close> says that the slot is there, aligned for the atomic accesses, and that
  its pointer is \<open>q\<close>.
\<close>

definition slot_holds :: "heap \<Rightarrow> ptr \<Rightarrow> ptr \<Rightarrow> bool" where
  "slot_holds h slot q \<longleftrightarrow>
     (case slot of Null \<Rightarrow> False
      | Ptr b k \<Rightarrow> k mod 8 = 0 \<and>
          (case blocks h b of None \<Rightarrow> False
           | Some cs \<Rightarrow> k + 16 \<le> length cs \<and> piece cs (k + 8) 8 = ptr_cells q))"

lemma slot_holdsE:
  assumes "slot_holds h slot q"
  obtains b k cs where "slot = Ptr b k" and "k mod 8 = 0" and "blocks h b = Some cs"
    and "k + 16 \<le> length cs" and "piece cs (k + 8) 8 = ptr_cells q"
  using assms by (auto simp: slot_holds_def split: ptr.splits option.splits)

lemma slot_holdsI:
  "k mod 8 = 0 \<Longrightarrow> blocks h b = Some cs \<Longrightarrow> k + 16 \<le> length cs \<Longrightarrow>
   piece cs (k + 8) 8 = ptr_cells q \<Longrightarrow> slot_holds h (Ptr b k) q"
  by (simp add: slot_holds_def)

lemma slot_holds_not_Null [simp]: "\<not> slot_holds h Null q"
  by (simp add: slot_holds_def)

lemma slot_holds_unique: "slot_holds h slot p \<Longrightarrow> slot_holds h slot q \<Longrightarrow> p = q"
  by (auto simp: slot_holds_def split: ptr.splits option.splits)

lemma slot_holds_live: "slot_holds h slot q \<Longrightarrow> blocks h (blk slot) \<noteq> None"
  by (auto elim: slot_holdsE)

lemma load_slot [run_simps]:
  "slot_holds h slot q \<Longrightarrow> atomic_load_ptr h (padd slot 8) ord = Inr q"
  by (elim slot_holdsE) (simp add: atomic_load_ptr_def load_ptr_def mod_Suc)

lemma store_slot [run_simps]:
  "slot_holds h slot q \<Longrightarrow> atomic_store_ptr h (padd slot 8) p ord =
     Inr (put (Atomic ord) (blk slot) (off slot + 8) (ptr_cells p) h)"
  by (elim slot_holdsE) (simp add: atomic_store_ptr_def)

lemma load_slot_plain [run_simps]: "slot_holds h slot q \<Longrightarrow> load_ptr h (padd slot 8) = Inr q"
  by (elim slot_holdsE) (simp add: load_ptr_def)

lemma store_slot_plain [run_simps]:
  "slot_holds h slot q \<Longrightarrow> store_ptr h (padd slot 8) p =
     Inr (put Plain (blk slot) (off slot + 8) (ptr_cells p) h)"
  by (elim slot_holdsE) (simp add: store_ptr_def)

lemma slot_holds_publish:
  "slot_holds h slot q \<Longrightarrow>
   slot_holds (put a (blk slot) (off slot + 8) (ptr_cells p) h) slot p"
  by (elim slot_holdsE) (simp add: slot_holds_def)

lemma slot_holds_cong:
  "blocks h' (blk slot) = blocks h (blk slot) \<Longrightarrow> slot_holds h' slot q = slot_holds h slot q"
  by (cases slot) (simp_all add: slot_holds_def)

lemma slot_holds_put_other:
  "b \<noteq> blk slot \<Longrightarrow> slot_holds (put a b k xs h) slot q = slot_holds h slot q"
  by (rule slot_holds_cong) simp

lemma slot_holds_put_disjoint:
  assumes "slot_holds h slot q" and "blocks h b = Some cs" and "k + length xs \<le> length cs"
    and "b \<noteq> blk slot \<or> k + length xs \<le> off slot + 8 \<or> off slot + 16 \<le> k"
  shows "slot_holds (put a b k xs h) slot q"
proof (cases "b = blk slot")
  case True
  with assms show ?thesis
    by (elim slot_holdsE) (auto simp: slot_holds_def piece_patch_disjoint)
next
  case False
  with assms(1) show ?thesis by (simp add: slot_holds_put_other)
qed

section \<open>Well-formed heaps\<close>

text \<open>No block beyond the next one to be given out is live.\<close>

definition heap_wf :: "heap \<Rightarrow> bool" where
  "heap_wf h \<longleftrightarrow> (\<forall>b. next_block h \<le> b \<longrightarrow> blocks h b = None)"

lemma heap_wf_live: "heap_wf h \<Longrightarrow> blocks h b = Some cs \<Longrightarrow> b < next_block h"
  by (metis heap_wf_def not_less option.distinct(1))

lemma heap_wf_put [simp]: "heap_wf h \<Longrightarrow> heap_wf (put a b k xs h)"
  by (auto simp: heap_wf_def blocks_put)

lemma heap_wf_new_block [simp]: "heap_wf h \<Longrightarrow> heap_wf (new_block n h)"
  by (auto simp: heap_wf_def)

lemma heap_wf_fail_block [simp]: "heap_wf h \<Longrightarrow> heap_wf (fail_block n h)"
  by (auto simp: heap_wf_def)

lemma heap_wf_drop_block [simp]: "heap_wf h \<Longrightarrow> heap_wf (drop_block b h)"
  by (auto simp: heap_wf_def)

lemma slot_holds_fresh: "heap_wf h \<Longrightarrow> slot_holds h slot q \<Longrightarrow> next_block h \<noteq> blk slot"
  by (auto elim!: slot_holdsE dest: heap_wf_live)

section \<open>Copy on write\<close>

text \<open>
  The library changes a dynamic value by building a new buffer privately and then storing its
  address in the slot. \<open>publishes h h' slot q\<close> says that this is all that happened to the blocks
  of \<open>h\<close>: the pointer of \<open>slot\<close> became \<open>q\<close>, and every other byte of every block,
  the old buffer included, is as before (the source's policy G2: old buffers are kept).
\<close>

definition publishes :: "heap \<Rightarrow> heap \<Rightarrow> ptr \<Rightarrow> ptr \<Rightarrow> bool" where
  "publishes h h' slot q \<longleftrightarrow>
     (\<forall>c < next_block h. c \<noteq> blk slot \<longrightarrow> blocks h' c = blocks h c) \<and>
     blocks h' (blk slot) =
       map_option (\<lambda>cs. patch cs (off slot + 8) (ptr_cells q)) (blocks h (blk slot)) \<and>
     next_block h \<le> next_block h' \<and> heap_wf h' \<and> oom h' = oom h"

lemma publishes_block:
  "publishes h h' slot q \<Longrightarrow> heap_wf h \<Longrightarrow> blocks h c = Some cs \<Longrightarrow> c \<noteq> blk slot \<Longrightarrow>
   blocks h' c = Some cs"
  by (auto simp: publishes_def dest: heap_wf_live)

lemma publishes_slot: "publishes h h' slot q \<Longrightarrow> slot_holds h slot p \<Longrightarrow> slot_holds h' slot q"
  by (elim slot_holdsE) (simp add: publishes_def slot_holds_def)

lemma publishes_put_new:
  assumes "publishes h h' slot q" and "next_block h \<le> c" and "c \<noteq> blk slot"
  shows "publishes h (put a c k xs h') slot q"
  using assms by (auto simp: publishes_def)

lemma publishes_store:
  "heap_wf h \<Longrightarrow> publishes h (put a (blk slot) (off slot + 8) (ptr_cells q) h) slot q"
  by (simp add: publishes_def blocks_put)

lemma publishes_other_slot:
  assumes "publishes h h' slot q" and "heap_wf h" and "slot_holds h s r" and "slot_holds h slot p"
    and "blk s \<noteq> blk slot \<or> off s + 8 \<le> off slot \<or> off slot + 8 \<le> off s"
  shows "slot_holds h' s r"
proof (cases "blk s = blk slot")
  case True
  with assms show ?thesis
    by (elim slot_holdsE) (auto simp: publishes_def slot_holds_def piece_patch_disjoint)
next
  case False
  with assms(1,2,3) show ?thesis
    by (elim slot_holdsE) (auto simp: slot_holds_def publishes_block)
qed

lemma publishes_load:
  assumes "publishes h h' slot q" and "heap_wf h" and "slot_holds h slot r"
    and "load_cells h p n = Inr xs"
    and "blk p \<noteq> blk slot \<or> off p + n \<le> off slot + 8 \<or> off slot + 16 \<le> off p"
  shows "load_cells h' p n = Inr xs"
proof -
  obtain b k cs where p: "p = Ptr b k" "blocks h b = Some cs" "k + n \<le> length cs" "xs = piece cs k n"
    using assms(4) by (rule load_cells_InrD)
  show ?thesis
  proof (cases "b = blk slot")
    case True
    with p assms show ?thesis
      by (elim slot_holdsE) (auto simp: publishes_def piece_patch_disjoint)
  next
    case False
    with p assms(1,2) show ?thesis by (auto simp: publishes_block)
  qed
qed

text \<open>
  Building the new buffer: \<open>builds h h' b cs\<close> says that \<open>h'\<close> is \<open>h\<close> with one new
  block \<open>b\<close>, whose cells are \<open>cs\<close>. Publishing it in a slot is then a \<open>publishes\<close>.
\<close>

definition builds :: "heap \<Rightarrow> heap \<Rightarrow> nat \<Rightarrow> cell list \<Rightarrow> bool" where
  "builds h h' b cs \<longleftrightarrow>
     b = next_block h \<and> blocks h' = (blocks h)(b \<mapsto> cs) \<and> next_block h' = Suc b \<and> oom h' = oom h"

lemma builds_block: "builds h h' b cs \<Longrightarrow> blocks h' b = Some cs"
  by (simp add: builds_def)

lemma builds_other: "builds h h' b cs \<Longrightarrow> c \<noteq> b \<Longrightarrow> blocks h' c = blocks h c"
  by (simp add: builds_def)

lemma builds_new: "builds h (new_block n h) (next_block h) (replicate n Undef)"
  by (simp add: builds_def)

lemma builds_put: "builds h h' b cs \<Longrightarrow> builds h (put a b k xs h') b (patch cs k xs)"
  by (simp add: builds_def blocks_put)

lemma builds_memset:
  "builds h h' b cs \<Longrightarrow> k + n \<le> length cs \<Longrightarrow>
   \<exists>h''. memset h' (Ptr b k) v n = Inr h'' \<and> builds h h'' b (patch cs k (replicate n (Byte v)))"
  by (auto simp: memset_at builds_block intro: builds_put)

lemma builds_memcpy:
  "builds h h' b cs \<Longrightarrow> heap_wf h \<Longrightarrow> blocks h c = Some ds \<Longrightarrow> k + n \<le> length cs \<Longrightarrow> j + n \<le> length ds \<Longrightarrow>
   \<exists>h''. memcpy h' (Ptr b k) (Ptr c j) n = Inr h'' \<and> builds h h'' b (patch cs k (piece ds j n))"
proof -
  assume *: "builds h h' b cs" "heap_wf h" "blocks h c = Some ds" "k + n \<le> length cs" "j + n \<le> length ds"
  then have "c \<noteq> b" by (auto simp: builds_def dest: heap_wf_live)
  with * have "memcpy h' (Ptr b k) (Ptr c j) n = Inr (put Plain b k (piece ds j n) h')"
    by (auto intro!: memcpy_at simp: builds_block builds_other)
  with * show ?thesis by (auto intro: builds_put)
qed

lemma builds_store_u32:
  "builds h h' b cs \<Longrightarrow> k + 4 \<le> length cs \<Longrightarrow> k mod 4 = 0 \<Longrightarrow>
   \<exists>h''. atomic_store_u32 h' (Ptr b k) v ord = Inr h'' \<and> builds h h'' b (patch cs k (word_cells 4 v))"
  by (auto simp: atomic_store_u32_at builds_block intro: builds_put)

lemma builds_slot:
  "builds h h' b cs \<Longrightarrow> heap_wf h \<Longrightarrow> slot_holds h slot p \<Longrightarrow> slot_holds h' slot p"
  using slot_holds_fresh [of h slot p]
  by (subst slot_holds_cong [of h' slot h]) (auto simp: builds_def)

lemma builds_publish:
  assumes "builds h h' b cs" and "heap_wf h" and "slot_holds h slot p"
  shows "\<exists>h''. atomic_store_ptr h' (padd slot 8) q ord = Inr h'' \<and>
    publishes h h'' slot q \<and> blocks h'' b = Some cs \<and> next_block h'' = Suc b"
proof -
  have fresh: "b \<noteq> blk slot" and b: "b = next_block h"
    using assms slot_holds_fresh [of h slot p] by (auto simp: builds_def)
  have "atomic_store_ptr h' (padd slot 8) q ord =
      Inr (put (Atomic ord) (blk slot) (off slot + 8) (ptr_cells q) h')"
    using builds_slot [OF assms] by (rule store_slot)
  then show ?thesis
    using assms fresh b
    by (auto simp: publishes_def builds_def blocks_put heap_wf_def)
qed

text \<open>Allocating zeroed memory and writing the header gives an empty counted buffer.\<close>

lemma builds_counted:
  assumes "heap_wf h" and "\<not> oom h (next_block h) (8 + m)"
  obtains h1 h2 h3 h4 where "malloc h (8 + m) = (Ptr (next_block h) 0, h1)"
    and "memset h1 (Ptr (next_block h) 0) 0 (8 + m) = Inr h2"
    and "atomic_store_u32 h2 (Ptr (next_block h) 0) n ord1 = Inr h3"
    and "atomic_store_u32 h3 (Ptr (next_block h) 4) cap ord2 = Inr h4"
    and "builds h h4 (next_block h) (counted n cap (replicate m (Byte 0)))"
proof -
  let ?b = "next_block h" and ?m = "8 + m"
  obtain h2 where 2: "memset (new_block ?m h) (Ptr ?b 0) 0 ?m = Inr h2"
      "builds h h2 ?b (replicate ?m (Byte 0))"
    using builds_memset [OF builds_new, of 0 ?m ?m h 0] by auto
  obtain h3 where 3: "atomic_store_u32 h2 (Ptr ?b 0) n ord1 = Inr h3"
      "builds h h3 ?b (patch (replicate ?m (Byte 0)) 0 (word_cells 4 n))"
    using builds_store_u32 [OF 2(2), of 0 n ord1] by auto
  obtain h4 where 4: "atomic_store_u32 h3 (Ptr ?b 4) cap ord2 = Inr h4"
      "builds h h4 ?b (patch (patch (replicate ?m (Byte 0)) 0 (word_cells 4 n)) 4 (word_cells 4 cap))"
    using builds_store_u32 [OF 3(2), of 4 cap ord2] by auto
  show ?thesis
    using 2(1) 3(1) 4 assms by (intro that) (simp_all add: malloc_def counted_of_replicate)
qed

text \<open>The growth step arrays and objects share: a zeroed buffer with its header, the first
  \<open>k\<close> bytes of the old data copied into it, and the release store that publishes it.\<close>

lemma grow_counted:
  assumes wf: "heap_wf h" and slot: "slot_holds h slot (Ptr b 0)"
    and blk: "blocks h b = Some (counted n cap data)"
    and k: "k \<le> length data" "k \<le> m" "n = 0 \<Longrightarrow> k = 0"
    and mem: "\<not> oom h (next_block h) (8 + m)"
  obtains h1 h2 h3 h4 h5 h6 where "malloc h (8 + m) = (Ptr (next_block h) 0, h1)"
    and "memset h1 (Ptr (next_block h) 0) 0 (8 + m) = Inr h2"
    and "atomic_store_u32 h2 (Ptr (next_block h) 0) n Relaxed = Inr h3"
    and "atomic_store_u32 h3 (Ptr (next_block h) 4) new_cap Relaxed = Inr h4"
    and "(if 0 < n then memcpy h4 (Ptr (next_block h) 8) (Ptr b 8) k else Inr h4) = Inr h5"
    and "atomic_store_ptr h5 (padd slot 8) (Ptr (next_block h) 0) Release = Inr h6"
    and "publishes h h6 slot (Ptr (next_block h) 0)"
    and "blocks h6 (next_block h) =
          Some (counted n new_cap (take k data @ replicate (m - k) (Byte 0)))"
proof -
  let ?nb = "next_block h"
  let ?data' = "take k data @ replicate (m - k) (Byte 0)"
  obtain h1 h2 h3 h4 where h: "malloc h (8 + m) = (Ptr ?nb 0, h1)"
      "memset h1 (Ptr ?nb 0) 0 (8 + m) = Inr h2"
      "atomic_store_u32 h2 (Ptr ?nb 0) n Relaxed = Inr h3"
      "atomic_store_u32 h3 (Ptr ?nb 4) new_cap Relaxed = Inr h4"
    and b4: "builds h h4 ?nb (counted n new_cap (replicate m (Byte 0)))"
    using builds_counted [OF wf mem] by blast
  obtain h5 where h5: "(if 0 < n then memcpy h4 (Ptr ?nb 8) (Ptr b 8) k else Inr h4) = Inr h5"
    and b5: "builds h h5 ?nb (counted n new_cap ?data')"
  proof (cases "0 < n")
    case True
    have "length (take k data) = k" using k(1) by simp
    then have eq: "patch (counted n new_cap (replicate m (Byte 0))) 8
        (piece (counted n cap data) 8 k) = counted n new_cap ?data'"
      using k(2) by (simp add: piece_def [of data] patch_replicate_head del: length_take)
    have "\<exists>h''. memcpy h4 (Ptr ?nb 8) (Ptr b 8) k = Inr h'' \<and>
        builds h h'' ?nb (patch (counted n new_cap (replicate m (Byte 0))) 8
          (piece (counted n cap data) 8 k))"
      using b4 wf blk k(1,2) by (intro builds_memcpy) auto
    then obtain h'' where "memcpy h4 (Ptr ?nb 8) (Ptr b 8) k = Inr h''"
        "builds h h'' ?nb (counted n new_cap ?data')"
      unfolding eq by blast
    with True show ?thesis by (intro that [of h'']) simp_all
  next
    case False
    then have "k = 0" using k(3) by (simp add: word_gt_0_unat unat_eq_zero_iff)
    with b4 False show ?thesis by (intro that [of h4]) auto
  qed
  obtain h6 where h6: "atomic_store_ptr h5 (padd slot 8) (Ptr ?nb 0) Release = Inr h6"
      "publishes h h6 slot (Ptr ?nb 0)" "blocks h6 ?nb = Some (counted n new_cap ?data')"
    using builds_publish [OF b5 wf slot] by blast
  from h h5 h6 show ?thesis by (rule that)
qed

text \<open>The same step for a slot that has no buffer yet.\<close>

lemma first_counted:
  assumes wf: "heap_wf h" and slot: "slot_holds h slot Null"
    and mem: "\<not> oom h (next_block h) (8 + m)"
  obtains h1 h2 h3 h4 h6 where "malloc h (8 + m) = (Ptr (next_block h) 0, h1)"
    and "memset h1 (Ptr (next_block h) 0) 0 (8 + m) = Inr h2"
    and "atomic_store_u32 h2 (Ptr (next_block h) 0) 0 Relaxed = Inr h3"
    and "atomic_store_u32 h3 (Ptr (next_block h) 4) new_cap Relaxed = Inr h4"
    and "atomic_store_ptr h4 (padd slot 8) (Ptr (next_block h) 0) Release = Inr h6"
    and "publishes h h6 slot (Ptr (next_block h) 0)"
    and "blocks h6 (next_block h) = Some (counted 0 new_cap (replicate m (Byte 0)))"
proof -
  obtain h1 h2 h3 h4 where h: "malloc h (8 + m) = (Ptr (next_block h) 0, h1)"
      "memset h1 (Ptr (next_block h) 0) 0 (8 + m) = Inr h2"
      "atomic_store_u32 h2 (Ptr (next_block h) 0) 0 Relaxed = Inr h3"
      "atomic_store_u32 h3 (Ptr (next_block h) 4) new_cap Relaxed = Inr h4"
    and b4: "builds h h4 (next_block h) (counted 0 new_cap (replicate m (Byte 0)))"
    using builds_counted [OF wf mem] by blast
  obtain h6 where "atomic_store_ptr h4 (padd slot 8) (Ptr (next_block h) 0) Release = Inr h6"
      "publishes h h6 slot (Ptr (next_block h) 0)"
      "blocks h6 (next_block h) = Some (counted 0 new_cap (replicate m (Byte 0)))"
    using builds_publish [OF b4 wf slot] by blast
  with h show ?thesis by (rule that)
qed

text \<open>From here on an access is evaluated only where its block is known.\<close>

declare load_cells.simps(2) [simp del] and store_cells.simps(2) [simp del]
declare ptr_cells.simps [simp del]
declare load_cells_Some [simp] and store_cells_Some [simp]

end
