(* ===== verification/Msm_Array.thy ===== *)
theory Msm_Array
  imports Msm_Heap
begin

text \<open>
  The array functions of the C interface (\<^verbatim>\<open>msm_allocator.cpp\<close>). The slot holds a pointer to
  a counted buffer \<^verbatim>\<open>[size:4 | cap:4 | elements]\<close>; the element size is an argument of every
  call. A function that changes memory returns the new heap; one that only reads returns its value.
\<close>

section \<open>Buffer accessors\<close>

definition ARR_BUF_HEADER :: u64 where
  "ARR_BUF_HEADER = 8"

definition arr_buf_size :: "heap \<Rightarrow> ptr \<Rightarrow> memory_order \<Rightarrow> u32 res" where
  "arr_buf_size h buf order = atomic_load_u32 h buf order"

definition arr_buf_cap :: "heap \<Rightarrow> ptr \<Rightarrow> u32 res" where
  "arr_buf_cap h buf = atomic_load_u32 h (padd buf 4) Relaxed"

definition arr_buf_data :: "ptr \<Rightarrow> ptr" where
  "arr_buf_data buf = padd buf (unat ARR_BUF_HEADER)"

definition arr_buf_set_size :: "heap \<Rightarrow> ptr \<Rightarrow> u32 \<Rightarrow> memory_order \<Rightarrow> heap res" where
  "arr_buf_set_size h buf v order = atomic_store_u32 h buf v order"

definition arr_buf_set_cap :: "heap \<Rightarrow> ptr \<Rightarrow> u32 \<Rightarrow> heap res" where
  "arr_buf_set_cap h buf v = atomic_store_u32 h (padd buf 4) v Relaxed"

section \<open>The operations\<close>

text \<open>Sizes in bytes are computed in \<^verbatim>\<open>std::size_t\<close>, that is modulo \<open>2 ^ 64\<close>.\<close>

definition size_mul :: "u32 \<Rightarrow> u32 \<Rightarrow> u64" where
  "size_mul a b = ucast a * ucast b"

definition msm_array_size :: "heap \<Rightarrow> ptr \<Rightarrow> u32 res" where
  "msm_array_size h slot =
     (if slot = Null then Inr 0
      else bindE (atomic_load_ptr h (padd slot 8) Acquire) (\<lambda>buf.
        if buf = Null then Inr 0 else arr_buf_size h buf Acquire))"

definition msm_array_capacity :: "heap \<Rightarrow> ptr \<Rightarrow> u32 res" where
  "msm_array_capacity h slot =
     (if slot = Null then Inr 0
      else bindE (atomic_load_ptr h (padd slot 8) Relaxed) (\<lambda>buf.
        if buf = Null then Inr 0 else arr_buf_cap h buf))"

definition msm_array_reserve :: "heap \<Rightarrow> ptr \<Rightarrow> u32 \<Rightarrow> u32 \<Rightarrow> heap res" where
  "msm_array_reserve h slot new_cap item_size =
     (if slot = Null \<or> item_size = 0 then Inr h
      else bindE (atomic_load_ptr h (padd slot 8) Relaxed) (\<lambda>old_buf.
        bindE (if old_buf \<noteq> Null then arr_buf_cap h old_buf else Inr 0) (\<lambda>old_cap.
        if new_cap \<le> old_cap then Inr h
        else bindE (if old_buf \<noteq> Null then arr_buf_size h old_buf Relaxed else Inr 0) (\<lambda>old_size.
          let new_bytes = unat (ARR_BUF_HEADER + size_mul new_cap item_size);
              (new_buf, h1) = malloc h new_bytes
          in if new_buf = Null then Inr h1
             else bindE (memset h1 new_buf 0 new_bytes) (\<lambda>h2.
               bindE (arr_buf_set_size h2 new_buf old_size Relaxed) (\<lambda>h3.
               bindE (arr_buf_set_cap h3 new_buf new_cap) (\<lambda>h4.
               bindE (if old_buf \<noteq> Null \<and> 0 < old_size
                      then memcpy h4 (arr_buf_data new_buf) (arr_buf_data old_buf)
                             (unat (size_mul old_size item_size))
                      else Inr h4) (\<lambda>h5.
               atomic_store_ptr h5 (padd slot 8) new_buf Release))))))))"

definition msm_array_prepare_push :: "heap \<Rightarrow> ptr \<Rightarrow> u32 \<Rightarrow> (ptr \<times> heap) res" where
  "msm_array_prepare_push h slot item_size =
     (if slot = Null \<or> item_size = 0 then Inr (Null, h)
      else bindE (atomic_load_ptr h (padd slot 8) Relaxed) (\<lambda>buf.
        bindE (if buf \<noteq> Null then arr_buf_size h buf Relaxed else Inr 0) (\<lambda>sz.
        bindE (if buf \<noteq> Null then arr_buf_cap h buf else Inr 0) (\<lambda>cap.
        bindE (if buf = Null \<or> cap \<le> sz
               then let new_cap = (if cap = 0 then 8 else cap * 2)
                    in bindE (msm_array_reserve h slot new_cap item_size) (\<lambda>h1.
                       bindE (atomic_load_ptr h1 (padd slot 8) Relaxed) (\<lambda>buf'. Inr (buf', h1)))
               else Inr (buf, h)) (\<lambda>(buf, h1).
        if buf = Null then Inr (Null, h1)
        else let elem = padd (arr_buf_data buf) (unat (size_mul sz item_size))
             in bindE (memset h1 elem 0 (unat item_size)) (\<lambda>h2. Inr (elem, h2)))))))"

definition msm_array_commit_push :: "heap \<Rightarrow> ptr \<Rightarrow> heap res" where
  "msm_array_commit_push h slot =
     (if slot = Null then Inr h
      else bindE (atomic_load_ptr h (padd slot 8) Relaxed) (\<lambda>buf.
        if buf = Null then Inr h
        else bindE (arr_buf_size h buf Relaxed) (\<lambda>sz. arr_buf_set_size h buf (sz + 1) Release)))"

definition msm_array_push_back :: "heap \<Rightarrow> ptr \<Rightarrow> u32 \<Rightarrow> (ptr \<times> heap) res" where
  "msm_array_push_back h slot item_size =
     bindE (msm_array_prepare_push h slot item_size) (\<lambda>(elem, h1).
       if elem \<noteq> Null then bindE (msm_array_commit_push h1 slot) (\<lambda>h2. Inr (elem, h2))
       else Inr (elem, h1))"

definition msm_array_get :: "heap \<Rightarrow> ptr \<Rightarrow> u32 \<Rightarrow> u32 \<Rightarrow> ptr res" where
  "msm_array_get h slot index item_size =
     (if slot = Null \<or> item_size = 0 then Inr Null
      else bindE (atomic_load_ptr h (padd slot 8) Acquire) (\<lambda>buf.
        if buf = Null then Inr Null
        else bindE (arr_buf_size h buf Acquire) (\<lambda>sz.
          if sz \<le> index then Inr Null
          else Inr (padd (arr_buf_data buf) (unat (size_mul index item_size))))))"

definition msm_array_clear :: "heap \<Rightarrow> ptr \<Rightarrow> heap res" where
  "msm_array_clear h slot =
     (if slot = Null then Inr h
      else bindE (atomic_load_ptr h (padd slot 8) Relaxed) (\<lambda>buf.
        if buf = Null then Inr h else arr_buf_set_size h buf 0 Release))"

section \<open>The representation of an array\<close>

text \<open>
  \<open>array_rep h slot isz b n cap data\<close>: the slot points to block \<open>b\<close>, a counted buffer
  of \<open>n\<close> elements with room for \<open>cap\<close> elements of \<open>isz\<close> bytes. The abstract
  contents are the list of its elements; \<open>array_at\<close> also covers the array that never had a
  buffer.
\<close>

definition array_rep :: "heap \<Rightarrow> ptr \<Rightarrow> u32 \<Rightarrow> nat \<Rightarrow> u32 \<Rightarrow> u32 \<Rightarrow> cell list \<Rightarrow> bool" where
  "array_rep h slot isz b n cap data \<longleftrightarrow>
     slot_holds h slot (Ptr b 0) \<and> b \<noteq> blk slot \<and> blocks h b = Some (counted n cap data) \<and>
     n \<le> cap \<and> length data = unat cap * unat isz"

definition elements :: "nat \<Rightarrow> nat \<Rightarrow> cell list \<Rightarrow> cell list list" where
  "elements isz n data = map (\<lambda>i. piece data (i * isz) isz) [0..<n]"

definition array_at :: "heap \<Rightarrow> ptr \<Rightarrow> u32 \<Rightarrow> u32 \<Rightarrow> cell list list \<Rightarrow> bool" where
  "array_at h slot isz cap es \<longleftrightarrow>
     slot_holds h slot Null \<and> cap = 0 \<and> es = [] \<or>
     (\<exists>b n data. array_rep h slot isz b n cap data \<and> es = elements (unat isz) (unat n) data)"

section \<open>Facts about sizes\<close>

lemma unat_ARR_BUF_HEADER [simp]: "unat ARR_BUF_HEADER = 8"
  by (simp add: ARR_BUF_HEADER_def)

lemma unat_arr_bytes [simp]:
  "unat (ARR_BUF_HEADER + size_mul a b) = 8 + unat a * unat b"
  by (simp add: ARR_BUF_HEADER_def size_mul_def unat_size_u32_mult)

lemma unat_size_mul [simp]: "unat (size_mul a b) = unat a * unat b"
proof -
  have "unat a * unat b < 18446744073709551616"
    using unat_u32_mult_le [of a b] by linarith
  then show ?thesis by (simp add: size_mul_def unat_word_ariths)
qed

lemma length_elements [simp]: "length (elements isz n data) = n"
  by (simp add: elements_def)

lemma nth_elements: "i < n \<Longrightarrow> elements isz n data ! i = piece data (i * isz) isz"
  by (simp add: elements_def)

lemma elements_Suc: "elements isz (Suc n) data = elements isz n data @ [piece data (n * isz) isz]"
  by (simp add: elements_def)

lemma elements_cong:
  assumes "take (n * isz) xs = take (n * isz) ys"
  shows "elements isz n xs = elements isz n ys"
proof -
  have "piece xs (i * isz) isz = piece ys (i * isz) isz" if "i < n" for i
  proof (rule piece_cong_take [OF assms])
    have "(i + 1) * isz \<le> n * isz" using that by (intro mult_right_mono) auto
    then show "i * isz + isz \<le> n * isz" by (simp add: add.commute)
  qed
  then show ?thesis by (simp add: elements_def)
qed

lemma array_repE:
  assumes "array_rep h slot isz b n cap data"
  obtains "slot_holds h slot (Ptr b 0)" and "b \<noteq> blk slot"
    and "blocks h b = Some (counted n cap data)" and "unat n \<le> unat cap"
    and "length data = unat cap * unat isz" and "slot \<noteq> Null"
    and "unat n * unat isz \<le> length data"
proof -
  have "slot \<noteq> Null" using assms by (auto simp: array_rep_def)
  moreover have "unat n * unat isz \<le> unat cap * unat isz"
    using assms by (intro mult_right_mono) (auto simp: array_rep_def word_le_nat_alt)
  ultimately show ?thesis
    using assms that by (simp add: array_rep_def word_le_nat_alt)
qed

section \<open>Growing\<close>

lemmas arr_buf_defs = arr_buf_size_def arr_buf_cap_def arr_buf_set_size_def arr_buf_set_cap_def
  arr_buf_data_def

lemma reserve_grow:
  assumes rep: "array_rep h slot isz b n cap data" and wf: "heap_wf h"
    and isz: "isz \<noteq> 0" and cap: "cap < new_cap"
    and mem: "\<not> oom h (next_block h) (8 + unat new_cap * unat isz)"
  obtains h' where "msm_array_reserve h slot new_cap isz = Inr h'"
    and "publishes h h' slot (Ptr (next_block h) 0)"
    and "array_rep h' slot isz (next_block h) n new_cap
          (take (unat n * unat isz) data @
           replicate (unat new_cap * unat isz - unat n * unat isz) (Byte 0))"
proof -
  let ?nb = "next_block h" and ?m = "unat new_cap * unat isz" and ?k = "unat n * unat isz"
  have slot: "slot_holds h slot (Ptr b 0)" and blk: "blocks h b = Some (counted n cap data)"
    and len: "?k \<le> length data" "length data = unat cap * unat isz" and nn: "slot \<noteq> Null"
    and fresh: "?nb \<noteq> blk slot" and nc: "unat n \<le> unat cap" "unat cap < unat new_cap"
    using array_repE [OF rep] slot_holds_fresh [OF wf] cap by (metis word_less_nat_alt)+
  have km: "?k \<le> ?m" using nc by (intro mult_right_mono) auto
  have "n = 0 \<Longrightarrow> ?k = 0" by simp
  from wf slot blk len(1) km this mem show ?thesis
  proof (rule grow_counted [where new_cap = new_cap])
    fix h1 h2 h3 h4 h5 h6
    assume h: "malloc h (8 + ?m) = (Ptr ?nb 0, h1)" "memset h1 (Ptr ?nb 0) 0 (8 + ?m) = Inr h2"
      "atomic_store_u32 h2 (Ptr ?nb 0) n Relaxed = Inr h3"
      "atomic_store_u32 h3 (Ptr ?nb 4) new_cap Relaxed = Inr h4"
      "(if 0 < n then memcpy h4 (Ptr ?nb 8) (Ptr b 8) ?k else Inr h4) = Inr h5"
      "atomic_store_ptr h5 (padd slot 8) (Ptr ?nb 0) Release = Inr h6"
      and h6: "publishes h h6 slot (Ptr ?nb 0)" "blocks h6 ?nb =
        Some (counted n new_cap (take ?k data @ replicate (?m - ?k) (Byte 0)))"
    have "msm_array_reserve h slot new_cap isz = Inr h6"
      using nn isz cap h by (auto simp: msm_array_reserve_def arr_buf_defs load_slot [OF slot]
          atomic_load_u32_size [OF blk] atomic_load_u32_cap [OF blk] split: if_splits)
    moreover have "array_rep h6 slot isz ?nb n new_cap (take ?k data @ replicate (?m - ?k) (Byte 0))"
      using publishes_slot [OF h6(1) slot] h6(2) fresh len km nc
      by (simp add: array_rep_def word_le_nat_alt)
    ultimately show ?thesis using h6(1) that by blast
  qed
qed

lemma reserve_first:
  assumes slot: "slot_holds h slot Null" and wf: "heap_wf h"
    and isz: "isz \<noteq> 0" and cap: "0 < new_cap"
    and mem: "\<not> oom h (next_block h) (8 + unat new_cap * unat isz)"
  obtains h' where "msm_array_reserve h slot new_cap isz = Inr h'"
    and "publishes h h' slot (Ptr (next_block h) 0)"
    and "array_rep h' slot isz (next_block h) 0 new_cap
          (replicate (unat new_cap * unat isz) (Byte 0))"
proof -
  let ?nb = "next_block h" and ?m = "unat new_cap * unat isz"
  have fresh: "?nb \<noteq> blk slot" and nn: "slot \<noteq> Null" and c: "\<not> new_cap \<le> 0"
    using slot_holds_fresh [OF wf slot] slot cap by auto
  from wf slot mem show ?thesis
  proof (rule first_counted [where new_cap = new_cap])
    fix h1 h2 h3 h4 h6
    assume h: "malloc h (8 + ?m) = (Ptr ?nb 0, h1)" "memset h1 (Ptr ?nb 0) 0 (8 + ?m) = Inr h2"
      "atomic_store_u32 h2 (Ptr ?nb 0) 0 Relaxed = Inr h3"
      "atomic_store_u32 h3 (Ptr ?nb 4) new_cap Relaxed = Inr h4"
      "atomic_store_ptr h4 (padd slot 8) (Ptr ?nb 0) Release = Inr h6"
      and h6: "publishes h h6 slot (Ptr ?nb 0)"
        "blocks h6 ?nb = Some (counted 0 new_cap (replicate ?m (Byte 0)))"
    have "msm_array_reserve h slot new_cap isz = Inr h6"
      using nn isz h c by (simp add: msm_array_reserve_def arr_buf_defs load_slot [OF slot])
    moreover have "array_rep h6 slot isz ?nb 0 new_cap (replicate ?m (Byte 0))"
      using publishes_slot [OF h6(1) slot] h6(2) fresh by (simp add: array_rep_def)
    ultimately show ?thesis using h6(1) that by blast
  qed
qed

text \<open>The two cases in which nothing is published: there is room already, or \<^verbatim>\<open>malloc\<close> fails.\<close>

lemma reserve_enough:
  assumes "array_rep h slot isz b n cap data" and "new_cap \<le> cap"
  shows "msm_array_reserve h slot new_cap isz = Inr h"
  using assms
  by (elim array_repE) (simp add: msm_array_reserve_def arr_buf_defs load_slot atomic_load_u32_cap)

lemma reserve_oom:
  assumes "array_rep h slot isz b n cap data" and "cap < new_cap" and "isz \<noteq> 0"
    and "oom h (next_block h) (8 + unat new_cap * unat isz)"
  shows "msm_array_reserve h slot new_cap isz = Inr (fail_block (8 + unat new_cap * unat isz) h)"
  using assms
  by (elim array_repE)
    (simp add: msm_array_reserve_def arr_buf_defs load_slot atomic_load_u32_cap
      atomic_load_u32_size malloc_def not_le)

section \<open>Reading\<close>

lemma size_rep: "array_rep h slot isz b n cap data \<Longrightarrow> msm_array_size h slot = Inr n"
  by (elim array_repE) (simp add: msm_array_size_def arr_buf_defs load_slot atomic_load_u32_size)

lemma capacity_rep: "array_rep h slot isz b n cap data \<Longrightarrow> msm_array_capacity h slot = Inr cap"
  by (elim array_repE) (simp add: msm_array_capacity_def arr_buf_defs load_slot atomic_load_u32_cap)

lemma get_rep:
  "array_rep h slot isz b n cap data \<Longrightarrow> isz \<noteq> 0 \<Longrightarrow>
   msm_array_get h slot i isz =
     Inr (if n \<le> i then Null else Ptr b (8 + unat i * unat isz))"
  by (elim array_repE) (simp add: msm_array_get_def arr_buf_defs load_slot atomic_load_u32_size)

lemma empty_reads:
  "slot_holds h slot Null \<Longrightarrow> msm_array_size h slot = Inr 0"
  "slot_holds h slot Null \<Longrightarrow> msm_array_capacity h slot = Inr 0"
  "slot_holds h slot Null \<Longrightarrow> msm_array_get h slot i isz = Inr Null"
  by (simp_all add: msm_array_size_def msm_array_capacity_def msm_array_get_def load_slot)

lemma element_range:
  assumes "array_rep h slot isz b n cap data" and "i < unat cap"
  shows "i * unat isz + unat isz \<le> length data"
proof -
  have "(i + 1) * unat isz \<le> unat cap * unat isz" using assms(2) by (intro mult_right_mono) auto
  with assms(1) show ?thesis by (simp add: array_rep_def add.commute)
qed

lemma load_element:
  assumes "array_rep h slot isz b n cap data" and "i < unat cap"
  shows "load_cells h (Ptr b (8 + i * unat isz)) (unat isz) =
    Inr (piece data (i * unat isz) (unat isz))"
  using assms element_range [OF assms] by (auto elim!: array_repE)

section \<open>Pushing\<close>

definition grown_cap :: "u32 \<Rightarrow> u32" where
  "grown_cap cap = (if cap = 0 then 8 else cap * 2)"

lemma grown_cap_greater:
  assumes "unat cap < 2147483648"
  shows "cap < grown_cap cap" and "unat (grown_cap cap) = (if cap = 0 then 8 else 2 * unat cap)"
proof -
  have "unat (cap * 2) = 2 * unat cap" using assms by (simp add: unat_word_ariths)
  then show "unat (grown_cap cap) = (if cap = 0 then 8 else 2 * unat cap)"
    by (simp add: grown_cap_def)
  then show "cap < grown_cap cap"
    by (auto simp: word_less_nat_alt unat_gt_0 split: if_splits)
qed

lemma prepare_push_room:
  assumes "array_rep h slot isz b n cap data" and "n < cap" and "isz \<noteq> 0"
  shows "msm_array_prepare_push h slot isz =
    Inr (Ptr b (8 + unat n * unat isz),
         put Plain b (8 + unat n * unat isz) (replicate (unat isz) (Byte 0)) h)"
proof -
  have "unat n < unat cap" using assms(2) by (simp add: word_less_nat_alt)
  then have "unat n * unat isz + unat isz \<le> length data"
    using assms(1) by (rule element_range [rotated])
  moreover have "\<not> cap \<le> n" using assms(2) by simp
  ultimately show ?thesis
    using assms(1,3)
    by (elim array_repE)
      (simp add: msm_array_prepare_push_def arr_buf_defs load_slot [of h slot "Ptr b 0"]
        atomic_load_u32_size atomic_load_u32_cap memset_at)
qed

lemma array_rep_put_data:
  assumes "array_rep h slot isz b n cap data" and "k + length xs \<le> length data"
  shows "array_rep (put a b (8 + k) xs h) slot isz b n cap (patch data k xs)"
  using assms by (auto simp: array_rep_def slot_holds_put_other)

lemma commit_push_rep:
  assumes "array_rep h slot isz b n cap data" and "n < cap"
  shows "msm_array_commit_push h slot = Inr (put (Atomic Release) b 0 (word_cells 4 (n + 1)) h)"
    and "array_rep (put (Atomic Release) b 0 (word_cells 4 (n + 1)) h) slot isz b (n + 1) cap data"
    and "unat (n + 1) = Suc (unat n)"
proof -
  have less: "unat n < unat cap" using assms(2) by (simp add: word_less_nat_alt)
  have "Suc (unat n) < 4294967296" using less unat_u32_less [of cap] by linarith
  then show un: "unat (n + 1) = Suc (unat n)" by (simp add: unat_word_ariths)
  show "msm_array_commit_push h slot = Inr (put (Atomic Release) b 0 (word_cells 4 (n + 1)) h)"
    by (rule array_repE [OF assms(1)])
      (simp add: msm_array_commit_push_def arr_buf_defs load_slot atomic_load_u32_size
        atomic_store_u32_at)
  show "array_rep (put (Atomic Release) b 0 (word_cells 4 (n + 1)) h) slot isz b (n + 1) cap data"
    using assms(1) less
    by (auto simp: array_rep_def slot_holds_put_other word_le_nat_alt un)
qed

lemma clear_rep:
  assumes "array_rep h slot isz b n cap data"
  shows "msm_array_clear h slot = Inr (put (Atomic Release) b 0 (word_cells 4 (0 :: u32)) h)"
    and "array_rep (put (Atomic Release) b 0 (word_cells 4 (0 :: u32)) h) slot isz b 0 cap data"
proof -
  show "msm_array_clear h slot = Inr (put (Atomic Release) b 0 (word_cells 4 (0 :: u32)) h)"
    using assms by (elim array_repE)
      (simp add: msm_array_clear_def arr_buf_defs load_slot atomic_store_u32_at)
  show "array_rep (put (Atomic Release) b 0 (word_cells 4 (0 :: u32)) h) slot isz b 0 cap data"
    using assms by (auto simp: array_rep_def slot_holds_put_other)
qed

text \<open>A full array grows first; the new element is then the first one of the free part.\<close>

lemma prepare_push_after_grow:
  assumes buf: "atomic_load_ptr h (padd slot 8) Relaxed = Inr buf"
    and n: "(if buf \<noteq> Null then arr_buf_size h buf Relaxed else Inr 0) = Inr n"
    and cap: "(if buf \<noteq> Null then arr_buf_cap h buf else Inr 0) = Inr cap"
    and full: "buf = Null \<or> cap \<le> n"
    and res: "msm_array_reserve h slot (grown_cap cap) isz = Inr h1"
    and rep: "array_rep h1 slot isz b n cap' data" and room: "n < cap'"
    and isz: "isz \<noteq> 0"
  shows "msm_array_prepare_push h slot isz =
    Inr (Ptr b (8 + unat n * unat isz),
         put Plain b (8 + unat n * unat isz) (replicate (unat isz) (Byte 0)) h1)"
proof -
  have nn: "slot \<noteq> Null" and buf': "atomic_load_ptr h1 (padd slot 8) Relaxed = Inr (Ptr b 0)"
    and blk: "blocks h1 b = Some (counted n cap' data)"
    using rep by (auto elim!: array_repE simp: load_slot)
  have "unat n < unat cap'" using room by (simp add: word_less_nat_alt)
  then have "unat n * unat isz + unat isz \<le> length data"
    using rep by (rule element_range [rotated])
  then have "memset h1 (Ptr b (8 + unat n * unat isz)) 0 (unat isz) =
      Inr (put Plain b (8 + unat n * unat isz) (replicate (unat isz) (Byte 0)) h1)"
    by (intro memset_at [OF blk]) simp
  then show ?thesis
    using nn isz full n cap res
    by (simp add: msm_array_prepare_push_def buf buf' grown_cap_def [symmetric]
        arr_buf_data_def)
qed

lemma prepare_push_grow:
  assumes rep: "array_rep h slot isz b n cap data" and wf: "heap_wf h" and isz: "isz \<noteq> 0"
    and full: "cap \<le> n" and small: "unat cap < 2147483648"
    and mem: "\<not> oom h (next_block h) (8 + unat (grown_cap cap) * unat isz)"
  obtains h' data' where "msm_array_prepare_push h slot isz =
      Inr (Ptr (next_block h) (8 + unat n * unat isz), h')"
    and "publishes h h' slot (Ptr (next_block h) 0)"
    and "array_rep h' slot isz (next_block h) n (grown_cap cap) data'"
    and "n < grown_cap cap"
    and "elements (unat isz) (unat n) data' = elements (unat isz) (unat n) data"
    and "piece data' (unat n * unat isz) (unat isz) = replicate (unat isz) (Byte 0)"
proof -
  let ?nb = "next_block h" and ?k = "unat n * unat isz"
  let ?z = "replicate (unat isz) (Byte 0)"
  have g: "cap < grown_cap cap" using small by (rule grown_cap_greater)
  obtain h1 data1 where 1: "msm_array_reserve h slot (grown_cap cap) isz = Inr h1"
      "publishes h h1 slot (Ptr ?nb 0)" "array_rep h1 slot isz ?nb n (grown_cap cap) data1"
    and d1: "take ?k data1 = take ?k data"
  proof -
    have "?k \<le> length data" using rep by (auto elim: array_repE)
    then show ?thesis
      using reserve_grow [OF rep wf isz g mem] that by (metis append_eq_conv_conj length_take min_absorb2)
  qed
  have ng: "n < grown_cap cap" using rep g by (auto simp: array_rep_def)
  then have len: "?k + length ?z \<le> length data1"
    using element_range [OF 1(3), of "unat n"] by (simp add: word_less_nat_alt)
  have "msm_array_prepare_push h slot isz = Inr (Ptr ?nb (8 + ?k), put Plain ?nb (8 + ?k) ?z h1)"
  proof (rule prepare_push_after_grow [OF _ _ _ _ 1(1,3) ng isz])
    show "atomic_load_ptr h (padd slot 8) Relaxed = Inr (Ptr b 0)"
      using rep by (auto elim!: array_repE simp: load_slot)
  qed (use rep full in \<open>auto elim!: array_repE simp: arr_buf_defs atomic_load_u32_size atomic_load_u32_cap\<close>)
  moreover have "publishes h (put Plain ?nb (8 + ?k) ?z h1) slot (Ptr ?nb 0)"
    using 1(2,3) by (intro publishes_put_new) (auto elim: array_repE)
  moreover have "array_rep (put Plain ?nb (8 + ?k) ?z h1) slot isz ?nb n (grown_cap cap)
      (patch data1 ?k ?z)"
    using 1(3) len by (rule array_rep_put_data)
  moreover have "elements (unat isz) (unat n) (patch data1 ?k ?z) =
      elements (unat isz) (unat n) data"
    using len d1 by (intro elements_cong) (simp add: take_patch_before)
  ultimately show ?thesis
    using len ng that by (metis length_replicate piece_patch_same)
qed

lemma prepare_push_first:
  assumes slot: "slot_holds h slot Null" and wf: "heap_wf h" and isz: "isz \<noteq> 0"
    and mem: "\<not> oom h (next_block h) (8 + 8 * unat isz)"
  obtains h' data' where "msm_array_prepare_push h slot isz = Inr (Ptr (next_block h) 8, h')"
    and "publishes h h' slot (Ptr (next_block h) 0)"
    and "array_rep h' slot isz (next_block h) 0 8 data'"
    and "piece data' 0 (unat isz) = replicate (unat isz) (Byte 0)"
proof -
  let ?nb = "next_block h" and ?z = "replicate (unat isz) (Byte 0)"
  obtain h1 where 1: "msm_array_reserve h slot 8 isz = Inr h1"
      "publishes h h1 slot (Ptr ?nb 0)"
      "array_rep h1 slot isz ?nb 0 8 (replicate (8 * unat isz) (Byte 0))"
    using reserve_first [OF slot wf isz, of 8] mem by auto
  have "msm_array_prepare_push h slot isz =
      Inr (Ptr ?nb (8 + unat (0 :: u32) * unat isz),
           put Plain ?nb (8 + unat (0 :: u32) * unat isz) ?z h1)"
    by (rule prepare_push_after_grow [OF load_slot [OF slot] _ _ _ _ 1(3) _ isz, where cap = 0])
      (simp_all add: 1(1) grown_cap_def)
  moreover have "publishes h (put Plain ?nb 8 ?z h1) slot (Ptr ?nb 0)"
    using 1(2,3) by (intro publishes_put_new) (auto elim: array_repE)
  moreover have "array_rep (put Plain ?nb (8 + 0) ?z h1) slot isz ?nb 0 8
      (patch (replicate (8 * unat isz) (Byte 0)) 0 ?z)"
    using 1(3) by (rule array_rep_put_data) simp
  ultimately show ?thesis
    using that by (simp add: piece_patch_same)
qed

text \<open>
  There is room for one more element, or the array may grow: the doubled capacity does not wrap
  around and \<^verbatim>\<open>malloc\<close> succeeds.
\<close>

definition can_push :: "heap \<Rightarrow> u32 \<Rightarrow> u32 \<Rightarrow> nat \<Rightarrow> bool" where
  "can_push h isz cap n \<longleftrightarrow> n < unat cap \<or>
     unat cap < 2147483648 \<and> \<not> oom h (next_block h) (8 + unat (grown_cap cap) * unat isz)"

lemma prepare_push_spec:
  assumes arr: "array_at h slot isz cap es" and wf: "heap_wf h" and isz: "isz \<noteq> 0"
    and can: "can_push h isz cap (length es)"
  obtains b n cap' data h' where
      "msm_array_prepare_push h slot isz = Inr (Ptr b (8 + length es * unat isz), h')"
    and "array_rep h' slot isz b n cap' data" and "n < cap'" and "unat n = length es"
    and "elements (unat isz) (unat n) data = es"
    and "piece data (unat n * unat isz) (unat isz) = replicate (unat isz) (Byte 0)"
    and "heap_wf h'" and "oom h' = oom h"
    and "cap' = (if length es < unat cap then cap else grown_cap cap)"
  using arr unfolding array_at_def
proof (elim disjE exE conjE)
  assume "slot_holds h slot Null" "cap = 0" "es = []"
  moreover from this can have "\<not> oom h (next_block h) (8 + 8 * unat isz)"
    by (simp add: can_push_def grown_cap_def)
  ultimately obtain h' data' where "msm_array_prepare_push h slot isz = Inr (Ptr (next_block h) 8, h')"
      "publishes h h' slot (Ptr (next_block h) 0)" "array_rep h' slot isz (next_block h) 0 8 data'"
      "piece data' 0 (unat isz) = replicate (unat isz) (Byte 0)"
    using prepare_push_first [of h slot isz] wf isz by blast
  with \<open>cap = 0\<close> \<open>es = []\<close> show ?thesis
    by (intro that [of "next_block h" h' 0 8 data'])
      (simp_all add: elements_def grown_cap_def publishes_def)
next
  fix b n data
  assume rep: "array_rep h slot isz b n cap data" and "es = elements (unat isz) (unat n) data"
  then have es: "elements (unat isz) (unat n) data = es" and len: "length es = unat n" by simp_all
  let ?z = "replicate (unat isz) (Byte 0)"
  show ?thesis
  proof (cases "n < cap")
    case True
    have k: "unat n * unat isz + length ?z \<le> length data"
      using element_range [OF rep, of "unat n"] True by (simp add: word_less_nat_alt)
    have el: "elements (unat isz) (unat n) (patch data (unat n * unat isz) ?z) = es"
      using k by (subst es [symmetric], intro elements_cong) (simp add: take_patch_before)
    show ?thesis
      using prepare_push_room [OF rep True isz] array_rep_put_data [OF rep k] True k el wf
      by (intro that [of b "put Plain b (8 + unat n * unat isz) ?z h" n cap
            "patch data (unat n * unat isz) ?z"]) (simp_all add: len word_less_nat_alt)
  next
    case False
    then have full: "cap \<le> n" by simp
    have no_room: "\<not> unat n < unat cap" using False by (simp add: word_less_nat_alt)
    with can have small: "unat cap < 2147483648"
      and mem: "\<not> oom h (next_block h) (8 + unat (grown_cap cap) * unat isz)"
      by (simp_all add: can_push_def len)
    obtain h' data' where h': "msm_array_prepare_push h slot isz =
          Inr (Ptr (next_block h) (8 + unat n * unat isz), h')"
        "publishes h h' slot (Ptr (next_block h) 0)"
        "array_rep h' slot isz (next_block h) n (grown_cap cap) data'" "n < grown_cap cap"
        "elements (unat isz) (unat n) data' = elements (unat isz) (unat n) data"
        "piece data' (unat n * unat isz) (unat isz) = replicate (unat isz) (Byte 0)"
      using prepare_push_grow [OF rep wf isz full small mem] by blast
    have "heap_wf h'" "oom h' = oom h" using h'(2) by (simp_all add: publishes_def)
    then show ?thesis
      using h' no_room
      by (intro that [of "next_block h" h' n "grown_cap cap" data']) (simp_all add: len es)
  qed
qed

lemma array_at_rep:
  "array_rep h slot isz b n cap data \<Longrightarrow> array_at h slot isz cap (elements (unat isz) (unat n) data)"
  by (auto simp: array_at_def)

text \<open>Filling the prepared element and publishing it.\<close>

lemma fill_and_commit:
  assumes rep: "array_rep h slot isz b n cap data" and room: "n < cap" and xs: "length xs = unat isz"
  obtains h2 h3 where "store_cells a h (Ptr b (8 + unat n * unat isz)) xs = Inr h2"
    and "array_at h2 slot isz cap (elements (unat isz) (unat n) data)"
    and "msm_array_commit_push h2 slot = Inr h3"
    and "array_at h3 slot isz cap (elements (unat isz) (unat n) data @ [xs])"
    and "heap_wf h \<Longrightarrow> heap_wf h3" and "oom h3 = oom h"
proof -
  let ?k = "unat n * unat isz" and ?h2 = "put a b (8 + unat n * unat isz) xs h"
  have k: "?k + length xs \<le> length data"
    using element_range [OF rep, of "unat n"] room xs by (simp add: word_less_nat_alt)
  have st: "store_cells a h (Ptr b (8 + ?k)) xs = Inr ?h2"
    using rep k by (elim array_repE) simp
  have r2: "array_rep ?h2 slot isz b n cap (patch data ?k xs)"
    using rep k by (rule array_rep_put_data)
  have el: "elements (unat isz) (unat n) (patch data ?k xs) = elements (unat isz) (unat n) data"
    using k by (intro elements_cong) (simp add: take_patch_before)
  note c = commit_push_rep [OF r2 room]
  have el3: "elements (unat isz) (unat (n + 1)) (patch data ?k xs) =
      elements (unat isz) (unat n) data @ [xs]"
    using k xs by (simp add: c(3) elements_Suc el)
  show ?thesis
  proof (rule that)
    show "store_cells a h (Ptr b (8 + ?k)) xs = Inr ?h2" by (rule st)
    show "msm_array_commit_push ?h2 slot =
        Inr (put (Atomic Release) b 0 (word_cells 4 (n + 1)) ?h2)" by (rule c(1))
  qed (use array_at_rep [OF r2] array_at_rep [OF c(2)] el el3 in simp_all)
qed

lemma push_protocol_runs:
  assumes arr: "array_at h slot isz cap es" and wf: "heap_wf h" and isz: "isz \<noteq> 0"
    and can: "can_push h isz cap (length es)" and xs: "length xs = unat isz"
  obtains p h1 h2 h3 cap' where "msm_array_prepare_push h slot isz = Inr (p, h1)"
    and "p \<noteq> Null" and "load_cells h1 p (unat isz) = Inr (replicate (unat isz) (Byte 0))"
    and "array_at h1 slot isz cap' es"
    and "store_cells Plain h1 p xs = Inr h2" and "array_at h2 slot isz cap' es"
    and "msm_array_commit_push h2 slot = Inr h3" and "array_at h3 slot isz cap' (es @ [xs])"
    and "heap_wf h3" and "oom h3 = oom h"
    and "cap' = (if length es < unat cap then cap else grown_cap cap)"
proof -
  obtain b n cap' data h1 where 1:
      "msm_array_prepare_push h slot isz = Inr (Ptr b (8 + length es * unat isz), h1)"
      "array_rep h1 slot isz b n cap' data" "n < cap'" "unat n = length es"
      "elements (unat isz) (unat n) data = es"
      "piece data (unat n * unat isz) (unat isz) = replicate (unat isz) (Byte 0)"
      "heap_wf h1" "oom h1 = oom h"
      "cap' = (if length es < unat cap then cap else grown_cap cap)"
    by (rule prepare_push_spec [OF arr wf isz can])
  have less: "unat n < unat cap'" using 1(3) by (simp add: word_less_nat_alt)
  have p: "msm_array_prepare_push h slot isz = Inr (Ptr b (8 + unat n * unat isz), h1)"
    using 1(1) unfolding 1(4) .
  have z: "load_cells h1 (Ptr b (8 + unat n * unat isz)) (unat isz) =
      Inr (replicate (unat isz) (Byte 0))"
    using load_element [OF 1(2) less] unfolding 1(6) .
  have at: "array_at h1 slot isz cap' es"
    using array_at_rep [OF 1(2)] unfolding 1(5) .
  show ?thesis
  proof (rule fill_and_commit [OF 1(2,3) xs, of Plain], unfold 1(5))
    fix h2 h3
    assume "store_cells Plain h1 (Ptr b (8 + unat n * unat isz)) xs = Inr h2"
      and "array_at h2 slot isz cap' es" and "msm_array_commit_push h2 slot = Inr h3"
      and "array_at h3 slot isz cap' (es @ [xs])" and "heap_wf h1 \<Longrightarrow> heap_wf h3" and "oom h3 = oom h1"
    then show ?thesis
      using p z at 1(7,8,9) by (intro that [OF p _ z at]) (assumption | simp)+
  qed
qed

lemma push_back_rep:
  assumes "array_at h slot isz cap es" and "heap_wf h" and isz: "isz \<noteq> 0"
    and "can_push h isz cap (length es)"
  obtains b n data h' cap' where "msm_array_push_back h slot isz = Inr (Ptr b (8 + unat n * unat isz), h')"
    and "array_rep h' slot isz b (n + 1) cap' data" and "unat n = length es"
    and "unat (n + 1) = Suc (unat n)" and "unat n < unat cap'"
    and "elements (unat isz) (unat n) data = es"
    and "piece data (unat n * unat isz) (unat isz) = replicate (unat isz) (Byte 0)"
    and "heap_wf h'" and "oom h' = oom h"
    and "cap' = (if length es < unat cap then cap else grown_cap cap)"
proof -
  obtain b n cap' data h1 where 1:
      "msm_array_prepare_push h slot isz = Inr (Ptr b (8 + length es * unat isz), h1)"
      "array_rep h1 slot isz b n cap' data" "n < cap'" "unat n = length es"
      "elements (unat isz) (unat n) data = es"
      "piece data (unat n * unat isz) (unat isz) = replicate (unat isz) (Byte 0)"
      "heap_wf h1" "oom h1 = oom h"
      "cap' = (if length es < unat cap then cap else grown_cap cap)"
    by (rule prepare_push_spec [OF assms])
  let ?h' = "put (Atomic Release) b 0 (word_cells 4 (n + 1)) h1"
  note c = commit_push_rep [OF 1(2,3)]
  have run: "msm_array_push_back h slot isz = Inr (Ptr b (8 + unat n * unat isz), ?h')"
    using c(1) 1(1) by (simp add: msm_array_push_back_def 1(4))
  have lt: "unat n < unat cap'" using 1(3) by (simp add: word_less_nat_alt)
  have "heap_wf ?h'" "oom ?h' = oom h" using 1(7,8) by simp_all
  with run c(2) 1(4) c(3) lt 1(5,6) show ?thesis by (rule that) (rule 1(9))
qed

lemma push_back_runs:
  assumes "array_at h slot isz cap es" and "heap_wf h" and isz: "isz \<noteq> 0"
    and "can_push h isz cap (length es)"
  obtains p h' cap' where "msm_array_push_back h slot isz = Inr (p, h')" and "p \<noteq> Null"
    and "array_at h' slot isz cap' (es @ [replicate (unat isz) (Byte 0)])"
    and "heap_wf h'" and "oom h' = oom h"
    and "cap' = (if length es < unat cap then cap else grown_cap cap)"
proof -
  obtain b n data h' cap' where
      1: "msm_array_push_back h slot isz = Inr (Ptr b (8 + unat n * unat isz), h')"
      "array_rep h' slot isz b (n + 1) cap' data" "unat n = length es"
      "unat (n + 1) = Suc (unat n)" "unat n < unat cap'"
      "elements (unat isz) (unat n) data = es"
      "piece data (unat n * unat isz) (unat isz) = replicate (unat isz) (Byte 0)"
      "heap_wf h'" "oom h' = oom h"
      "cap' = (if length es < unat cap then cap else grown_cap cap)"
    by (rule push_back_rep [OF assms])
  have "elements (unat isz) (unat (n + 1)) data = es @ [replicate (unat isz) (Byte 0)]"
    unfolding 1(4) elements_Suc 1(6,7) ..
  then have "array_at h' slot isz cap' (es @ [replicate (unat isz) (Byte 0)])"
    using array_at_rep [OF 1(2)] by simp
  with 1(1) show ?thesis by (rule that [OF _ ptr.distinct(2) _ 1(8-10)])
qed

text \<open>\<open>msm_array_reserve\<close> on every branch.\<close>

lemma reserve_spec:
  assumes arr: "array_at h slot isz cap es" and wf: "heap_wf h" and isz: "isz \<noteq> 0"
  shows "if new_cap \<le> cap then msm_array_reserve h slot new_cap isz = Inr h
    else if oom h (next_block h) (8 + unat new_cap * unat isz)
    then \<exists>h'. msm_array_reserve h slot new_cap isz = Inr h' \<and> blocks h' = blocks h
    else \<exists>h'. msm_array_reserve h slot new_cap isz = Inr h' \<and> array_at h' slot isz new_cap es \<and>
      publishes h h' slot (Ptr (next_block h) 0)"
proof -
  let ?N = "8 + unat new_cap * unat isz"
  consider "slot_holds h slot Null" "cap = 0" "es = []"
    | b n data where "array_rep h slot isz b n cap data" "es = elements (unat isz) (unat n) data"
    using arr by (auto simp: array_at_def)
  then show ?thesis
  proof cases
    case 1
    then have 2: "msm_array_reserve h slot 0 isz = Inr h"
      by (cases "slot = Null") (simp_all add: msm_array_reserve_def load_slot [OF 1(1)])
    have 3: "msm_array_reserve h slot new_cap isz = Inr (fail_block ?N h)"
      if "0 < new_cap" "oom h (next_block h) ?N"
    proof -
      have "\<not> new_cap \<le> 0" "slot \<noteq> Null" using that 1(1) by auto
      with that isz show ?thesis
        by (simp add: msm_array_reserve_def load_slot [OF 1(1)] malloc_def)
    qed
    have 4: "\<exists>h'. msm_array_reserve h slot new_cap isz = Inr h' \<and> array_at h' slot isz new_cap [] \<and>
        publishes h h' slot (Ptr (next_block h) 0)" if "0 < new_cap" "\<not> oom h (next_block h) ?N"
    proof (rule reserve_first [OF 1(1) wf isz that])
      fix h'
      assume a: "msm_array_reserve h slot new_cap isz = Inr h'"
        "publishes h h' slot (Ptr (next_block h) 0)"
        "array_rep h' slot isz (next_block h) 0 new_cap
          (replicate (unat new_cap * unat isz) (Byte 0))"
      then show ?thesis using array_at_rep [OF a(3)] by (simp add: elements_def)
    qed
    show ?thesis
    proof (cases "new_cap = 0")
      case True
      then show ?thesis using 2 by simp
    next
      case False
      then have "0 < new_cap" by (simp add: word_gt_0)
      then show ?thesis using False 1(2,3) 3 4 by (simp add: not_le)
    qed
  next
    case 2
    let ?k = "unat n * unat isz"
    have k: "?k \<le> length data" using 2(1) by (auto elim: array_repE)
    have 3: "\<exists>h'. msm_array_reserve h slot new_cap isz = Inr h' \<and> array_at h' slot isz new_cap es \<and>
        publishes h h' slot (Ptr (next_block h) 0)" if g: "cap < new_cap" "\<not> oom h (next_block h) ?N"
    proof (rule reserve_grow [OF 2(1) wf isz g])
      fix h'
      let ?d = "take ?k data @ replicate (unat new_cap * unat isz - ?k) (Byte 0)"
      assume a: "msm_array_reserve h slot new_cap isz = Inr h'"
        "publishes h h' slot (Ptr (next_block h) 0)"
        "array_rep h' slot isz (next_block h) n new_cap ?d"
      have "elements (unat isz) (unat n) ?d = es"
        unfolding 2(2) using k by (intro elements_cong) simp
      then show ?thesis using a array_at_rep [OF a(3)] by auto
    qed
    have 4: "\<exists>h'. msm_array_reserve h slot new_cap isz = Inr h' \<and> blocks h' = blocks h"
      if g: "cap < new_cap" "oom h (next_block h) ?N"
      using reserve_oom [OF 2(1) g(1) isz g(2)] by simp
    show ?thesis
      using reserve_enough [OF 2(1), of new_cap] 3 4 by (simp add: not_le)
  qed
qed

lemma reserve_contents:
  assumes "array_at h slot isz cap es" and "heap_wf h" and "isz \<noteq> 0"
    and "msm_array_reserve h slot new_cap isz = Inr h'"
  obtains cap' where "array_at h' slot isz cap' es"
proof -
  have "array_at h' slot isz cap es" if "blocks h' = blocks h"
    using assms(1) that slot_holds_cong [of h' slot h] by (simp add: array_at_def array_rep_def)
  then show ?thesis
    using reserve_spec [OF assms(1-3), of new_cap] assms(1,4) that by (auto split: if_splits)
qed

end
