(* ===== verification/Msm_Array_Props.thy ===== *)
theory Msm_Array_Props
  imports Msm_Array
begin

text \<open>
  The properties of the C array functions: what each returns and what it leaves in memory, on
  every branch, over the abstract contents \<open>array_at h slot isz cap es\<close> of a slot (capacity
  \<open>cap\<close>, elements \<open>es\<close> of \<open>isz\<close> bytes each).
\<close>

section \<open>Concrete heaps for the witnesses\<close>

text \<open>One zeroed slot; and a slot whose array has two elements of eight bytes and is full.\<close>

definition start_heap :: heap where
  "start_heap = \<lparr>blocks = [0 \<mapsto> replicate 16 (Byte 0)], next_block = 1, oom = (\<lambda>_ _. False), trace = []\<rparr>"

definition pair_heap :: "(nat \<Rightarrow> nat \<Rightarrow> bool) \<Rightarrow> heap" where
  "pair_heap fails =
     \<lparr>blocks = [0 \<mapsto> replicate 8 (Byte 0) @ ptr_cells (Ptr 1 0),
                1 \<mapsto> counted 2 2 (replicate 8 (Byte 1) @ replicate 8 (Byte 2))],
      next_block = 2, oom = fails, trace = []\<rparr>"

lemma start_heap_facts [simp]:
  "heap_wf start_heap" "slot_holds start_heap (Ptr 0 0) Null"
  "oom start_heap = (\<lambda>_ _. False)" "next_block start_heap = 1"
  by (simp_all add: start_heap_def heap_wf_def slot_holds_def ptr_cells.simps)

lemma start_heap_array: "array_at start_heap (Ptr 0 0) isz 0 []"
  by (simp add: array_at_def)

lemma pair_heap_facts [simp]:
  "heap_wf (pair_heap fails)" "oom (pair_heap fails) = fails" "next_block (pair_heap fails) = 2"
  by (simp_all add: pair_heap_def heap_wf_def)

lemma pair_heap_rep:
  "array_rep (pair_heap fails) (Ptr 0 0) 8 1 2 2 (replicate 8 (Byte 1) @ replicate 8 (Byte 2))"
  by (simp add: pair_heap_def array_rep_def slot_holds_def piece_append_right)

lemma pair_heap_array:
  "array_at (pair_heap fails) (Ptr 0 0) 8 2 [replicate 8 (Byte 1), replicate 8 (Byte 2)]"
proof -
  have "elements 8 2 (replicate 8 (Byte 1) @ replicate 8 (Byte 2)) =
      [replicate 8 (Byte 1), replicate 8 (Byte 2)]"
    by (simp add: elements_def upt_rec piece_append_left piece_append_right)
  then show ?thesis using array_at_rep [OF pair_heap_rep, of fails] by simp
qed

section \<open>Reading\<close>

lemma array_reads:
  assumes "array_at h slot isz cap es"
  shows "msm_array_size h slot = Inr (of_nat (length es))"
    and "msm_array_capacity h slot = Inr cap"
    and "isz \<noteq> 0 \<Longrightarrow> length es \<le> unat i \<Longrightarrow> msm_array_get h slot i isz = Inr Null"
    and "isz \<noteq> 0 \<Longrightarrow> unat i < length es \<Longrightarrow> \<exists>p. msm_array_get h slot i isz = Inr p \<and> p \<noteq> Null \<and>
      load_cells h p (unat isz) = Inr (es ! unat i)"
proof -
  consider "slot_holds h slot Null" "cap = 0" "es = []"
    | b n data where "array_rep h slot isz b n cap data" "es = elements (unat isz) (unat n) data"
    using assms by (auto simp: array_at_def)
  then have "msm_array_size h slot = Inr (of_nat (length es)) \<and>
    msm_array_capacity h slot = Inr cap \<and>
    (isz \<noteq> 0 \<and> length es \<le> unat i \<longrightarrow> msm_array_get h slot i isz = Inr Null) \<and>
    (isz \<noteq> 0 \<and> unat i < length es \<longrightarrow> (\<exists>p. msm_array_get h slot i isz = Inr p \<and> p \<noteq> Null \<and>
      load_cells h p (unat isz) = Inr (es ! unat i)))"
  proof cases
    case 1
    then show ?thesis by (simp add: empty_reads)
  next
    case 2
    have "unat i < unat cap" if "unat i < unat n"
      using that 2(1) by (auto elim!: array_repE)
    with 2 show ?thesis
      by (auto simp: size_rep capacity_rep get_rep nth_elements load_element word_le_nat_alt)
  qed
  then show "msm_array_size h slot = Inr (of_nat (length es))"
    and "msm_array_capacity h slot = Inr cap"
    and "isz \<noteq> 0 \<Longrightarrow> length es \<le> unat i \<Longrightarrow> msm_array_get h slot i isz = Inr Null"
    and "isz \<noteq> 0 \<Longrightarrow> unat i < length es \<Longrightarrow> \<exists>p. msm_array_get h slot i isz = Inr p \<and> p \<noteq> Null \<and>
      load_cells h p (unat isz) = Inr (es ! unat i)"
    by blast+
qed

text \<open>The array's readers agree with its contents: \<open>msm_array_size\<close> and
  \<open>msm_array_capacity\<close> return the number of elements and the capacity, \<open>msm_array_get\<close> returns
  null for an index that is out of range, and otherwise a pointer at which exactly the bytes of
  that element are found. No read faults.\<close>

lemma array_get_correct:
  assumes "array_at h slot isz cap es" and "isz \<noteq> 0"
  shows "msm_array_size h slot = Inr (of_nat (length es)) \<and> msm_array_capacity h slot = Inr cap \<and>
    (if unat i < length es
     then \<exists>p. msm_array_get h slot i isz = Inr p \<and> p \<noteq> Null \<and>
            load_cells h p (unat isz) = Inr (es ! unat i)
     else msm_array_get h slot i isz = Inr Null)"
  using array_reads [OF assms(1)] assms(2) by simp

section \<open>Reserving\<close>

text \<open>Claim C13. \<open>msm_array_reserve\<close> on every branch. A null slot or an item size of 0 is a no-op.
  With enough capacity nothing happens; when \<open>malloc\<close> fails the array is as before; otherwise the
  contents are the same, the capacity is the new one, and all that changed in the blocks of the old
  heap is the pointer in the slot. So the old buffer is not freed, as the source's policy G2 has it
  and against the description in \<^verbatim>\<open>msm_allocator.h\<close> (``frees old''), and every pointer
  into it stays valid.\<close>

theorem array_reserve_correct:
  assumes arr: "array_at h slot isz cap es" and wf: "heap_wf h" and isz: "isz \<noteq> 0"
  shows "msm_array_reserve h Null new_cap isz = Inr h \<and> msm_array_reserve h slot new_cap 0 = Inr h \<and>
   (if new_cap \<le> cap then msm_array_reserve h slot new_cap isz = Inr h
    else if oom h (next_block h) (8 + unat new_cap * unat isz)
    then \<exists>h'. msm_array_reserve h slot new_cap isz = Inr h' \<and> blocks h' = blocks h
    else \<exists>h'. msm_array_reserve h slot new_cap isz = Inr h' \<and> array_at h' slot isz new_cap es \<and>
      publishes h h' slot (Ptr (next_block h) 0))"
proof -
  have "msm_array_reserve h Null new_cap isz = Inr h" "msm_array_reserve h slot new_cap 0 = Inr h"
    by (simp_all add: msm_array_reserve_def)
  with reserve_spec [OF assms, of new_cap] show ?thesis by (intro conjI)
qed

theorem array_reserve_correct_witness:
  "\<exists>h'. msm_array_reserve start_heap (Ptr 0 0) 100 8 = Inr h' \<and> array_at h' (Ptr 0 0) 8 100 [] \<and>
     publishes start_heap h' (Ptr 0 0) (Ptr 1 0)"
  using array_reserve_correct [OF start_heap_array start_heap_facts(1), of 8 100] by auto

section \<open>Pushing\<close>

text \<open>Claim C7. The two-step push. \<open>msm_array_prepare_push\<close> returns a zeroed element that no reader
  sees: the contents are still the old ones, also after a growth and while the caller fills the
  element. \<open>msm_array_commit_push\<close> then makes exactly the filled element the new last one. The
  capacity is kept while there is room and doubled (first 8) when there is none.\<close>

theorem array_push_protocol:
  assumes "array_at h slot isz cap es" and "heap_wf h" and "isz \<noteq> 0"
    and "can_push h isz cap (length es)" and "length xs = unat isz"
  shows "\<exists>p h1 h2 h3 cap'. msm_array_prepare_push h slot isz = Inr (p, h1) \<and> p \<noteq> Null \<and>
    load_cells h1 p (unat isz) = Inr (replicate (unat isz) (Byte 0)) \<and>
    array_at h1 slot isz cap' es \<and>
    store_cells Plain h1 p xs = Inr h2 \<and> array_at h2 slot isz cap' es \<and>
    msm_array_commit_push h2 slot = Inr h3 \<and> array_at h3 slot isz cap' (es @ [xs]) \<and>
    cap' = (if length es < unat cap then cap else grown_cap cap)"
  by (rule push_protocol_runs [OF assms]) blast

theorem array_push_protocol_witness:
  "\<exists>p h1 h2 h3. msm_array_prepare_push (pair_heap (\<lambda>_ _. False)) (Ptr 0 0) 8 = Inr (p, h1) \<and>
     store_cells Plain h1 p (replicate 8 (Byte 3)) = Inr h2 \<and>
     msm_array_commit_push h2 (Ptr 0 0) = Inr h3 \<and>
     array_at h3 (Ptr 0 0) 8 4
       [replicate 8 (Byte 1), replicate 8 (Byte 2), replicate 8 (Byte 3)]"
  using array_push_protocol [OF pair_heap_array [of "\<lambda>_ _. False"] pair_heap_facts(1),
      of "replicate 8 (Byte 3)"]
  by (auto simp: can_push_def grown_cap_def)

text \<open>\<open>msm_array_push_back\<close> appends one zeroed element and returns a non-null pointer.\<close>

theorem array_push_back_correct:
  assumes "array_at h slot isz cap es" and "heap_wf h" and "isz \<noteq> 0"
    and "can_push h isz cap (length es)"
  shows "\<exists>p h' cap'. msm_array_push_back h slot isz = Inr (p, h') \<and> p \<noteq> Null \<and>
    array_at h' slot isz cap' (es @ [replicate (unat isz) (Byte 0)])"
  by (rule push_back_runs [OF assms]) blast

section \<open>Repeated pushes\<close>

text \<open>\<open>push_times n\<close> is a loop of \<open>n\<close> calls of \<open>msm_array_push_back\<close>.\<close>

fun push_times :: "nat \<Rightarrow> heap \<Rightarrow> ptr \<Rightarrow> u32 \<Rightarrow> heap res" where
  "push_times 0 h slot isz = Inr h"
| "push_times (Suc n) h slot isz =
     bindE (push_times n h slot isz) (\<lambda>h1.
       bindE (msm_array_push_back h1 slot isz) (\<lambda>(p, h2). Inr h2))"

definition fitting_cap :: "nat \<Rightarrow> nat \<Rightarrow> bool" where
  "fitting_cap n cap \<longleftrightarrow>
     (if n = 0 then cap = 0 else n \<le> cap \<and> (cap = 8 \<or> cap < 2 * n) \<and> (\<exists>j. cap = 8 * 2 ^ j))"

lemma fitting_cap_step:
  assumes "fitting_cap n cap"
  shows "fitting_cap (Suc n) (if n < cap then cap else if cap = 0 then 8 else 2 * cap)"
proof -
  have "\<exists>j. 2 * cap = 8 * 2 ^ j" if "\<exists>j. cap = 8 * 2 ^ j"
    using that by (metis mult.left_commute power_Suc)
  moreover have "\<exists>j. (8 :: nat) = 8 * 2 ^ j" by (rule exI [of _ 0]) simp
  ultimately show ?thesis using assms by (auto simp: fitting_cap_def split: if_splits)
qed

lemma push_times_runs:
  assumes "array_at h slot isz 0 []" and "heap_wf h" and "isz \<noteq> 0" and "\<And>c m. \<not> oom h c m"
  shows "n \<le> 2147483648 \<Longrightarrow> \<exists>h' cap. push_times n h slot isz = Inr h' \<and>
    array_at h' slot isz cap (replicate n (replicate (unat isz) (Byte 0))) \<and>
    fitting_cap n (unat cap) \<and> heap_wf h' \<and> oom h' = oom h"
proof (induction n)
  case 0
  then show ?case using assms(1,2) by (auto simp: fitting_cap_def)
next
  case (Suc n)
  then obtain h1 cap where 1: "push_times n h slot isz = Inr h1" "heap_wf h1" "oom h1 = oom h"
      "array_at h1 slot isz cap (replicate n (replicate (unat isz) (Byte 0)))"
      "fitting_cap n (unat cap)" by auto
  have small: "n < unat cap \<or> unat cap < 2147483648"
    using 1(5) Suc.prems by (auto simp: fitting_cap_def split: if_splits)
  then have can: "can_push h1 isz cap (length (replicate n (replicate (unat isz) (Byte 0))))"
    using assms(4) by (auto simp: can_push_def 1(3))
  show ?case
  proof (rule push_back_runs [OF 1(4,2) assms(3) can])
    fix p h' cap'
    let ?zs = "replicate n (replicate (unat isz) (Byte 0))"
    assume a: "msm_array_push_back h1 slot isz = Inr (p, h')"
      "array_at h' slot isz cap' (?zs @ [replicate (unat isz) (Byte 0)])"
      "heap_wf h'" "oom h' = oom h1" "cap' = (if length ?zs < unat cap then cap else grown_cap cap)"
    have "unat cap' = (if n < unat cap then unat cap else if unat cap = 0 then 8 else 2 * unat cap)"
      using a(5) small grown_cap_greater(2) [of cap] by (auto simp: unat_eq_zero)
    then have "fitting_cap (Suc n) (unat cap')"
      using fitting_cap_step [OF 1(5)] by simp
    then show ?thesis
      using a 1(1,3) by (auto simp: replicate_append_same [symmetric])
  qed
qed

text \<open>Claim C23. Pushing \<open>n\<close> times (up to \<open>2 ^ 31\<close>) into an empty array, with memory available,
  always succeeds; afterwards the array has \<open>n\<close> elements and its capacity is \<open>8 * 2 ^ j\<close> for
  some \<open>j\<close>, at least \<open>n\<close> and, once past the first 8, less than \<open>2 * n\<close>.\<close>

theorem array_pushes_capacity:
  assumes "array_at h slot isz 0 []" and "heap_wf h" and "isz \<noteq> 0" and "\<And>c m. \<not> oom h c m"
    and "0 < n" and "n \<le> 2147483648"
  shows "\<exists>h' cap. push_times n h slot isz = Inr h' \<and> msm_array_size h' slot = Inr (of_nat n) \<and>
    msm_array_capacity h' slot = Inr cap \<and> n \<le> unat cap \<and> (unat cap = 8 \<or> unat cap < 2 * n) \<and>
    (\<exists>j. unat cap = 8 * 2 ^ j)"
proof -
  obtain h' cap where 1: "push_times n h slot isz = Inr h'"
      "array_at h' slot isz cap (replicate n (replicate (unat isz) (Byte 0)))"
      "fitting_cap n (unat cap)"
    using push_times_runs [OF assms(1-4) assms(6)] by blast
  then show ?thesis
    using array_reads(1,2) [OF 1(2)] assms(5) by (simp add: fitting_cap_def)
qed

theorem array_pushes_capacity_witness:
  "\<exists>h' cap. push_times 100 start_heap (Ptr 0 0) 16 = Inr h' \<and>
     msm_array_size h' (Ptr 0 0) = Inr 100 \<and> msm_array_capacity h' (Ptr 0 0) = Inr cap \<and>
     100 \<le> unat cap \<and> unat cap < 200"
  using array_pushes_capacity [OF start_heap_array start_heap_facts(1), of 16 100] by auto

section \<open>When growing fails\<close>

lemma prepare_push_overflow:
  assumes rep: "array_rep h slot isz b cap cap data" and isz: "isz \<noteq> 0" and cap: "cap \<noteq> 0"
    and fails: "2147483648 \<le> unat cap \<or> oom h (next_block h) (8 + unat (cap * 2) * unat isz)"
  shows "msm_array_prepare_push h slot isz = Inl (Fault OutOfBounds)"
proof -
  have "cap * 2 \<le> cap" if "2147483648 \<le> unat cap"
  proof -
    have "unat (cap * 2) = unat cap * 2 mod 4294967296" by (simp add: unat_word_ariths)
    also have "\<dots> = unat cap * 2 - 4294967296"
      using that unat_u32_less [of cap] by (simp add: le_mod_geq)
    finally show ?thesis using unat_u32_less [of cap] by (simp add: word_le_nat_alt)
  qed
  then have "cap * 2 \<le> cap \<or> (cap < cap * 2 \<and> oom h (next_block h) (8 + unat (cap * 2) * unat isz))"
    using fails by auto
  then obtain h1 where h1: "msm_array_reserve h slot (cap * 2) isz = Inr h1"
      "blocks h1 = blocks h"
    using reserve_enough [OF rep] reserve_oom [OF rep _ isz] by force
  have slot: "slot_holds h slot (Ptr b 0)" and blk: "blocks h b = Some (counted cap cap data)"
    and len: "length data = unat cap * unat isz" and nn: "slot \<noteq> Null"
    using rep by (auto elim: array_repE)
  have slot1: "slot_holds h1 slot (Ptr b 0)"
    using slot slot_holds_cong [of h1 slot h] h1(2) by simp
  have "0 < unat isz" using isz by (simp add: unat_gt_0)
  then have "memset h1 (Ptr b (8 + unat cap * unat isz)) 0 (unat isz) = Inl (Fault OutOfBounds)"
    using blk len h1(2) by (simp add: memset_def load_cells.simps store_cells.simps)
  then show ?thesis
    using nn isz cap h1(1)
    by (simp add: msm_array_prepare_push_def arr_buf_defs load_slot [OF slot] load_slot [OF slot1]
        atomic_load_u32_size [OF blk] atomic_load_u32_cap [OF blk])
qed

text \<open>Claim C22. A full array whose growth fails, because \<open>malloc\<close> returns null or because doubling
  a capacity of \<open>2 ^ 31\<close> or more wraps around, makes \<open>msm_array_prepare_push\<close> (and with it
  \<open>msm_array_push_back\<close>) write the new element behind the end of the old buffer: after
  \<open>msm_array_reserve\<close> has given up, the reloaded buffer pointer is the old one and not null.\<close>

theorem array_failed_growth_overflows:
  assumes "array_at h slot isz cap es" and "length es = unat cap" and "cap \<noteq> 0" and "isz \<noteq> 0"
    and "2147483648 \<le> unat cap \<or> oom h (next_block h) (8 + unat (cap * 2) * unat isz)"
  shows "msm_array_prepare_push h slot isz = Inl (Fault OutOfBounds) \<and>
    msm_array_push_back h slot isz = Inl (Fault OutOfBounds)"
proof -
  obtain b n data where rep: "array_rep h slot isz b n cap data" and "unat n = length es"
    using assms(1,3) by (auto simp: array_at_def)
  with assms(2) have "n = cap" by (simp add: word_unat_eq_iff)
  with rep have "msm_array_prepare_push h slot isz = Inl (Fault OutOfBounds)"
    using prepare_push_overflow assms(3-5) by blast
  then show ?thesis by (simp add: msm_array_push_back_def)
qed

theorem array_failed_growth_overflows_witness:
  "msm_array_push_back (pair_heap (\<lambda>_ _. True)) (Ptr 0 0) 8 = Inl (Fault OutOfBounds)"
  using array_failed_growth_overflows [OF pair_heap_array, of "\<lambda>_ _. True"] by simp

section \<open>Clearing\<close>

text \<open>\<open>msm_array_clear\<close> empties the array and keeps its capacity; an array without a
  buffer and a null slot are left as they are.\<close>

lemma array_clear_correct:
  assumes "array_at h slot isz cap es"
  shows "\<exists>h'. msm_array_clear h slot = Inr h' \<and> array_at h' slot isz cap [] \<and>
    msm_array_clear h Null = Inr h"
proof -
  consider "slot_holds h slot Null" "cap = 0"
    | b n data where "array_rep h slot isz b n cap data"
    using assms by (auto simp: array_at_def)
  then show ?thesis
  proof cases
    case 1
    then have "msm_array_clear h slot = Inr h"
      by (cases "slot = Null") (simp_all add: msm_array_clear_def load_slot [OF 1(1)])
    with 1 show ?thesis by (auto simp: array_at_def msm_array_clear_def)
  next
    case 2
    show ?thesis
      using clear_rep(1) [OF 2] array_at_rep [OF clear_rep(2) [OF 2]]
      by (simp add: elements_def msm_array_clear_def)
  qed
qed

end
