(* ===== verification/Msm_String.thy ===== *)
theory Msm_String
  imports Msm_Heap
begin

text \<open>
  The string functions of the C interface (\<^verbatim>\<open>msm_allocator.cpp\<close>) and the wrapper
  \<^verbatim>\<open>msm::string\<close> (\<^verbatim>\<open>string.hpp\<close>). The slot holds a pointer to a counted buffer
  \<^verbatim>\<open>[len:4 | cap:4 | data, NUL-terminated]\<close>, or null for the empty string.

  A \<^verbatim>\<open>const char*\<close> argument is the caller's memory: \<open>None\<close> for a null pointer, else the
  bytes that may be read from it (without the terminator of a literal). The library copies from it
  before it publishes anything, so it is passed as a value.
\<close>

section \<open>Caller's character data\<close>

type_synonym cstr = "u8 list option"

definition c_strlen :: "u8 list \<Rightarrow> nat" where
  "c_strlen bs = length (takeWhile (\<lambda>c. c \<noteq> 0) bs)"

text \<open>Reading \<open>n\<close> bytes from the caller's array.\<close>

definition caller_bytes :: "u8 list \<Rightarrow> nat \<Rightarrow> u8 list res" where
  "caller_bytes bs n = (if n \<le> length bs then Inr (take n bs) else Inl (Fault OutOfBounds))"

text \<open>A \<^verbatim>\<open>const char*\<close> that the library returns: its literal \<^verbatim>\<open>""\<close> or a pointer into a
  buffer; and the C string a reader finds there.\<close>

datatype cstr_ref = EmptyLiteral | InHeap ptr

fun until_nul :: "cell list \<Rightarrow> u8 list res" where
  "until_nul [] = Inl (Fault OutOfBounds)"
| "until_nul (Byte c # cs) = (if c = 0 then Inr [] else bindE (until_nul cs) (\<lambda>s. Inr (c # s)))"
| "until_nul (_ # cs) = Inl (Fault BadValue)"

fun read_cstr :: "heap \<Rightarrow> cstr_ref \<Rightarrow> u8 list res" where
  "read_cstr h EmptyLiteral = Inr []"
| "read_cstr h (InHeap Null) = Inl (Fault NullDeref)"
| "read_cstr h (InHeap (Ptr b k)) =
     (case blocks h b of None \<Rightarrow> Inl (Fault Dangling) | Some cs \<Rightarrow> until_nul (drop k cs))"

section \<open>Buffer accessors\<close>

definition STR_BUF_HEADER :: u64 where
  "STR_BUF_HEADER = 8"

definition str_buf_len :: "heap \<Rightarrow> ptr \<Rightarrow> memory_order \<Rightarrow> u32 res" where
  "str_buf_len h buf order = atomic_load_u32 h buf order"

definition str_buf_cap :: "heap \<Rightarrow> ptr \<Rightarrow> u32 res" where
  "str_buf_cap h buf = atomic_load_u32 h (padd buf 4) Relaxed"

definition str_buf_data :: "ptr \<Rightarrow> ptr" where
  "str_buf_data buf = padd buf (unat STR_BUF_HEADER)"

definition str_buf_set_len :: "heap \<Rightarrow> ptr \<Rightarrow> u32 \<Rightarrow> memory_order \<Rightarrow> heap res" where
  "str_buf_set_len h buf v order = atomic_store_u32 h buf v order"

definition str_buf_set_cap :: "heap \<Rightarrow> ptr \<Rightarrow> u32 \<Rightarrow> heap res" where
  "str_buf_set_cap h buf v = atomic_store_u32 h (padd buf 4) v Relaxed"

section \<open>The operations\<close>

definition msm_string_set :: "heap \<Rightarrow> ptr \<Rightarrow> cstr \<Rightarrow> u32 \<Rightarrow> heap res" where
  "msm_string_set h slot str len =
     (if slot = Null then Inr h
      else let len = (if str = None then 0 else len)
      in if len = 0 then atomic_store_ptr h (padd slot 8) Null Release
      else let new_cap = len + 1;
               buf_size = unat (STR_BUF_HEADER + ucast new_cap);
               (new_buf, h1) = malloc h buf_size
      in if new_buf = Null then Inr h1
      else bindE (str_buf_set_len h1 new_buf len Relaxed) (\<lambda>h2.
           bindE (str_buf_set_cap h2 new_buf new_cap) (\<lambda>h3.
           bindE (caller_bytes (case str of None \<Rightarrow> [] | Some bs \<Rightarrow> bs) (unat len)) (\<lambda>bytes.
           bindE (store_cells Plain h3 (str_buf_data new_buf) (map Byte bytes)) (\<lambda>h4.
           bindE (store_cells Plain h4 (padd (str_buf_data new_buf) (unat len)) [Byte 0]) (\<lambda>h5.
           atomic_store_ptr h5 (padd slot 8) new_buf Release))))))"

definition msm_string_get :: "heap \<Rightarrow> ptr \<Rightarrow> cstr_ref res" where
  "msm_string_get h slot =
     (if slot = Null then Inr EmptyLiteral
      else bindE (atomic_load_ptr h (padd slot 8) Acquire) (\<lambda>buf.
        if buf = Null then Inr EmptyLiteral
        else bindE (str_buf_len h buf Acquire) (\<lambda>len.
          if len = 0 then Inr EmptyLiteral else Inr (InHeap (str_buf_data buf)))))"

definition msm_string_length :: "heap \<Rightarrow> ptr \<Rightarrow> u32 res" where
  "msm_string_length h slot =
     (if slot = Null then Inr 0
      else bindE (atomic_load_ptr h (padd slot 8) Acquire) (\<lambda>buf.
        if buf = Null then Inr 0 else str_buf_len h buf Acquire))"

definition msm_string_clear :: "heap \<Rightarrow> ptr \<Rightarrow> heap res" where
  "msm_string_clear h slot =
     (if slot = Null then Inr h else atomic_store_ptr h (padd slot 8) Null Release)"

section \<open>The C++ wrapper\<close>

definition string_deallocate :: "heap \<Rightarrow> ptr \<Rightarrow> heap res" where
  "string_deallocate h slot =
     (if slot = Null then Inr h
      else bindE (load_ptr h (padd slot 8)) (\<lambda>data.
        if data = Null then Inr h
        else bindE (free h data) (\<lambda>h1. store_ptr h1 (padd slot 8) Null)))"

definition string_assign :: "heap \<Rightarrow> ptr \<Rightarrow> cstr \<Rightarrow> heap res" where
  "string_assign h ptr str =
     (let len = (case str of None \<Rightarrow> 0 | Some bs \<Rightarrow> of_nat (c_strlen bs))
      in msm_string_set h ptr str len)"

definition string_c_str :: "heap \<Rightarrow> ptr \<Rightarrow> cstr_ref res" where
  "string_c_str h ptr = msm_string_get h ptr"

definition string_length :: "heap \<Rightarrow> ptr \<Rightarrow> u32 res" where
  "string_length h ptr = msm_string_length h ptr"

definition string_empty :: "heap \<Rightarrow> ptr \<Rightarrow> bool res" where
  "string_empty h ptr = bindE (msm_string_length h ptr) (\<lambda>n. Inr (n = 0))"

definition string_clear :: "heap \<Rightarrow> ptr \<Rightarrow> heap res" where
  "string_clear h ptr = msm_string_clear h ptr"

definition string_to_chars :: "heap \<Rightarrow> ptr \<Rightarrow> cstr_ref res" where
  "string_to_chars h ptr = msm_string_get h ptr"

section \<open>The representation of a string\<close>

definition string_rep :: "heap \<Rightarrow> ptr \<Rightarrow> nat \<Rightarrow> u8 list \<Rightarrow> bool" where
  "string_rep h slot b s \<longleftrightarrow>
     slot_holds h slot (Ptr b 0) \<and> b \<noteq> blk slot \<and> s \<noteq> [] \<and> length s < 4294967295 \<and>
     blocks h b = Some (counted (of_nat (length s)) (of_nat (length s + 1)) (map Byte s @ [Byte 0]))"

definition string_at :: "heap \<Rightarrow> ptr \<Rightarrow> u8 list \<Rightarrow> bool" where
  "string_at h slot s \<longleftrightarrow> slot_holds h slot Null \<and> s = [] \<or> (\<exists>b. string_rep h slot b s)"

lemma string_repE:
  assumes "string_rep h slot b s"
  obtains "slot_holds h slot (Ptr b 0)" and "b \<noteq> blk slot" and "s \<noteq> []" and "slot \<noteq> Null"
    and "length s < 4294967295" and "unat (of_nat (length s) :: u32) = length s"
    and "(of_nat (length s) :: u32) \<noteq> 0"
    and "blocks h b = Some (counted (of_nat (length s)) (of_nat (length s + 1)) (map Byte s @ [Byte 0]))"
proof -
  have un: "unat (of_nat (length s) :: u32) = length s"
    using assms by (simp add: string_rep_def unat_of_nat)
  then have "(of_nat (length s) :: u32) \<noteq> 0"
    using assms by (auto simp: string_rep_def simp flip: unat_eq_zero)
  moreover have "slot \<noteq> Null" using assms by (auto simp: string_rep_def)
  ultimately show ?thesis using assms un that by (simp add: string_rep_def)
qed

lemmas str_buf_defs = str_buf_len_def str_buf_cap_def str_buf_set_len_def str_buf_set_cap_def
  str_buf_data_def STR_BUF_HEADER_def

lemma until_nul_bytes:
  "until_nul (map Byte s @ Byte 0 # cs) = Inr (takeWhile (\<lambda>c. c \<noteq> 0) s)"
  by (induction s) auto

lemma string_reads:
  assumes "string_at h slot s"
  shows "msm_string_length h slot = Inr (of_nat (length s))"
    and "\<exists>r. msm_string_get h slot = Inr r \<and> read_cstr h r = Inr (takeWhile (\<lambda>c. c \<noteq> 0) s)"
proof -
  consider "slot_holds h slot Null" "s = []" | b where "string_rep h slot b s"
    using assms by (auto simp: string_at_def)
  then have "msm_string_length h slot = Inr (of_nat (length s)) \<and>
    (\<exists>r. msm_string_get h slot = Inr r \<and> read_cstr h r = Inr (takeWhile (\<lambda>c. c \<noteq> 0) s))"
  proof cases
    case 1
    then show ?thesis by (simp add: msm_string_length_def msm_string_get_def load_slot)
  next
    case 2
    then show ?thesis
      by (elim string_repE)
        (simp add: msm_string_length_def msm_string_get_def load_slot str_buf_defs
          atomic_load_u32_size counted_def until_nul_bytes)
  qed
  then show "msm_string_length h slot = Inr (of_nat (length s))"
    and "\<exists>r. msm_string_get h slot = Inr r \<and> read_cstr h r = Inr (takeWhile (\<lambda>c. c \<noteq> 0) s)"
    by blast+
qed

lemma string_set_empty:
  assumes "slot_holds h slot q" and "str = None \<or> len = 0"
  shows "msm_string_set h slot str len =
      Inr (put (Atomic Release) (blk slot) (off slot + 8) (ptr_cells Null) h)"
proof -
  have "slot \<noteq> Null" using assms(1) by auto
  then show ?thesis
    using assms(2) store_slot [OF assms(1)] by (auto simp: msm_string_set_def Let_def)
qed

lemma string_set_oom:
  assumes "slot \<noteq> Null" and "len \<noteq> 0" and "len \<noteq> - 1"
    and "oom h (next_block h) (8 + (unat len + 1))"
  shows "msm_string_set h slot (Some bs) len = Inr (fail_block (8 + (unat len + 1)) h)"
proof -
  have "unat (len + 1) = unat len + 1"
    using assms(3) by (metis Suc_eq_plus1 add_eq_0_iff add.commute unatSuc)
  moreover from this have "unat (8 + ucast (len + 1) :: u64) = 8 + (unat len + 1)"
    by (simp only: unat_size_u32_add)
  ultimately show ?thesis
    using assms by (simp add: msm_string_set_def STR_BUF_HEADER_def malloc_def)
qed

text \<open>The buffer of a set: header, bytes and terminator, written in a block that is not yet
  reachable.\<close>

lemma string_set_runs:
  assumes slot: "slot_holds h slot q" and wf: "heap_wf h"
    and len: "0 < n" "n < 4294967295" "n \<le> length bs"
    and mem: "\<not> oom h (next_block h) (8 + (n + 1))"
  obtains h' where "msm_string_set h slot (Some bs) (of_nat n) = Inr h'"
    and "publishes h h' slot (Ptr (next_block h) 0)"
    and "string_rep h' slot (next_block h) (take n bs)"
proof -
  let ?nb = "next_block h" and ?len = "of_nat n :: u32" and ?s = "take n bs"
  have un: "unat ?len = n" using len by (simp add: unat_of_nat)
  have "unat (?len + 1) = (unat ?len + 1) mod 4294967296" by (simp add: unat_word_ariths)
  then have un1: "unat (?len + 1) = n + 1" unfolding un using len by simp
  have unsz: "unat (8 + ucast (?len + 1) :: u64) = 8 + (n + 1)"
    unfolding unat_size_u32_add un1 ..
  have nz: "?len \<noteq> 0" using un len by (auto simp flip: unat_eq_zero)
  have nn: "slot \<noteq> Null" using slot by auto
  have ls: "length ?s = n" using len by simp
  let ?N = "8 + (n + 1)"
  obtain h2 where 2: "atomic_store_u32 (new_block ?N h) (Ptr ?nb 0) ?len Relaxed = Inr h2"
      "builds h h2 ?nb (patch (replicate ?N Undef) 0 (word_cells 4 ?len))"
    using builds_store_u32 [OF builds_new [of h ?N], of 0 ?len Relaxed] by auto
  obtain h3 where 3: "atomic_store_u32 h2 (Ptr ?nb 4) (?len + 1) Relaxed = Inr h3"
      "builds h h3 ?nb (counted ?len (?len + 1) (replicate (n + 1) Undef))"
    using builds_store_u32 [OF 2(2), of 4 "?len + 1" Relaxed] len
    by (auto simp: counted_of_replicate [of "n + 1", simplified])
  let ?h4 = "put Plain ?nb 8 (map Byte ?s) h3"
  have 4: "store_cells Plain h3 (Ptr ?nb 8) (map Byte ?s) = Inr ?h4"
    using builds_block [OF 3(2)] ls by simp
  have b4: "builds h ?h4 ?nb (counted ?len (?len + 1) (map Byte ?s @ [Undef]))"
  proof -
    have "patch (replicate (n + 1) Undef) 0 (map Byte ?s) = map Byte ?s @ [Undef]"
      using patch_replicate_head [of "map Byte ?s" "n + 1" Undef] ls by simp
    then show ?thesis
      using builds_put [OF 3(2), of Plain 8 "map Byte ?s"] by (simp only: patch_counted_data_0)
  qed
  let ?h5 = "put Plain ?nb (8 + n) [Byte 0] ?h4"
  have 5: "store_cells Plain ?h4 (Ptr ?nb (8 + n)) [Byte 0] = Inr ?h5"
    using builds_block [OF b4] ls by simp
  have b5: "builds h ?h5 ?nb (counted ?len (?len + 1) (map Byte ?s @ [Byte 0]))"
  proof -
    have "patch (map Byte ?s @ [Undef]) n [Byte 0] = map Byte ?s @ [Byte 0]"
      using ls by (simp add: patch_append_right)
    then show ?thesis
      using builds_put [OF b4, of Plain "8 + n" "[Byte 0]"] by (simp only: patch_counted_data)
  qed
  obtain h6 where 6: "atomic_store_ptr ?h5 (padd slot 8) (Ptr ?nb 0) Release = Inr h6"
      "publishes h h6 slot (Ptr ?nb 0)"
      "blocks h6 ?nb = Some (counted ?len (?len + 1) (map Byte ?s @ [Byte 0]))"
    using builds_publish [OF b5 wf slot] by blast
  have "msm_string_set h slot (Some bs) ?len = Inr h6"
    using nn nz mem 2(1) 3(1) 4 5 6(1) un len
    by (simp add: msm_string_set_def STR_BUF_HEADER_def unsz malloc_def str_buf_set_len_def
        str_buf_set_cap_def str_buf_data_def caller_bytes_def)
  moreover have "string_rep h6 slot ?nb ?s"
    using publishes_slot [OF 6(2) slot] 6(3) slot_holds_fresh [OF wf slot] len ls
    by (auto simp: string_rep_def add.commute)
  ultimately show ?thesis using 6(2) that by blast
qed

end
