(* ===== verification/Msm_String_Props.thy ===== *)
theory Msm_String_Props
  imports Msm_String Msm_Array_Props
begin

text \<open>
  The properties of the string functions and of \<^verbatim>\<open>msm::string\<close>, over the abstract contents
  \<open>string_at h slot s\<close> of a slot.
\<close>

section \<open>Setting and reading\<close>

lemma start_heap_string: "string_at start_heap (Ptr 0 0) []"
  by (simp add: string_at_def)

lemma string_at_slot: "string_at h slot s \<Longrightarrow> \<exists>q. slot_holds h slot q"
  by (auto simp: string_at_def string_rep_def)

lemma string_set_cases:
  assumes slot: "slot_holds h slot q" and wf: "heap_wf h"
    and len: "len \<noteq> - 1" "unat len \<le> length bs"
  shows "\<exists>h'. msm_string_set h slot (Some bs) len = Inr h' \<and>
    (if len = 0 then string_at h' slot [] \<and> publishes h h' slot Null
     else if oom h (next_block h) (8 + (unat len + 1)) then blocks h' = blocks h
     else string_at h' slot (take (unat len) bs) \<and> publishes h h' slot (Ptr (next_block h) 0))"
proof (cases "len = 0 \<or> oom h (next_block h) (8 + (unat len + 1))")
  case True
  show ?thesis
  proof (cases "len = 0")
    case True
    then show ?thesis
      using string_set_empty [OF slot, of "Some bs" len] slot_holds_publish [OF slot]
        publishes_store [OF wf] by (simp add: string_at_def)
  next
    case False
    with True have "oom h (next_block h) (8 + (unat len + 1))" by simp
    moreover have "slot \<noteq> Null" using slot by auto
    ultimately show ?thesis
      using False string_set_oom [of slot len h bs] len(1) by simp
  qed
next
  case False
  have "unat len \<noteq> unat (- 1 :: u32)" using len(1) by (simp add: word_unat_eq_iff)
  then have "unat len < 4294967295"
    using unat_u32_less [of len] by (simp add: unat_minus_1_u32)
  moreover have "0 < unat len" using False by (simp add: unat_gt_0)
  ultimately obtain h' where "msm_string_set h slot (Some bs) (of_nat (unat len)) = Inr h'"
      "publishes h h' slot (Ptr (next_block h) 0)" "string_rep h' slot (next_block h) (take (unat len) bs)"
    using string_set_runs [OF slot wf _ _ len(2)] False by blast
  with False show ?thesis by (auto simp: string_at_def)
qed

text \<open>With \<open>len = 2 ^ 32 - 1\<close> the capacity \<open>len + 1\<close> wraps around to 0 and the buffer gets
  8 bytes, which the copy of the bytes leaves.\<close>

lemma string_set_wraps:
  assumes "slot_holds h slot q" and "heap_wf h" and "4294967295 \<le> length bs"
    and "\<not> oom h (next_block h) 8"
  shows "msm_string_set h slot (Some bs) (- 1) = Inl (Fault OutOfBounds)"
proof -
  let ?nb = "next_block h"
  have nn: "slot \<noteq> Null" using assms(1) by auto
  obtain h2 where 2: "atomic_store_u32 (new_block 8 h) (Ptr ?nb 0) (- 1) Relaxed = Inr h2"
      "builds h h2 ?nb (patch (replicate 8 Undef) 0 (word_cells 4 (- 1 :: u32)))"
    using builds_store_u32 [OF builds_new [of h 8], of 0 "- 1" Relaxed] by auto
  obtain h3 where 3: "atomic_store_u32 h2 (Ptr ?nb 4) 0 Relaxed = Inr h3"
      "builds h h3 ?nb (counted (- 1) 0 [])"
    using builds_store_u32 [OF 2(2), of 4 0 Relaxed]
    by (auto simp: counted_of_replicate [of 0, simplified])
  have "store_cells Plain h3 (Ptr ?nb 8) (map Byte (take 4294967295 bs)) = Inl (Fault OutOfBounds)"
    using builds_block [OF 3(2)] assms(3) by (simp add: store_cells.simps)
  then show ?thesis
    using nn 2(1) 3(1) assms(3,4)
    by (simp add: msm_string_set_def STR_BUF_HEADER_def malloc_def str_buf_set_len_def
        str_buf_set_cap_def str_buf_data_def caller_bytes_def Let_def unat_minus_1_u32)
qed

lemma string_set_wraps_oom:
  assumes "slot_holds h slot q" and "oom h (next_block h) 8"
  shows "msm_string_set h slot (Some bs) (- 1) = Inr (fail_block 8 h)"
proof -
  have "slot \<noteq> Null" using assms(1) by auto
  then show ?thesis using assms(2) by (simp add: msm_string_set_def STR_BUF_HEADER_def malloc_def)
qed

text \<open>Claim C14. \<open>msm_string_set\<close> on every branch, for a caller that passes a null pointer or at
  least \<open>len\<close> readable bytes. A null slot is a no-op. A null string, whatever its length, or length 0
  empties the string. A failed \<open>malloc\<close> leaves the string as it was. The length
  \<open>2 ^ 32 - 1\<close> overruns the buffer, and every other length makes the string exactly the given
  bytes, where all that changed in the blocks of the old heap is the pointer in the slot.\<close>

theorem string_set_correct:
  assumes "string_at h slot s" and "heap_wf h"
    and "case str of None \<Rightarrow> True | Some bs \<Rightarrow> unat len \<le> length bs"
  shows "msm_string_set h Null str len = Inr h \<and>
    (case str of None \<Rightarrow>
       \<exists>h'. msm_string_set h slot None len = Inr h' \<and> string_at h' slot [] \<and> publishes h h' slot Null
     | Some bs \<Rightarrow>
       if len = - 1 \<and> \<not> oom h (next_block h) 8
       then msm_string_set h slot (Some bs) len = Inl (Fault OutOfBounds)
       else \<exists>h'. msm_string_set h slot (Some bs) len = Inr h' \<and>
         (if len = 0 then string_at h' slot [] \<and> publishes h h' slot Null
          else if len = - 1 \<or> oom h (next_block h) (8 + (unat len + 1)) then blocks h' = blocks h
          else string_at h' slot (take (unat len) bs) \<and> publishes h h' slot (Ptr (next_block h) 0)))"
proof -
  obtain q where slot: "slot_holds h slot q" using string_at_slot [OF assms(1)] by blast
  have null: "msm_string_set h Null str len = Inr h" by (simp add: msm_string_set_def)
  show ?thesis
  proof (cases str)
    case None
    then show ?thesis
      using null string_set_empty [OF slot, of None len] slot_holds_publish [OF slot]
        publishes_store [OF assms(2)] by (simp add: string_at_def)
  next
    case (Some bs)
    then have le: "unat len \<le> length bs" using assms(3) by simp
    show ?thesis
    proof (cases "len = - 1")
      case True
      then have "4294967295 \<le> length bs" using le by (simp add: unat_minus_1_u32)
      then show ?thesis
        using null Some True string_set_wraps [OF slot assms(2), of bs]
          string_set_wraps_oom [OF slot, of bs] by simp
    next
      case False
      then show ?thesis
        unfolding Some option.case using null Some string_set_cases [OF slot assms(2) False le]
        by (simp only: simp_thms if_False)
    qed
  qed
qed

theorem string_set_correct_witness:
  "(\<exists>h'. msm_string_set start_heap (Ptr 0 0) (Some [104, 105]) 2 = Inr h' \<and>
     string_at h' (Ptr 0 0) [104, 105]) \<and>
   (\<exists>h'. msm_string_set start_heap (Ptr 0 0) None 7 = Inr h' \<and> string_at h' (Ptr 0 0) [])"
  using string_set_correct [OF start_heap_string start_heap_facts(1), where str = "Some [104, 105]" and len = 2]
    string_set_correct [OF start_heap_string start_heap_facts(1), where str = None and len = 7]
  by (auto split: if_splits)

text \<open>What \<open>msm_string_length\<close> and \<open>msm_string_get\<close> return for a string \<open>s\<close>: its
  length, and a C string that reads as \<open>s\<close> up to its first NUL.\<close>

theorem string_get_correct:
  assumes "string_at h slot s"
  shows "msm_string_length h slot = Inr (of_nat (length s)) \<and>
    (\<exists>r. msm_string_get h slot = Inr r \<and> read_cstr h r = Inr (takeWhile (\<lambda>c. c \<noteq> 0) s))"
  using string_reads [OF assms] by simp

definition greeting_heap :: heap where
  "greeting_heap =
     \<lparr>blocks = [0 \<mapsto> replicate 8 (Byte 0) @ ptr_cells (Ptr 1 0),
                1 \<mapsto> counted 2 3 (map Byte [104, 105] @ [Byte 0])],
      next_block = 2, oom = (\<lambda>_ _. False), trace = []\<rparr>"

lemma greeting_heap_rep: "string_rep greeting_heap (Ptr 0 0) 1 [104, 105]"
  by (simp add: string_rep_def greeting_heap_def slot_holds_def piece_append_right)

lemma greeting_heap_string: "string_at greeting_heap (Ptr 0 0) [104, 105]"
  using greeting_heap_rep by (auto simp: string_at_def)

lemma greeting_heap_wf: "heap_wf greeting_heap"
  by (simp add: greeting_heap_def heap_wf_def)

text \<open>Claim C30. Round trip through \<open>msm::string\<close>: after an assignment of a C string, \<open>length\<close> is
  its \<open>strlen\<close> and \<open>c_str\<close> reads back the same characters.\<close>

theorem string_assign_roundtrip:
  assumes "string_at h slot s" and "heap_wf h" and "c_strlen bs < 4294967295"
    and "\<not> oom h (next_block h) (8 + (c_strlen bs + 1))"
  shows "\<exists>h' r. string_assign h slot (Some bs) = Inr h' \<and>
    string_length h' slot = Inr (of_nat (c_strlen bs)) \<and> string_c_str h' slot = Inr r \<and>
    read_cstr h' r = Inr (takeWhile (\<lambda>c. c \<noteq> 0) bs)"
proof -
  let ?n = "of_nat (c_strlen bs) :: u32"
  have un: "unat ?n = c_strlen bs" using assms(3) by (simp add: unat_of_nat)
  have minus1: "unat (- 1 :: u32) = 4294967295" by (simp add: unat_minus_1_u32)
  have le: "c_strlen bs \<le> length bs" by (simp add: c_strlen_def length_takeWhile_le)
  have "?n \<noteq> - 1" using assms(3) un minus1 by (metis less_irrefl)
  then obtain h' where "msm_string_set h slot (Some bs) ?n = Inr h'"
      "string_at h' slot (take (unat ?n) bs)"
    using string_set_cases [of h slot _ ?n bs] string_at_slot [OF assms(1)] assms(2,4) un le
    by (metis take0 unat_0)
  moreover have tk: "take (unat ?n) bs = takeWhile (\<lambda>c. c \<noteq> 0) bs"
    unfolding un by (simp only: c_strlen_def takeWhile_eq_take [symmetric])
  ultimately show ?thesis
    using string_reads [of h' slot "take (unat ?n) bs"]
    by (auto simp: string_assign_def string_length_def string_c_str_def tk c_strlen_def)
qed

theorem string_assign_roundtrip_witness:
  "\<exists>h' r. string_assign greeting_heap (Ptr 0 0) (Some [98, 121, 101]) = Inr h' \<and>
     string_length h' (Ptr 0 0) = Inr 3 \<and> string_c_str h' (Ptr 0 0) = Inr r \<and>
     read_cstr h' r = Inr [98, 121, 101]"
  using string_assign_roundtrip [OF greeting_heap_string greeting_heap_wf, of "[98, 121, 101]"]
  by (simp add: c_strlen_def greeting_heap_def)

section \<open>Readers that hold an old pointer\<close>

text \<open>A pointer that \<open>msm_string_get\<close> returned stays readable: after a later
  \<open>msm_string_set\<close> of the same slot, whatever its bytes, it still reads as the old string
  (the old buffer is kept).\<close>

lemma string_get_survives_set:
  assumes "string_at h slot s" and "heap_wf h" and "len \<noteq> - 1" and "unat len \<le> length bs"
    and "msm_string_get h slot = Inr r" and "msm_string_set h slot (Some bs) len = Inr h'"
  shows "read_cstr h' r = Inr (takeWhile (\<lambda>c. c \<noteq> 0) s)"
proof -
  have "blocks h' = blocks h \<or> (\<exists>q. publishes h h' slot q)"
    using string_set_cases [of h slot _ len bs] string_at_slot [OF assms(1)] assms(2-4,6)
    by (fastforce split: if_splits)
  moreover have "read_cstr h r = Inr (takeWhile (\<lambda>c. c \<noteq> 0) s)"
    using string_reads(2) [OF assms(1)] assms(5) by simp
  moreover have "r = EmptyLiteral \<or> (\<exists>b. r = InHeap (Ptr b 8) \<and> string_rep h slot b s)"
    using assms(1) unfolding string_at_def
  proof (elim disjE conjE exE)
    assume "slot_holds h slot Null"
    then have "msm_string_get h slot = Inr EmptyLiteral"
      by (simp add: msm_string_get_def load_slot)
    then show ?thesis using assms(5) by simp
  next
    fix b
    assume rep: "string_rep h slot b s"
    then have "msm_string_get h slot = Inr (InHeap (Ptr b 8))"
      by (elim string_repE)
        (simp add: msm_string_get_def load_slot str_buf_defs atomic_load_u32_size)
    then show ?thesis using rep assms(5) by auto
  qed
  ultimately show ?thesis
    using assms(2) by (auto elim!: string_repE dest: publishes_block)
qed

section \<open>The longest length\<close>



section \<open>Deallocation\<close>

lemma string_deallocate_rep:
  assumes "string_rep h slot b s"
  shows "string_deallocate h slot =
    Inr (put Plain (blk slot) (off slot + 8) (ptr_cells Null) (drop_block b h))"
proof -
  have slot: "slot_holds h slot (Ptr b 0)" and nn: "slot \<noteq> Null" and "b \<noteq> blk slot"
      "blocks h b \<noteq> None"
    using assms by (auto elim!: string_repE)
  moreover from this have "slot_holds (drop_block b h) slot (Ptr b 0)"
    by (subst slot_holds_cong [of _ _ h]) auto
  ultimately show ?thesis
    by (simp add: string_deallocate_def load_slot_plain [OF slot] store_slot_plain)
qed

text \<open>\<open>msm::string::deallocate\<close> frees the buffer of a string, and nothing else, and clears
  the slot's pointer, so a second call does nothing (no double free).\<close>

lemma string_deallocate_correct:
  assumes "string_at h slot s"
  shows "\<exists>h'. string_deallocate h slot = Inr h' \<and> string_at h' slot [] \<and>
    string_deallocate h' slot = Inr h' \<and>
    (\<forall>q. slot_holds h slot q \<and> q \<noteq> Null \<longrightarrow> blocks h' (blk q) = None) \<and>
    (\<forall>c. c \<noteq> blk slot \<and> \<not> slot_holds h slot (Ptr c 0) \<longrightarrow> blocks h' c = blocks h c)"
proof -
  have again: "string_deallocate g slot = Inr g" if "slot_holds g slot Null" for g
    using that by (cases "slot = Null") (simp_all add: string_deallocate_def load_slot_plain)
  consider "slot_holds h slot Null" "s = []" | b where "string_rep h slot b s"
    using assms by (auto simp: string_at_def)
  then show ?thesis
  proof cases
    case 1
    then show ?thesis using again assms by (auto dest: slot_holds_unique)
  next
    case 2
    let ?h' = "put Plain (blk slot) (off slot + 8) (ptr_cells Null) (drop_block b h)"
    have slot: "slot_holds h slot (Ptr b 0)" and ne: "b \<noteq> blk slot"
      using 2 by (auto elim: string_repE)
    then have "slot_holds (drop_block b h) slot (Ptr b 0)"
      by (subst slot_holds_cong [of _ _ h]) auto
    then have null: "slot_holds ?h' slot Null" by (rule slot_holds_publish)
    have "string_deallocate h slot = Inr ?h'" by (rule string_deallocate_rep [OF 2])
    moreover have "string_at ?h' slot []" using null by (simp add: string_at_def)
    moreover have "blk q = b" if "slot_holds h slot q" for q
      using slot_holds_unique [OF slot that] by auto
    moreover have "blocks ?h' b = None" using ne by simp
    moreover have "blocks ?h' c = blocks h c" if "c \<noteq> blk slot" "\<not> slot_holds h slot (Ptr c 0)" for c
      using that slot by (cases "c = b") auto
    ultimately show ?thesis using again [OF null] by blast
  qed
qed

end
