(* ===== verification/Msm_Scalars.thy ===== *)
theory Msm_Scalars
  imports Msm_Heap
begin

text \<open>
  The scalar type wrappers of \<^verbatim>\<open>types.hpp\<close> and the two scalar functions of \<^verbatim>\<open>capi.cpp\<close>.
  A wrapper is a view, a pointer to its slot: a primitive slot has 8 bytes with the value in bytes
  4 to 7, a scalar slot 16 bytes with the value in bytes 8 to 15. Values are kept as the bit
  patterns the code copies: a \<^verbatim>\<open>float\<close> is its 32 bits, a \<^verbatim>\<open>double\<close> its 64 bits.
\<close>

section \<open>The wrappers\<close>

definition boolean_assign :: "heap \<Rightarrow> ptr \<Rightarrow> bool \<Rightarrow> heap res" where
  "boolean_assign h ptr v = (let val = (if v then 1 else 0) in store_u32 h (padd ptr 4) val)"

definition boolean_read :: "heap \<Rightarrow> ptr \<Rightarrow> bool res" where
  "boolean_read h ptr = bindE (load_u32 h (padd ptr 4)) (\<lambda>val. Inr (val \<noteq> 0))"

definition int32_assign :: "heap \<Rightarrow> ptr \<Rightarrow> u32 \<Rightarrow> heap res" where
  "int32_assign h ptr v = store_u32 h (padd ptr 4) v"

definition int32_read :: "heap \<Rightarrow> ptr \<Rightarrow> u32 res" where
  "int32_read h ptr = load_u32 h (padd ptr 4)"

definition float32_assign :: "heap \<Rightarrow> ptr \<Rightarrow> u32 \<Rightarrow> heap res" where
  "float32_assign h ptr v = store_u32 h (padd ptr 4) v"

definition float32_read :: "heap \<Rightarrow> ptr \<Rightarrow> u32 res" where
  "float32_read h ptr = load_u32 h (padd ptr 4)"

definition int64_assign :: "heap \<Rightarrow> ptr \<Rightarrow> u64 \<Rightarrow> heap res" where
  "int64_assign h ptr v = store_u64 h (padd ptr 8) v"

definition int64_read :: "heap \<Rightarrow> ptr \<Rightarrow> u64 res" where
  "int64_read h ptr = load_u64 h (padd ptr 8)"

definition float64_assign :: "heap \<Rightarrow> ptr \<Rightarrow> u64 \<Rightarrow> heap res" where
  "float64_assign h ptr v = store_u64 h (padd ptr 8) v"

definition float64_read :: "heap \<Rightarrow> ptr \<Rightarrow> u64 res" where
  "float64_read h ptr = load_u64 h (padd ptr 8)"

section \<open>The scalar functions of the C interface\<close>

definition msm_write_int32 :: "heap \<Rightarrow> ptr \<Rightarrow> u32 \<Rightarrow> heap res" where
  "msm_write_int32 h slot_ptr value =
     (if slot_ptr = Null then Inr h else store_u32 h (padd slot_ptr 4) value)"

definition msm_read_int32 :: "heap \<Rightarrow> ptr \<Rightarrow> u32 res" where
  "msm_read_int32 h slot_ptr =
     (if slot_ptr = Null then Inr 0 else load_u32 h (padd slot_ptr 4))"

section \<open>The contract of a scalar slot\<close>

text \<open>
  What records, arrays and the C interface rely on: an assignment inside a live slot succeeds, is
  what the next read returns, and changes nothing outside the slot; a read looks only at the slot.
\<close>

locale scalar_slot =
  fixes assign :: "heap \<Rightarrow> ptr \<Rightarrow> 'v \<Rightarrow> heap res" and read :: "heap \<Rightarrow> ptr \<Rightarrow> 'v res"
    and sz :: nat
  assumes assign_live:
      "blocks h b = Some cs \<Longrightarrow> k + sz \<le> length cs \<Longrightarrow> \<exists>h'. assign h (Ptr b k) v = Inr h'"
    and assign_put: "assign h p v = Inr h' \<Longrightarrow>
      \<exists>a xs j cs. p \<noteq> Null \<and> blocks h (blk p) = Some cs \<and> off p \<le> j \<and>
        j + length xs \<le> off p + sz \<and> j + length xs \<le> length cs \<and> h' = put a (blk p) j xs h"
    and read_assign: "assign h p v = Inr h' \<Longrightarrow> read h' p = Inr v"
    and read_local: "load_cells h p sz = Inr xs \<Longrightarrow> load_cells h' p sz = Inr xs \<Longrightarrow>
      read h' p = read h p"
begin

lemma assign_frame:
  assumes "assign h p v = Inr h'"
    and "blk q \<noteq> blk p \<or> off q + n \<le> off p \<or> off p + sz \<le> off q"
  shows "load_cells h' q n = load_cells h q n"
proof -
  obtain a xs j cs where *: "p \<noteq> Null" "blocks h (blk p) = Some cs" "off p \<le> j"
      "j + length xs \<le> off p + sz" "j + length xs \<le> length cs" "h' = put a (blk p) j xs h"
    using assign_put [OF assms(1)] by blast
  show ?thesis
    using assms(2) *(3,4) unfolding *(6) by (intro load_put_disjoint [OF *(2,5)]) auto
qed

lemma assign_independent:
  assumes "assign h p v = Inr h'" and "load_cells h q sz = Inr xs"
    and "blk q \<noteq> blk p \<or> off q + sz \<le> off p \<or> off p + sz \<le> off q"
  shows "read h' q = read h q"
  using assms assign_frame [OF assms(1,3)] by (intro read_local) simp_all

lemma assign_again:
  assumes "assign h p v = Inr h1" and "assign h1 p w = Inr h2"
  shows "read h2 p = Inr w"
  using assms(2) by (rule read_assign)

lemma assign_keeps_wf: "assign h p v = Inr h' \<Longrightarrow> heap_wf h \<Longrightarrow> heap_wf h'"
  by (auto dest!: assign_put)

end

text \<open>Each wrapper is one typed access at a fixed offset in its slot.\<close>

context cell_codec begin

lemma scalar_slot_at:
  assumes "d + width \<le> sz"
  shows "scalar_slot (\<lambda>h p v. store_cells Plain h (padd p d) (enc v))
           (\<lambda>h p. bindE (load_cells h (padd p d) width) dec) sz"
proof (unfold_locales, goal_cases)
  case (1 h b cs k v)
  then show ?case using assms by (auto simp: enc_length)
next
  case (2 h p v h')
  then obtain b k cs where "padd p d = Ptr b k" "blocks h b = Some cs"
      "k + length (enc v) \<le> length cs" "h' = put Plain b k (enc v) h"
    by (rule store_cells_InrD)
  then show ?case using assms
    by (cases p) (auto simp: enc_length intro!: exI [of _ Plain] exI [of _ "enc v"] exI [of _ k])
next
  case (3 h p v h')
  then show ?case by (rule load_store_same)
next
  case (4 h p xs h')
  then show ?case using assms
    by (elim load_cells_InrD) (auto, metis add.commute piece_piece)
qed

end

interpretation cbool: cell_codec "\<lambda>v. word_cells 4 (if v then 1 else 0 :: u32)"
    "\<lambda>cs. bindE (decode_word cs) (\<lambda>val :: u32. Inr (val \<noteq> 0))" 4
  by unfold_locales simp_all

interpretation boolean: scalar_slot boolean_assign boolean_read 8
  using cbool.scalar_slot_at [of 4 8]
  by (simp add: boolean_assign_def [abs_def] boolean_read_def [abs_def] store_u32_def load_u32_def
      bindE_assoc)

interpretation int32: scalar_slot int32_assign int32_read 8
  using c32.scalar_slot_at [of 4 8]
  by (simp add: int32_assign_def [abs_def] int32_read_def [abs_def] store_u32_def load_u32_def)

interpretation float32: scalar_slot float32_assign float32_read 8
  using c32.scalar_slot_at [of 4 8]
  by (simp add: float32_assign_def [abs_def] float32_read_def [abs_def] store_u32_def load_u32_def)

interpretation int64: scalar_slot int64_assign int64_read 16
  using c64.scalar_slot_at [of 8 16]
  by (simp add: int64_assign_def [abs_def] int64_read_def [abs_def] store_u64_def load_u64_def)

interpretation float64: scalar_slot float64_assign float64_read 16
  using c64.scalar_slot_at [of 8 16]
  by (simp add: float64_assign_def [abs_def] float64_read_def [abs_def] store_u64_def load_u64_def)

lemma msm_write_int32_assign: "p \<noteq> Null \<Longrightarrow> msm_write_int32 h p v = int32_assign h p v"
  by (simp add: msm_write_int32_def int32_assign_def)

lemma msm_read_int32_read: "p \<noteq> Null \<Longrightarrow> msm_read_int32 h p = int32_read h p"
  by (simp add: msm_read_int32_def int32_read_def)

end
