(* ===== verification/Msm_Record.thy ===== *)
theory Msm_Record
  imports Msm_Scalars
begin

text \<open>
  The type expressions of the library and the compile-time layout of records (\<^verbatim>\<open>record.hpp\<close>,
  \<^verbatim>\<open>member.hpp\<close>, \<^verbatim>\<open>fixed_string.hpp\<close>, and the \<^verbatim>\<open>slot_size\<close> constants of every
  wrapper). A C++ type \<^verbatim>\<open>msm::record<member<"x", int32>, ...>\<close> is a value of type \<open>ty\<close>; the
  templates that compute with it are functions on \<open>ty\<close> and on its list of members.
\<close>

section \<open>Compile-time names\<close>

text \<open>\<^verbatim>\<open>fixed_string<N>\<close> is its array \<^verbatim>\<open>data\<close> of \<open>N\<close> characters, the terminator included.\<close>

type_synonym fixed_string = "u8 list"

definition fixed_string_size :: "fixed_string \<Rightarrow> nat" where
  "fixed_string_size fs = length fs - 1"

fun fixed_string_loop :: "nat \<Rightarrow> fixed_string \<Rightarrow> fixed_string \<Rightarrow> bool" where
  "fixed_string_loop 0 data other = True"
| "fixed_string_loop (Suc n) data other =
     (if hd data \<noteq> hd other then False else fixed_string_loop n (tl data) (tl other))"

text \<open>The overload for another size returns false; the one for the same size compares.\<close>

definition fixed_string_eq :: "fixed_string \<Rightarrow> fixed_string \<Rightarrow> bool" where
  "fixed_string_eq a b = (if length a \<noteq> length b then False else fixed_string_loop (length a) a b)"

lemma fixed_string_loop_eq: "length a = n \<Longrightarrow> length b = n \<Longrightarrow> fixed_string_loop n a b \<longleftrightarrow> a = b"
proof (induction n arbitrary: a b)
  case 0
  then show ?case by simp
next
  case (Suc n)
  then show ?case by (cases a; cases b) auto
qed

lemma fixed_string_eq_iff [simp]: "fixed_string_eq a b \<longleftrightarrow> a = b"
  by (auto simp: fixed_string_eq_def fixed_string_loop_eq)

text \<open>
  The defaulted \<^verbatim>\<open>operator<=>\<close> compares the elements of \<^verbatim>\<open>data\<close> one by one, as values of
  \<^verbatim>\<open>char\<close>. Whether \<^verbatim>\<open>char\<close> is signed is the choice of the implementation: \<open>char_value\<close>.
\<close>

datatype strong_ordering = Less | Equal | Greater

fun fixed_string_spaceship :: "(u8 \<Rightarrow> int) \<Rightarrow> fixed_string \<Rightarrow> fixed_string \<Rightarrow> strong_ordering" where
  "fixed_string_spaceship char_value (c # data) (d # other) =
     (if char_value c < char_value d then Less
      else if char_value d < char_value c then Greater
      else fixed_string_spaceship char_value data other)"
| "fixed_string_spaceship char_value _ _ = Equal"

lemma fixed_string_spaceship_swap:
  "fixed_string_spaceship char_value a b = Less \<longleftrightarrow> fixed_string_spaceship char_value b a = Greater"
  by (induction char_value a b rule: fixed_string_spaceship.induct) auto

text \<open>The two comparisons agree, whatever the values of the characters.\<close>

lemma fixed_string_spaceship_eq:
  assumes "inj char_value" and "length a = length b"
  shows "fixed_string_spaceship char_value a b = Equal \<longleftrightarrow> fixed_string_eq a b"
  using assms(2)
proof (induction a b rule: list_induct2)
  case (Cons c a d b)
  then show ?case
    using injD [OF assms(1), of c d] by (auto simp: not_less)
qed simp

section \<open>Type expressions\<close>

datatype ty =
    Boolean | Int32 | Float32 | Int64 | Float64
  | String | Array ty | Object
  | Record "member list"
and member = Member fixed_string ty

fun member_name :: "member \<Rightarrow> fixed_string" where
  "member_name (Member n t) = n"

fun member_type :: "member \<Rightarrow> ty" where
  "member_type (Member n t) = t"

text \<open>Sizes and offsets are of type \<^verbatim>\<open>std::size_t\<close>, with the wrap-around of 64 bits; the
  template indices that count fields are natural numbers.\<close>

definition header_size :: u64 where
  "header_size = 8"

fun slot_size :: "ty \<Rightarrow> u64" and fields_size :: "member list \<Rightarrow> u64" where
  "slot_size Boolean = 8"
| "slot_size Int32 = 8"
| "slot_size Float32 = 8"
| "slot_size Int64 = 16"
| "slot_size Float64 = 16"
| "slot_size String = 16"
| "slot_size (Array t) = 16"
| "slot_size Object = 16"
| "slot_size (Record fs) = header_size + fields_size fs"
| "fields_size [] = 0"
| "fields_size (Member n t # fs) = slot_size t + fields_size fs"

section \<open>The templates of namespace detail\<close>

fun offset_at :: "nat \<Rightarrow> member list \<Rightarrow> u64" where
  "offset_at i [] = 0"
| "offset_at i (first # rest) =
     (if i = 0 then 0 else slot_size (member_type first) + offset_at (i - 1) rest)"

text \<open>\<^verbatim>\<open>static_cast<std::size_t>(-1)\<close> marks a name that is not found.\<close>

definition not_found :: nat where
  "not_found = 2 ^ 64 - 1"

fun find_field_index :: "fixed_string \<Rightarrow> nat \<Rightarrow> member list \<Rightarrow> nat" where
  "find_field_index name i [] = not_found"
| "find_field_index name i (first # rest) =
     (if fixed_string_eq name (member_name first) then i else find_field_index name (i + 1) rest)"

fun type_at :: "nat \<Rightarrow> member list \<Rightarrow> ty option" where
  "type_at i [] = None"
| "type_at 0 (first # rest) = Some (member_type first)"
| "type_at (Suc i) (first # rest) = type_at i rest"

fun compute_offset :: "nat \<Rightarrow> u64 \<Rightarrow> member list \<Rightarrow> u64" where
  "compute_offset i acc [] = acc"
| "compute_offset i acc (first # rest) =
     (if i = 0 then acc else compute_offset (i - 1) (acc + slot_size (member_type first)) rest)"

fun count_name :: "fixed_string \<Rightarrow> member list \<Rightarrow> nat" where
  "count_name name [] = 0"
| "count_name name (first # rest) =
     (if fixed_string_eq name (member_name first) then 1 else 0) + count_name name rest"

fun all_names_unique :: "member list \<Rightarrow> bool" where
  "all_names_unique [] = True"
| "all_names_unique (first # rest) =
     (count_name (member_name first) (first # rest) = 1 \<and> all_names_unique rest)"

section \<open>Records\<close>

definition field_count :: "member list \<Rightarrow> nat" where
  "field_count fs = length fs"

definition field_offset :: "nat \<Rightarrow> member list \<Rightarrow> u64" where
  "field_offset i fs = header_size + compute_offset i 0 fs"

definition msm_record_get_field :: "ptr \<Rightarrow> u32 \<Rightarrow> ptr" where
  "msm_record_get_field record_ptr offset =
     (if record_ptr = Null then Null else padd record_ptr (unat offset))"

text \<open>\<open>record_get fs name ptr\<close> is \<^verbatim>\<open>record<fs...>{ptr}.get<name>()\<close>: a view, given by its type
  and pointer. \<open>None\<close> is a program that does not compile: duplicate field names or a name
  that is not a field (the two \<^verbatim>\<open>static_assert\<close>s).\<close>

definition record_get :: "member list \<Rightarrow> fixed_string \<Rightarrow> ptr \<Rightarrow> (ty \<times> ptr) option" where
  "record_get fs name ptr =
     (if \<not> all_names_unique fs then None
      else let idx = find_field_index name 0 fs
      in if idx = not_found then None
      else let offset = header_size + compute_offset idx 0 fs
      in case type_at idx fs of
           None \<Rightarrow> None
         | Some field_type \<Rightarrow> Some (field_type, msm_record_get_field ptr (ucast offset)))"

section \<open>Layout\<close>

text \<open>The size of a type without the wrap-around, on which the lemmas about memory rest. A type that
  fits in memory has a \<open>slot_size\<close> that is its extent.\<close>

fun extent :: "ty \<Rightarrow> nat" and fields_extent :: "member list \<Rightarrow> nat" where
  "extent Boolean = 8"
| "extent Int32 = 8"
| "extent Float32 = 8"
| "extent Int64 = 16"
| "extent Float64 = 16"
| "extent String = 16"
| "extent (Array t) = 16"
| "extent Object = 16"
| "extent (Record fs) = 8 + fields_extent fs"
| "fields_extent [] = 0"
| "fields_extent (Member n t # fs) = extent t + fields_extent fs"

definition field_start :: "nat \<Rightarrow> member list \<Rightarrow> nat" where
  "field_start i fs = 8 + fields_extent (take i fs)"

lemma slot_size_extent: "slot_size t = of_nat (extent t)"
  and fields_size_extent: "fields_size fs = of_nat (fields_extent fs)"
  by (induction t and fs rule: extent_fields_extent.induct) (simp_all add: header_size_def)

lemma unat_slot_size: "extent t < 18446744073709551616 \<Longrightarrow> unat (slot_size t) = extent t"
  by (simp add: slot_size_extent unat_of_nat)

lemma extent_mod8: "extent t mod 8 = 0" and fields_extent_mod8: "fields_extent fs mod 8 = 0"
  by (induction t and fs rule: extent_fields_extent.induct) (auto simp: mod_add_eq [symmetric])

lemma extent_pos: "8 \<le> extent t"
  by (cases t) auto

lemma compute_offset_eq: "compute_offset i acc fs = acc + offset_at i fs"
  by (induction i acc fs rule: compute_offset.induct) auto

lemma type_at_nth: "type_at i fs = (if i < length fs then Some (member_type (fs ! i)) else None)"
  by (induction i fs rule: type_at.induct) auto

lemma fields_extent_Cons [simp]: "fields_extent (m # fs) = extent (member_type m) + fields_extent fs"
  by (cases m) simp

lemma offset_at_extent: "offset_at i fs = of_nat (fields_extent (take i fs))"
proof (induction i fs rule: offset_at.induct)
  case (1 i)
  then show ?case by simp
next
  case (2 i first rest)
  then show ?case by (cases i) (auto simp: slot_size_extent)
qed

lemma field_offset_start: "field_offset i fs = of_nat (field_start i fs)"
  by (simp add: field_offset_def header_size_def compute_offset_eq offset_at_extent field_start_def)

lemma fields_extent_append: "fields_extent (xs @ ys) = fields_extent xs + fields_extent ys"
  by (induction xs) auto

lemma fields_extent_take_mono: "i \<le> j \<Longrightarrow> fields_extent (take i fs) \<le> fields_extent (take j fs)"
  by (metis fields_extent_append le_add1 le_iff_add take_add)

lemma fields_extent_take_le: "fields_extent (take i fs) \<le> fields_extent fs"
  by (metis append_take_drop_id fields_extent_append le_add1)

lemma field_end:
  assumes "i < length fs"
  shows "field_start i fs + extent (member_type (fs ! i)) = 8 + fields_extent (take (Suc i) fs)"
  using assms by (simp add: field_start_def take_Suc_conv_app_nth fields_extent_append)

lemma fields_disjoint:
  assumes "i < j" and "j < length fs"
  shows "field_start i fs + extent (member_type (fs ! i)) \<le> field_start j fs"
  using assms fields_extent_take_mono [of "Suc i" j fs] by (simp add: field_end) (simp add: field_start_def)

lemma field_inside:
  assumes "i < length fs"
  shows "field_start i fs + extent (member_type (fs ! i)) \<le> extent (Record fs)"
  using assms fields_extent_take_le [of "Suc i" fs] by (simp add: field_end)

lemma field_start_mod8: "field_start i fs mod 8 = 0"
  using fields_extent_mod8 [of "take i fs"] by (simp add: field_start_def mod_add_eq [symmetric])

lemma unat_field_offset:
  assumes "extent (Record fs) < 18446744073709551616"
  shows "unat (field_offset i fs) = field_start i fs"
proof -
  have "field_start i fs \<le> extent (Record fs)"
    using fields_extent_take_le [of i fs] by (simp add: field_start_def)
  then show ?thesis using assms by (simp add: field_offset_start unat_of_nat)
qed

lemma extent_member:
  assumes "i < length fs"
  shows "extent (member_type (fs ! i)) < extent (Record fs)"
  using field_inside [OF assms] by (simp add: field_start_def)

section \<open>Lookup by name\<close>

lemma count_name_eq: "count_name name fs = count_list (map member_name fs) name"
  by (induction fs) auto

lemma all_names_unique_iff: "all_names_unique fs \<longleftrightarrow> distinct (map member_name fs)"
proof (induction fs)
  case Nil
  then show ?case by simp
next
  case (Cons m fs)
  then show ?case by (auto simp: count_name_eq count_list_0_iff)
qed

lemma find_field_index_nth:
  assumes "distinct (map member_name fs)" and "k < length fs"
  shows "find_field_index (member_name (fs ! k)) i fs = i + k"
  using assms
proof (induction fs arbitrary: k i)
  case Nil
  then show ?case by simp
next
  case (Cons m fs)
  show ?case
  proof (cases k)
    case 0
    then show ?thesis by simp
  next
    case (Suc k')
    then have "member_name (fs ! k') \<in> set (map member_name fs)" using Cons.prems by simp
    then have "member_name (fs ! k') \<noteq> member_name m" using Cons.prems(1) by auto
    then show ?thesis using Suc Cons by simp
  qed
qed

lemma find_field_index_none:
  "name \<notin> set (map member_name fs) \<Longrightarrow> find_field_index name i fs = not_found"
  by (induction fs arbitrary: i) auto

end
