(* ===== verification/Msm_Record_Props.thy ===== *)
theory Msm_Record_Props
  imports Msm_Record
begin

text \<open>
  The properties of scalar slots and of the record layout: round trips of the scalar wrappers and of
  the C scalar functions, fields that do not overlap, stay inside the record and are aligned for the
  atomic accesses, lookup by name, and the independence of the fields of a record.
\<close>

section \<open>Scalar slots\<close>

text \<open>Every scalar wrapper reads back what was assigned through it, bit for bit.\<close>

lemma scalar_roundtrips:
  shows "(boolean_assign h p v1 = Inr h1 \<longrightarrow> boolean_read h1 p = Inr v1) \<and>
    (int32_assign h p v2 = Inr h2 \<longrightarrow> int32_read h2 p = Inr v2) \<and>
    (float32_assign h p v3 = Inr h3 \<longrightarrow> float32_read h3 p = Inr v3) \<and>
    (int64_assign h p v4 = Inr h4 \<longrightarrow> int64_read h4 p = Inr v4) \<and>
    (float64_assign h p v5 = Inr h5 \<longrightarrow> float64_read h5 p = Inr v5)"
  by (blast intro: boolean.read_assign int32.read_assign float32.read_assign int64.read_assign
      float64.read_assign)

definition scalar_heap :: heap where
  "scalar_heap =
     \<lparr>blocks = [0 \<mapsto> replicate 64 (Byte 0)], next_block = 1, oom = (\<lambda>_ _. False), trace = []\<rparr>"

text \<open>\<open>msm_write_int32\<close> and \<open>msm_read_int32\<close>: on a live slot the write succeeds, is read
  back and leaves every other byte of memory as it is; on a null slot the write does nothing and
  the read returns 0.\<close>

theorem c_int32_roundtrip:
  assumes "blocks h b = Some cs" and "k + 8 \<le> length cs"
  shows "\<exists>h'. msm_write_int32 h (Ptr b k) v = Inr h' \<and> msm_read_int32 h' (Ptr b k) = Inr v \<and>
    (\<forall>q n. blk q \<noteq> b \<or> off q + n \<le> k \<or> k + 8 \<le> off q \<longrightarrow> load_cells h' q n = load_cells h q n) \<and>
    msm_write_int32 h Null v = Inr h \<and> msm_read_int32 h Null = Inr 0"
proof -
  obtain h' where h': "int32_assign h (Ptr b k) v = Inr h'"
    using int32.assign_live [OF assms] by blast
  show ?thesis
    using h' int32.read_assign [OF h'] int32.assign_frame [OF h']
    by (auto simp: msm_write_int32_assign msm_read_int32_read msm_write_int32_def
        msm_read_int32_def int32_assign_def int32_read_def)
qed

section \<open>The layout of a record\<close>

text \<open>A record of two copies of the type before, so the sizes double at each level.\<close>

fun doubled :: "nat \<Rightarrow> ty" where
  "doubled 0 = Int32"
| "doubled (Suc n) = Record [Member [97, 0] (doubled n), Member [98, 0] (doubled n)]"

lemma doubled_size: "slot_size (doubled n) = 2 ^ (n + 4) - 8"
  by (induction n) (simp_all add: header_size_def power_add)

text \<open>Claim C37. In a record of less than \<open>2 ^ 64\<close> bytes the offsets and sizes that the templates
  compute in \<^verbatim>\<open>std::size_t\<close> describe a layout: the fields do not overlap, lie between the
  header and the end of the record, and start at multiples of 8, so the atomic accesses to the slots
  in a record (whose own address is a multiple of 8) are aligned. The bound is needed: the second
  field of a record of two records of \<open>2 ^ 64 - 8\<close> bytes each has offset 0.\<close>

theorem record_layout:
  assumes "j < length fs" and "extent (Record fs) < 2 ^ 64"
  shows "unat (slot_size (Record fs)) = extent (Record fs) \<and>
    (\<forall>i < j. unat (field_offset i fs) + unat (slot_size (member_type (fs ! i))) \<le> unat (field_offset j fs)) \<and>
    header_size \<le> field_offset j fs \<and>
    unat (field_offset j fs) + unat (slot_size (member_type (fs ! j))) \<le> unat (slot_size (Record fs)) \<and>
    unat (field_offset j fs) mod 8 = 0 \<and>
    field_offset 1 [Member [97, 0] (doubled 60), Member [98, 0] (doubled 60)] = 0"
proof -
  have ext: "extent (Record fs) < 18446744073709551616" using assms(2) by simp
  have size: "unat (slot_size (member_type (fs ! i))) = extent (member_type (fs ! i))" if "i < length fs" for i
    using extent_member [OF that] ext by (intro unat_slot_size) linarith
  note off = unat_field_offset [OF ext] and total = unat_slot_size [OF ext]
  have disj: "field_start i fs + unat (slot_size (member_type (fs ! i))) \<le> field_start j fs" if "i < j" for i
    using fields_disjoint [OF that assms(1)] size [of i] that assms(1) by simp
  have "header_size \<le> field_offset j fs"
    unfolding word_le_nat_alt off by (simp add: header_size_def field_start_def)
  moreover have "field_offset 1 [Member [97, 0] (doubled 60), Member [98, 0] (doubled 60)] = 0"
    by (simp add: field_offset_def header_size_def doubled_size)
  ultimately show ?thesis
    unfolding off total using size [OF assms(1)] disj field_inside [OF assms(1)] field_start_mod8
    by (intro conjI) auto
qed

definition node_fields :: "member list" where
  "node_fields = [Member [105, 100, 0] Int32, Member [119, 0] Float64, Member [110, 0] String]"

theorem record_layout_witness:
  "unat (field_offset 1 node_fields) + 16 \<le> unat (field_offset 2 node_fields) \<and>
   unat (field_offset 2 node_fields) mod 8 = 0"
proof -
  have "2 < length node_fields" "extent (Record node_fields) < 2 ^ 64" by (simp_all add: node_fields_def)
  from record_layout [OF this]
  have "unat (field_offset 1 node_fields) + unat (slot_size (member_type (node_fields ! 1))) \<le>
      unat (field_offset 2 node_fields)"
    and "unat (field_offset 2 node_fields) mod 8 = 0" by simp_all
  then show ?thesis by (simp add: node_fields_def)
qed

lemma record_size_bound:
  assumes "extent (Record fs) < 4294967296"
  shows "length fs < not_found" and "i < length fs \<Longrightarrow> unat (ucast (field_offset i fs) :: u32) = field_start i fs"
    and "unat (field_offset i fs) = field_start i fs"
proof -
  have "8 * length xs \<le> fields_extent xs" for xs
  proof (induction xs)
    case (Cons m xs)
    then show ?case using extent_pos [of "member_type m"] by simp
  qed simp
  from this [of fs] show "length fs < not_found" using assms by (simp add: not_found_def)
  show off: "unat (field_offset i fs) = field_start i fs" using assms by (intro unat_field_offset) simp
  assume "i < length fs"
  then have "field_start i fs < 4294967296" using field_inside [of i fs] assms by linarith
  then show "unat (ucast (field_offset i fs) :: u32) = field_start i fs"
    using off by (simp add: unsigned_ucast_eq take_bit_nat_eq_self)
qed

lemma record_get_nth:
  assumes "all_names_unique fs" and "extent (Record fs) < 4294967296" and "k < length fs"
  shows "record_get fs (member_name (fs ! k)) ptr =
    Some (member_type (fs ! k), padd ptr (field_start k fs))"
proof -
  have "find_field_index (member_name (fs ! k)) 0 fs = k"
    using assms(1,3) by (simp add: all_names_unique_iff find_field_index_nth)
  moreover have "k \<noteq> not_found" using record_size_bound(1) [OF assms(2)] assms(3) by simp
  moreover have "unat (ucast (header_size + compute_offset k 0 fs) :: u32) = field_start k fs"
    using record_size_bound(2) [OF assms(2,3)] by (simp add: field_offset_def)
  ultimately show ?thesis
    using assms by (simp add: record_get_def type_at_nth msm_record_get_field_def)
qed



context scalar_slot
begin

lemma field_independent:
  assumes "all_names_unique fs" and "extent (Record fs) < 4294967296"
    and "i < length fs" and "j < length fs" and "i \<noteq> j"
    and "extent (member_type (fs ! i)) = sz"
    and "assign h (padd ptr (field_start i fs)) v = Inr h'"
  shows "read h' (padd ptr (field_start i fs)) = Inr v"
    and "load_cells h' (padd ptr (field_start j fs)) (extent (member_type (fs ! j))) =
      load_cells h (padd ptr (field_start j fs)) (extent (member_type (fs ! j)))"
proof -
  show "read h' (padd ptr (field_start i fs)) = Inr v" using assms(7) by (rule read_assign)
  show "load_cells h' (padd ptr (field_start j fs)) (extent (member_type (fs ! j))) =
      load_cells h (padd ptr (field_start j fs)) (extent (member_type (fs ! j)))"
  proof (cases ptr)
    case Null
    then show ?thesis by simp
  next
    case (Ptr b k)
    have "i < j \<or> j < i" using assms(5) by auto
    then show ?thesis
      using assms(3,4,6) fields_disjoint [of i j fs] fields_disjoint [of j i fs]
      by (intro assign_frame [OF assms(7)]) (auto simp: Ptr)
  qed
qed

end

text \<open>Claim C39. The fields of a record are independent: writing one scalar field, reached by its
  name, is read back, and leaves the bytes of every other field, of any type, unchanged.\<close>

theorem record_fields_independent:
  assumes "all_names_unique fs" and "extent (Record fs) < 4294967296"
    and "i < length fs" and "j < length fs" and "i \<noteq> j"
    and "record_get fs (member_name (fs ! i)) ptr = Some (t, p)"
    and "record_get fs (member_name (fs ! j)) ptr = Some (u, q)"
  shows "(t = Boolean \<and> boolean_assign h p v1 = Inr h' \<longrightarrow>
      boolean_read h' p = Inr v1 \<and> load_cells h' q (unat (slot_size u)) = load_cells h q (unat (slot_size u))) \<and>
    (t = Int32 \<and> int32_assign h p v2 = Inr h' \<longrightarrow>
      int32_read h' p = Inr v2 \<and> load_cells h' q (unat (slot_size u)) = load_cells h q (unat (slot_size u))) \<and>
    (t = Float32 \<and> float32_assign h p v3 = Inr h' \<longrightarrow>
      float32_read h' p = Inr v3 \<and> load_cells h' q (unat (slot_size u)) = load_cells h q (unat (slot_size u))) \<and>
    (t = Int64 \<and> int64_assign h p v4 = Inr h' \<longrightarrow>
      int64_read h' p = Inr v4 \<and> load_cells h' q (unat (slot_size u)) = load_cells h q (unat (slot_size u))) \<and>
    (t = Float64 \<and> float64_assign h p v5 = Inr h' \<longrightarrow>
      float64_read h' p = Inr v5 \<and> load_cells h' q (unat (slot_size u)) = load_cells h q (unat (slot_size u)))"
proof -
  note idx = assms(1-5)
  have t: "t = member_type (fs ! i)" "p = padd ptr (field_start i fs)"
    using record_get_nth [OF assms(1,2,3), of ptr] assms(6) by simp_all
  have u: "u = member_type (fs ! j)" "q = padd ptr (field_start j fs)"
    using record_get_nth [OF assms(1,2,4), of ptr] assms(7) by simp_all
  have "unat (slot_size u) = extent (member_type (fs ! j))"
    unfolding u(1) using extent_member [OF assms(4)] assms(2) by (intro unat_slot_size) simp
  then show ?thesis
    unfolding t u(2)
    by (auto intro: boolean.field_independent(1) [OF idx] int32.field_independent(1) [OF idx]
        float32.field_independent(1) [OF idx] int64.field_independent(1) [OF idx]
        float64.field_independent(1) [OF idx]
        elim: boolean.field_independent(2) [OF idx, rotated] int32.field_independent(2) [OF idx, rotated]
        float32.field_independent(2) [OF idx, rotated] int64.field_independent(2) [OF idx, rotated]
        float64.field_independent(2) [OF idx, rotated])
qed

theorem record_fields_independent_witness:
  "\<exists>h'. int32_assign scalar_heap (Ptr 0 8) 5 = Inr h' \<and> int32_read h' (Ptr 0 8) = Inr 5 \<and>
     load_cells h' (Ptr 0 16) 16 = load_cells scalar_heap (Ptr 0 16) 16"
proof -
  obtain h' where h': "int32_assign scalar_heap (Ptr 0 8) 5 = Inr h'"
    using int32.assign_live [of scalar_heap 0 "replicate 64 (Byte 0)" 8]
    by (auto simp: scalar_heap_def)
  have u: "all_names_unique node_fields" "extent (Record node_fields) < 4294967296"
    by (simp_all add: node_fields_def)
  have g: "record_get node_fields (member_name (node_fields ! 0)) (Ptr 0 0) = Some (Int32, Ptr 0 8)"
    "record_get node_fields (member_name (node_fields ! 1)) (Ptr 0 0) = Some (Float64, Ptr 0 16)"
    using record_get_nth [OF u, of 0 "Ptr 0 0"] record_get_nth [OF u, of 1 "Ptr 0 0"]
    by (simp_all add: node_fields_def field_start_def)
  show ?thesis
    using record_fields_independent [OF u _ _ _ g, of scalar_heap _ h' 5] h'
    by (auto simp: node_fields_def)
qed

end
