(* ===== verification/Msm_Hash.thy ===== *)
theory Msm_Hash
  imports Msm_String
begin

unbundle bit_operations_syntax

text \<open>
  The two FNV-1a hashes of \<^verbatim>\<open>msm_allocator.cpp\<close>: \<open>msm_schema_hash_fnv1a\<close> over a
  NUL-terminated string and \<open>hash_name\<close> over a counted one.
\<close>

section \<open>The hashes\<close>

text \<open>Each function has its own loop with its own constants, as in the source.\<close>

fun schema_hash_loop :: "u8 list \<Rightarrow> u64 \<Rightarrow> u64" where
  "schema_hash_loop [] hash = hash"
| "schema_hash_loop (c # cs) hash =
     (if c = 0 then hash
      else let hash = hash XOR ucast c; hash = hash * 1099511628211 in schema_hash_loop cs hash)"

definition msm_schema_hash_fnv1a :: "cstr \<Rightarrow> u64" where
  "msm_schema_hash_fnv1a schema_str =
     (case schema_str of None \<Rightarrow> 0 | Some bs \<Rightarrow> schema_hash_loop bs 14695981039346656037)"

text \<open>\<open>hash_name name len\<close>: the callers pass a \<open>len\<close> of at most \<open>strlen(name)\<close>.\<close>

fun hash_name_loop :: "u8 list \<Rightarrow> nat \<Rightarrow> u64 \<Rightarrow> u64" where
  "hash_name_loop (c # cs) (Suc n) hash =
     (let hash = hash XOR ucast c; hash = hash * 1099511628211 in hash_name_loop cs n hash)"
| "hash_name_loop _ _ hash = hash"

definition hash_name :: "u8 list \<Rightarrow> nat \<Rightarrow> u64" where
  "hash_name name len = hash_name_loop name len 14695981039346656037"

section \<open>The published algorithm\<close>

text \<open>FNV-1a with 64 bits as its authors define it, on natural numbers: the prime is
  \<open>2 ^ 40 + 2 ^ 8 + 0xb3\<close>, and the offset basis is the value of the older hash FNV-0, which starts
  at 0 and multiplies first, on the 32 characters \<^verbatim>\<open>chongo <Landon Curt Noll> /\../\\<close>.\<close>

definition fnv_prime :: nat where
  "fnv_prime = 2 ^ 40 + 2 ^ 8 + 0xb3"

definition fnv0 :: "nat list \<Rightarrow> nat" where
  "fnv0 cs = foldl (\<lambda>h c. (h * fnv_prime mod 2 ^ 64) XOR c) 0 cs"

definition fnv_offset_basis :: nat where
  "fnv_offset_basis = fnv0 [99, 104, 111, 110, 103, 111, 32, 60, 76, 97, 110, 100, 111, 110, 32, 67,
     117, 114, 116, 32, 78, 111, 108, 108, 62, 32, 47, 92, 46, 46, 47, 92]"

definition fnv1a :: "nat list \<Rightarrow> nat" where
  "fnv1a cs = foldl (\<lambda>h c. (h XOR c) * fnv_prime mod 2 ^ 64) fnv_offset_basis cs"

lemma fnv_offset_basis: "fnv_offset_basis = 14695981039346656037"
  by (simp add: fnv_offset_basis_def fnv0_def fnv_prime_def)

section \<open>The properties of the hashes\<close>

text \<open>The two loops are the same fold.\<close>

definition fnv_step :: "u64 \<Rightarrow> u8 \<Rightarrow> u64" where
  "fnv_step hash c = (hash XOR ucast c) * 1099511628211"

lemma schema_hash_loop_foldl:
  "schema_hash_loop bs hash = foldl fnv_step hash (takeWhile (\<lambda>c. c \<noteq> 0) bs)"
  by (induction bs hash rule: schema_hash_loop.induct) (auto simp: fnv_step_def Let_def)

lemma hash_name_loop_foldl: "hash_name_loop bs n hash = foldl fnv_step hash (take n bs)"
  by (induction bs n hash rule: hash_name_loop.induct) (auto simp: fnv_step_def Let_def)

lemma schema_hash_foldl:
  "msm_schema_hash_fnv1a (Some bs) =
     foldl fnv_step 14695981039346656037 (takeWhile (\<lambda>c. c \<noteq> 0) bs)"
  by (simp add: msm_schema_hash_fnv1a_def schema_hash_loop_foldl)

lemma hash_name_foldl: "hash_name bs n = foldl fnv_step 14695981039346656037 (take n bs)"
  by (simp add: hash_name_def hash_name_loop_foldl)

text \<open>The prime is odd, so multiplying by it can be undone modulo \<open>2 ^ 64\<close>.\<close>

lemma fnv_prime_inverse: "(1099511628211 :: u64) * 14886173955864302971 = 1"
  by simp

lemma times_fnv_prime_inj: "(a :: u64) * 1099511628211 = b * 1099511628211 \<longleftrightarrow> a = b"
proof
  assume "a * 1099511628211 = b * 1099511628211"
  then have "a * 1099511628211 * 14886173955864302971 = b * 1099511628211 * 14886173955864302971"
    by (rule arg_cong)
  then show "a = b" unfolding mult.assoc fnv_prime_inverse mult_1_right .
qed simp

lemma word_xor_inj: "(a :: 'a::len word) XOR b = a XOR c \<longleftrightarrow> b = c"
proof
  assume "a XOR b = a XOR c"
  then have "a XOR (a XOR b) = a XOR (a XOR c)" by (rule arg_cong)
  then show "b = c" by (simp flip: xor.assoc)
qed simp

lemma fnv_step_inj_hash: "fnv_step a c = fnv_step b c \<longleftrightarrow> a = b"
  unfolding fnv_step_def times_fnv_prime_inj xor.commute [of _ "ucast c"] by (rule word_xor_inj)

lemma unat_ucast_u8_u64: "unat (ucast (c :: u8) :: u64) = unat c"
proof -
  have "unat c < 2 ^ 64" by (rule less_trans [of _ 256]) (use unsigned_less [of c] in simp_all)
  then show ?thesis by (simp add: unsigned_ucast_eq take_bit_nat_eq_self)
qed

lemma ucast_u8_u64_inj: "(ucast (c :: u8) :: u64) = ucast d \<longleftrightarrow> c = d"
  by (simp add: word_unat_eq_iff unat_ucast_u8_u64)

lemma fnv_step_inj_char: "fnv_step a c = fnv_step a d \<longleftrightarrow> c = d"
  by (simp add: fnv_step_def times_fnv_prime_inj word_xor_inj ucast_u8_u64_inj)

lemma foldl_fnv_inj: "foldl fnv_step a cs = foldl fnv_step b cs \<longleftrightarrow> a = b"
  by (induction cs arbitrary: a b) (auto simp: fnv_step_inj_hash)

lemma unat_fnv_step: "unat (fnv_step h c) = (unat h XOR unat c) * fnv_prime mod 2 ^ 64"
  by (simp add: fnv_step_def fnv_prime_def unat_word_ariths unsigned_xor_eq unat_ucast_u8_u64)

lemma unat_foldl_fnv:
  "unat (foldl fnv_step h cs) =
     foldl (\<lambda>h c. (h XOR c) * fnv_prime mod 2 ^ 64) (unat h) (map unat cs)"
  by (induction cs arbitrary: h) (simp_all add: unat_fnv_step)

lemma unat_foldl_fnv1a: "unat (foldl fnv_step 14695981039346656037 cs) = fnv1a (map unat cs)"
  by (simp add: unat_foldl_fnv fnv1a_def fnv_offset_basis)

text \<open>Claim C40. Both hash functions compute the published FNV-1a: the schema hash on the characters
  before the terminator of its string, the name hash on the first \<open>len\<close> characters. So they agree:
  the schema hash of a C string is the name hash of its \<open>strlen\<close> characters, and a change of
  one character always changes the hash. The schema hash of a null pointer is 0.\<close>

theorem fnv1a_hashes_agree:
  "unat (msm_schema_hash_fnv1a (Some bs)) = fnv1a (map unat (take (c_strlen bs) bs)) \<and>
   unat (hash_name bs len) = fnv1a (map unat (take len bs)) \<and>
   msm_schema_hash_fnv1a (Some bs) = hash_name bs (c_strlen bs) \<and>
   (hash_name (xs @ c # ys) (length (xs @ c # ys)) = hash_name (xs @ d # ys) (length (xs @ d # ys))
      \<longleftrightarrow> c = d) \<and>
   msm_schema_hash_fnv1a None = 0"
  unfolding schema_hash_foldl hash_name_foldl unat_foldl_fnv1a
  by (simp add: c_strlen_def foldl_fnv_inj fnv_step_inj_char msm_schema_hash_fnv1a_def
      takeWhile_eq_take [symmetric])

text \<open>The published test vectors of FNV-1a: the strings \<open>""\<close>, \<open>"a"\<close> and \<open>"foobar"\<close>.\<close>

lemma fnv1a_vectors:
  "msm_schema_hash_fnv1a (Some []) = 0xcbf29ce484222325"
  "msm_schema_hash_fnv1a (Some [97]) = 0xaf63dc4c8601ec8c"
  "msm_schema_hash_fnv1a (Some [102, 111, 111, 98, 97, 114]) = 0x85944171f73967e8"
  by (simp_all add: msm_schema_hash_fnv1a_def)

end
