(* ===== verification/Msm_Object.thy ===== *)
theory Msm_Object
  imports Msm_Hash
begin

text \<open>
  The object functions of the C interface (\<^verbatim>\<open>msm_allocator.cpp\<close>). The slot of an object
  points to a counted buffer of 24-byte entries \<^verbatim>\<open>[name_hash:8 | type:2 | pad:2 | size:4 | value:8]\<close>;
  a field is found by the hash of its name, and its value lives in a block of its own. The functions
  return the value of the C function, 0 or \<open>- 1\<close> for the ones that return a status, and the heap.

  The operations are written out one by one, as in the source; \<open>Msm_Object_Fields\<close> shows that the
  setters are instances of one scheme.
\<close>

section \<open>Type tags and constants\<close>

datatype msm_type =
    boolean | int32 | float32 | int64 | float64 | string_type | array | object_type | record_type

fun msm_type_id :: "msm_type \<Rightarrow> u16" where
  "msm_type_id boolean = 1"
| "msm_type_id int32 = 2"
| "msm_type_id float32 = 3"
| "msm_type_id int64 = 4"
| "msm_type_id float64 = 5"
| "msm_type_id string_type = 6"
| "msm_type_id array = 7"
| "msm_type_id object_type = 8"
| "msm_type_id record_type = 9"

definition type_bool :: u16 where "type_bool = msm_type_id boolean"
definition type_int32 :: u16 where "type_int32 = msm_type_id int32"
definition type_float32 :: u16 where "type_float32 = msm_type_id float32"
definition type_int64 :: u16 where "type_int64 = msm_type_id int64"
definition type_float64 :: u16 where "type_float64 = msm_type_id float64"
definition type_string :: u16 where "type_string = msm_type_id string_type"
definition type_array :: u16 where "type_array = msm_type_id array"
definition type_object :: u16 where "type_object = msm_type_id object_type"

definition ENTRY_SIZE :: u64 where
  "ENTRY_SIZE = 24"

definition OBJ_BUF_HEADER :: u64 where
  "OBJ_BUF_HEADER = 8"

section \<open>Buffer and entry accessors\<close>

definition obj_buf_count :: "heap \<Rightarrow> ptr \<Rightarrow> memory_order \<Rightarrow> u32 res" where
  "obj_buf_count h buf order = atomic_load_u32 h buf order"

definition obj_buf_capacity :: "heap \<Rightarrow> ptr \<Rightarrow> u32 res" where
  "obj_buf_capacity h buf = atomic_load_u32 h (padd buf 4) Relaxed"

definition obj_buf_entries :: "ptr \<Rightarrow> ptr" where
  "obj_buf_entries buf = padd buf (unat OBJ_BUF_HEADER)"

definition obj_buf_set_count :: "heap \<Rightarrow> ptr \<Rightarrow> u32 \<Rightarrow> memory_order \<Rightarrow> heap res" where
  "obj_buf_set_count h buf v order = atomic_store_u32 h buf v order"

definition obj_buf_set_capacity :: "heap \<Rightarrow> ptr \<Rightarrow> u32 \<Rightarrow> heap res" where
  "obj_buf_set_capacity h buf v = atomic_store_u32 h (padd buf 4) v Relaxed"

definition entry_name_hash :: "heap \<Rightarrow> ptr \<Rightarrow> u64 res" where
  "entry_name_hash h e = load_u64 h e"

definition entry_type_id :: "heap \<Rightarrow> ptr \<Rightarrow> u16 res" where
  "entry_type_id h e = load_u16 h (padd e 8)"

definition entry_size :: "heap \<Rightarrow> ptr \<Rightarrow> u32 res" where
  "entry_size h e = load_u32 h (padd e 12)"

definition entry_value_ptr :: "heap \<Rightarrow> ptr \<Rightarrow> ptr res" where
  "entry_value_ptr h e = load_ptr h (padd e 16)"

definition entry_set_name_hash :: "heap \<Rightarrow> ptr \<Rightarrow> u64 \<Rightarrow> heap res" where
  "entry_set_name_hash h e v = store_u64 h e v"

definition entry_set_type_id :: "heap \<Rightarrow> ptr \<Rightarrow> u16 \<Rightarrow> heap res" where
  "entry_set_type_id h e v = store_u16 h (padd e 8) v"

definition entry_set_size :: "heap \<Rightarrow> ptr \<Rightarrow> u32 \<Rightarrow> heap res" where
  "entry_set_size h e v = store_u32 h (padd e 12) v"

definition entry_set_value_ptr :: "heap \<Rightarrow> ptr \<Rightarrow> ptr \<Rightarrow> heap res" where
  "entry_set_value_ptr h e p = store_ptr h (padd e 16) p"

text \<open>\<^verbatim>\<open>i * ENTRY_SIZE\<close> is computed in \<^verbatim>\<open>std::size_t\<close>.\<close>

definition entry_offset :: "u32 \<Rightarrow> u64" where
  "entry_offset i = ucast i * ENTRY_SIZE"

section \<open>Finding an entry\<close>

text \<open>The scan from index \<open>i\<close> on, with \<open>r\<close> entries left.\<close>

fun find_entry_scan :: "heap \<Rightarrow> ptr \<Rightarrow> u64 \<Rightarrow> u32 \<Rightarrow> nat \<Rightarrow> ptr res" where
  "find_entry_scan h entries name_hash i 0 = Inr Null"
| "find_entry_scan h entries name_hash i (Suc r) =
     (let e = padd entries (unat (entry_offset i))
      in bindE (entry_name_hash h e) (\<lambda>k.
           if k = name_hash then Inr e else find_entry_scan h entries name_hash (i + 1) r))"

definition object_find_entry_by_hash :: "heap \<Rightarrow> ptr \<Rightarrow> u64 \<Rightarrow> ptr res" where
  "object_find_entry_by_hash h slot name_hash =
     bindE (atomic_load_ptr h (padd slot 8) Acquire) (\<lambda>buf.
       if buf = Null then Inr Null
       else bindE (obj_buf_count h buf Acquire) (\<lambda>count.
         if count = 0 then Inr Null
         else find_entry_scan h (obj_buf_entries buf) name_hash 0 (unat count)))"

definition object_find_entry :: "heap \<Rightarrow> ptr \<Rightarrow> u8 list \<Rightarrow> nat \<Rightarrow> ptr res" where
  "object_find_entry h slot name name_len =
     object_find_entry_by_hash h slot (hash_name name name_len)"

section \<open>Adding an entry\<close>

definition object_add_entry :: "heap \<Rightarrow> ptr \<Rightarrow> (ptr \<times> heap) res" where
  "object_add_entry h slot =
     bindE (atomic_load_ptr h (padd slot 8) Relaxed) (\<lambda>buf.
     bindE (if buf \<noteq> Null then obj_buf_count h buf Relaxed else Inr 0) (\<lambda>count.
     bindE (if buf \<noteq> Null then obj_buf_capacity h buf else Inr 0) (\<lambda>cap.
     if buf = Null \<or> cap \<le> count
     then let new_cap = (if cap = 0 then 4 else cap * 2);
              new_size = unat (OBJ_BUF_HEADER + entry_offset new_cap);
              (new_buf, h1) = malloc h new_size
          in if new_buf = Null then Inr (Null, h1)
             else bindE (memset h1 new_buf 0 new_size) (\<lambda>h2.
                  bindE (obj_buf_set_count h2 new_buf count Relaxed) (\<lambda>h3.
                  bindE (obj_buf_set_capacity h3 new_buf new_cap) (\<lambda>h4.
                  bindE (if buf \<noteq> Null \<and> 0 < count
                         then memcpy h4 (obj_buf_entries new_buf) (obj_buf_entries buf)
                                (unat (entry_offset count))
                         else Inr h4) (\<lambda>h5.
                  bindE (atomic_store_ptr h5 (padd slot 8) new_buf Release) (\<lambda>h6.
                  Inr (padd (obj_buf_entries new_buf) (unat (entry_offset count)), h6))))))
     else Inr (padd (obj_buf_entries buf) (unat (entry_offset count)), h))))"

definition object_commit_add :: "heap \<Rightarrow> ptr \<Rightarrow> heap res" where
  "object_commit_add h slot =
     bindE (atomic_load_ptr h (padd slot 8) Relaxed) (\<lambda>buf.
       if buf = Null then Inr h
       else bindE (obj_buf_count h buf Relaxed) (\<lambda>cur. obj_buf_set_count h buf (cur + 1) Release))"

section \<open>The setters\<close>

text \<open>\<^verbatim>\<open>static_cast<std::uint16_t>(std::strlen(name))\<close>.\<close>

definition name_length :: "u8 list \<Rightarrow> u16" where
  "name_length name = of_nat (c_strlen name)"

definition msm_object_set_int32 :: "heap \<Rightarrow> ptr \<Rightarrow> cstr \<Rightarrow> u32 \<Rightarrow> (int \<times> heap) res" where
  "msm_object_set_int32 h slot name value =
     (case name of None \<Rightarrow> Inr (- 1, h)
      | Some nm \<Rightarrow> if slot = Null then Inr (- 1, h) else
          let nlen = unat (name_length nm) in
          bindE (object_find_entry h slot nm nlen) (\<lambda>e.
          if e \<noteq> Null
          then bindE (entry_type_id h e) (\<lambda>t.
               if t \<noteq> type_int32 then Inl (Abort TypeMismatch)
               else bindE (entry_value_ptr h e) (\<lambda>val.
                    bindE (store_u32 h (padd val 4) value) (\<lambda>h1. Inr (0, h1))))
          else bindE (object_add_entry h slot) (\<lambda>(e, h1).
               if e = Null then Inr (- 1, h1)
               else bindE (entry_set_name_hash h1 e (hash_name nm nlen)) (\<lambda>h2.
                    bindE (entry_set_type_id h2 e type_int32) (\<lambda>h3.
                    bindE (entry_set_size h3 e 8) (\<lambda>h4.
                    let (val, h5) = malloc h4 8 in
                    bindE (memset h5 val 0 8) (\<lambda>h6.
                    bindE (store_u32 h6 (padd val 4) value) (\<lambda>h7.
                    bindE (entry_set_value_ptr h7 e val) (\<lambda>h8.
                    bindE (object_commit_add h8 slot) (\<lambda>h9. Inr (0, h9)))))))))))"

definition msm_object_set_int64 :: "heap \<Rightarrow> ptr \<Rightarrow> cstr \<Rightarrow> u64 \<Rightarrow> (int \<times> heap) res" where
  "msm_object_set_int64 h slot name value =
     (case name of None \<Rightarrow> Inr (- 1, h)
      | Some nm \<Rightarrow> if slot = Null then Inr (- 1, h) else
          let nlen = unat (name_length nm) in
          bindE (object_find_entry h slot nm nlen) (\<lambda>e.
          if e \<noteq> Null
          then bindE (entry_type_id h e) (\<lambda>t.
               if t \<noteq> type_int64 then Inl (Abort TypeMismatch)
               else bindE (entry_value_ptr h e) (\<lambda>val.
                    bindE (store_u64 h (padd val 8) value) (\<lambda>h1. Inr (0, h1))))
          else bindE (object_add_entry h slot) (\<lambda>(e, h1).
               if e = Null then Inr (- 1, h1)
               else bindE (entry_set_name_hash h1 e (hash_name nm nlen)) (\<lambda>h2.
                    bindE (entry_set_type_id h2 e type_int64) (\<lambda>h3.
                    bindE (entry_set_size h3 e 16) (\<lambda>h4.
                    let (val, h5) = malloc h4 16 in
                    bindE (memset h5 val 0 16) (\<lambda>h6.
                    bindE (store_u64 h6 (padd val 8) value) (\<lambda>h7.
                    bindE (entry_set_value_ptr h7 e val) (\<lambda>h8.
                    bindE (object_commit_add h8 slot) (\<lambda>h9. Inr (0, h9)))))))))))"

definition msm_object_set_float64 :: "heap \<Rightarrow> ptr \<Rightarrow> cstr \<Rightarrow> u64 \<Rightarrow> (int \<times> heap) res" where
  "msm_object_set_float64 h slot name value =
     (case name of None \<Rightarrow> Inr (- 1, h)
      | Some nm \<Rightarrow> if slot = Null then Inr (- 1, h) else
          let nlen = unat (name_length nm) in
          bindE (object_find_entry h slot nm nlen) (\<lambda>e.
          if e \<noteq> Null
          then bindE (entry_type_id h e) (\<lambda>t.
               if t \<noteq> type_float64 then Inl (Abort TypeMismatch)
               else bindE (entry_value_ptr h e) (\<lambda>val.
                    bindE (store_u64 h (padd val 8) value) (\<lambda>h1. Inr (0, h1))))
          else bindE (object_add_entry h slot) (\<lambda>(e, h1).
               if e = Null then Inr (- 1, h1)
               else bindE (entry_set_name_hash h1 e (hash_name nm nlen)) (\<lambda>h2.
                    bindE (entry_set_type_id h2 e type_float64) (\<lambda>h3.
                    bindE (entry_set_size h3 e 16) (\<lambda>h4.
                    let (val, h5) = malloc h4 16 in
                    bindE (memset h5 val 0 16) (\<lambda>h6.
                    bindE (store_u64 h6 (padd val 8) value) (\<lambda>h7.
                    bindE (entry_set_value_ptr h7 e val) (\<lambda>h8.
                    bindE (object_commit_add h8 slot) (\<lambda>h9. Inr (0, h9)))))))))))"

definition msm_object_set_bool :: "heap \<Rightarrow> ptr \<Rightarrow> cstr \<Rightarrow> u32 \<Rightarrow> (int \<times> heap) res" where
  "msm_object_set_bool h slot name value =
     (case name of None \<Rightarrow> Inr (- 1, h)
      | Some nm \<Rightarrow> if slot = Null then Inr (- 1, h) else
          let nlen = unat (name_length nm) in
          bindE (object_find_entry h slot nm nlen) (\<lambda>e.
          if e \<noteq> Null
          then bindE (entry_type_id h e) (\<lambda>t.
               if t \<noteq> type_bool then Inl (Abort TypeMismatch)
               else bindE (entry_value_ptr h e) (\<lambda>val.
                    let v = (if value \<noteq> 0 then 1 else 0 :: u32) in
                    bindE (store_u32 h (padd val 4) v) (\<lambda>h1. Inr (0, h1))))
          else bindE (object_add_entry h slot) (\<lambda>(e, h1).
               if e = Null then Inr (- 1, h1)
               else bindE (entry_set_name_hash h1 e (hash_name nm nlen)) (\<lambda>h2.
                    bindE (entry_set_type_id h2 e type_bool) (\<lambda>h3.
                    bindE (entry_set_size h3 e 8) (\<lambda>h4.
                    let (val, h5) = malloc h4 8 in
                    bindE (memset h5 val 0 8) (\<lambda>h6.
                    let v = (if value \<noteq> 0 then 1 else 0 :: u32) in
                    bindE (store_u32 h6 (padd val 4) v) (\<lambda>h7.
                    bindE (entry_set_value_ptr h7 e val) (\<lambda>h8.
                    bindE (object_commit_add h8 slot) (\<lambda>h9. Inr (0, h9)))))))))))"

definition msm_object_set_string ::
    "heap \<Rightarrow> ptr \<Rightarrow> cstr \<Rightarrow> cstr \<Rightarrow> u32 \<Rightarrow> (int \<times> heap) res" where
  "msm_object_set_string h slot name str len =
     (case name of None \<Rightarrow> Inr (- 1, h)
      | Some nm \<Rightarrow> if slot = Null then Inr (- 1, h) else
          let nlen = unat (name_length nm) in
          bindE (object_find_entry h slot nm nlen) (\<lambda>e.
          if e \<noteq> Null
          then bindE (entry_type_id h e) (\<lambda>t.
               if t \<noteq> type_string then Inl (Abort TypeMismatch)
               else bindE (entry_value_ptr h e) (\<lambda>val.
                    bindE (msm_string_set h val str len) (\<lambda>h1. Inr (0, h1))))
          else bindE (object_add_entry h slot) (\<lambda>(e, h1).
               if e = Null then Inr (- 1, h1)
               else bindE (entry_set_name_hash h1 e (hash_name nm nlen)) (\<lambda>h2.
                    bindE (entry_set_type_id h2 e type_string) (\<lambda>h3.
                    bindE (entry_set_size h3 e 24) (\<lambda>h4.
                    let (val, h5) = malloc h4 24 in
                    bindE (memset h5 val 0 24) (\<lambda>h6.
                    bindE (msm_string_set h6 val str len) (\<lambda>h7.
                    bindE (entry_set_value_ptr h7 e val) (\<lambda>h8.
                    bindE (object_commit_add h8 slot) (\<lambda>h9. Inr (0, h9)))))))))))"

definition msm_object_ensure_object :: "heap \<Rightarrow> ptr \<Rightarrow> cstr \<Rightarrow> (ptr \<times> heap) res" where
  "msm_object_ensure_object h slot name =
     (case name of None \<Rightarrow> Inr (Null, h)
      | Some nm \<Rightarrow> if slot = Null then Inr (Null, h) else
          let nlen = unat (name_length nm) in
          bindE (object_find_entry h slot nm nlen) (\<lambda>e.
          if e \<noteq> Null
          then bindE (entry_type_id h e) (\<lambda>t.
               if t \<noteq> type_object then Inl (Abort TypeMismatch)
               else bindE (entry_value_ptr h e) (\<lambda>val. Inr (val, h)))
          else bindE (object_add_entry h slot) (\<lambda>(e, h1).
               if e = Null then Inr (Null, h1)
               else bindE (entry_set_name_hash h1 e (hash_name nm nlen)) (\<lambda>h2.
                    bindE (entry_set_type_id h2 e type_object) (\<lambda>h3.
                    bindE (entry_set_size h3 e 24) (\<lambda>h4.
                    let (val, h5) = malloc h4 24 in
                    bindE (memset h5 val 0 24) (\<lambda>h6.
                    bindE (entry_set_value_ptr h6 e val) (\<lambda>h7.
                    bindE (object_commit_add h7 slot) (\<lambda>h8. Inr (val, h8))))))))))"

section \<open>The getters\<close>

definition msm_object_get_int32 :: "heap \<Rightarrow> ptr \<Rightarrow> cstr \<Rightarrow> u32 res" where
  "msm_object_get_int32 h slot name =
     (case name of None \<Rightarrow> Inr 0
      | Some nm \<Rightarrow> if slot = Null then Inr 0 else
          bindE (object_find_entry h slot nm (unat (name_length nm))) (\<lambda>e.
          if e = Null then Inr 0
          else bindE (entry_type_id h e) (\<lambda>t.
               if t \<noteq> type_int32 then Inr 0
               else bindE (entry_value_ptr h e) (\<lambda>p. load_u32 h (padd p 4)))))"

definition msm_object_get_int64 :: "heap \<Rightarrow> ptr \<Rightarrow> cstr \<Rightarrow> u64 res" where
  "msm_object_get_int64 h slot name =
     (case name of None \<Rightarrow> Inr 0
      | Some nm \<Rightarrow> if slot = Null then Inr 0 else
          bindE (object_find_entry h slot nm (unat (name_length nm))) (\<lambda>e.
          if e = Null then Inr 0
          else bindE (entry_type_id h e) (\<lambda>t.
               if t \<noteq> type_int64 then Inr 0
               else bindE (entry_value_ptr h e) (\<lambda>p. load_u64 h (padd p 8)))))"

definition msm_object_get_float64 :: "heap \<Rightarrow> ptr \<Rightarrow> cstr \<Rightarrow> u64 res" where
  "msm_object_get_float64 h slot name =
     (case name of None \<Rightarrow> Inr 0
      | Some nm \<Rightarrow> if slot = Null then Inr 0 else
          bindE (object_find_entry h slot nm (unat (name_length nm))) (\<lambda>e.
          if e = Null then Inr 0
          else bindE (entry_type_id h e) (\<lambda>t.
               if t \<noteq> type_float64 then Inr 0
               else bindE (entry_value_ptr h e) (\<lambda>p. load_u64 h (padd p 8)))))"

definition msm_object_get_bool :: "heap \<Rightarrow> ptr \<Rightarrow> cstr \<Rightarrow> u32 res" where
  "msm_object_get_bool h slot name =
     (case name of None \<Rightarrow> Inr 0
      | Some nm \<Rightarrow> if slot = Null then Inr 0 else
          bindE (object_find_entry h slot nm (unat (name_length nm))) (\<lambda>e.
          if e = Null then Inr 0
          else bindE (entry_type_id h e) (\<lambda>t.
               if t \<noteq> type_bool then Inr 0
               else bindE (entry_value_ptr h e) (\<lambda>p. load_u32 h (padd p 4)))))"

definition msm_object_get_string :: "heap \<Rightarrow> ptr \<Rightarrow> cstr \<Rightarrow> cstr_ref res" where
  "msm_object_get_string h slot name =
     (case name of None \<Rightarrow> Inr EmptyLiteral
      | Some nm \<Rightarrow> if slot = Null then Inr EmptyLiteral else
          bindE (object_find_entry h slot nm (unat (name_length nm))) (\<lambda>e.
          if e = Null then Inr EmptyLiteral
          else bindE (entry_type_id h e) (\<lambda>t.
               if t \<noteq> type_string then Inr EmptyLiteral
               else bindE (entry_value_ptr h e) (\<lambda>p. msm_string_get h p))))"

definition msm_object_get_slot :: "heap \<Rightarrow> ptr \<Rightarrow> cstr \<Rightarrow> ptr res" where
  "msm_object_get_slot h slot name =
     (case name of None \<Rightarrow> Inr Null
      | Some nm \<Rightarrow> if slot = Null then Inr Null else
          bindE (object_find_entry h slot nm (unat (name_length nm))) (\<lambda>e.
          if e = Null then Inr Null else entry_value_ptr h e))"

section \<open>Remove and queries\<close>

text \<open>The scan for the index to remove; \<open>count\<close>, the sentinel, when there is none.\<close>

fun remove_scan :: "heap \<Rightarrow> ptr \<Rightarrow> u64 \<Rightarrow> u32 \<Rightarrow> u32 \<Rightarrow> nat \<Rightarrow> u32 res" where
  "remove_scan h entries hash count i 0 = Inr count"
| "remove_scan h entries hash count i (Suc r) =
     (let e = padd entries (unat (entry_offset i))
      in bindE (entry_name_hash h e) (\<lambda>k.
           if k = hash then Inr i else remove_scan h entries hash count (i + 1) r))"

definition msm_object_remove :: "heap \<Rightarrow> ptr \<Rightarrow> cstr \<Rightarrow> (int \<times> heap) res" where
  "msm_object_remove h slot name =
     (case name of None \<Rightarrow> Inr (- 1, h)
      | Some nm \<Rightarrow> if slot = Null then Inr (- 1, h) else
          let hash = hash_name nm (c_strlen nm) in
          bindE (atomic_load_ptr h (padd slot 8) Relaxed) (\<lambda>buf.
          if buf = Null then Inr (- 1, h)
          else bindE (obj_buf_count h buf Relaxed) (\<lambda>count.
          if count = 0 then Inr (- 1, h)
          else let entries = obj_buf_entries buf in
          bindE (remove_scan h entries hash count 0 (unat count)) (\<lambda>remove_idx.
          if remove_idx = count then Inr (- 1, h)
          else let new_count = count - 1 in
          if new_count = 0
          then bindE (atomic_store_ptr h (padd slot 8) Null Release) (\<lambda>h1. Inr (0, h1))
          else let new_cap = new_count;
                   new_size = unat (OBJ_BUF_HEADER + entry_offset new_cap);
                   (new_buf, h1) = malloc h new_size
               in if new_buf = Null then Inr (- 1, h1)
               else bindE (obj_buf_set_count h1 new_buf new_count Relaxed) (\<lambda>h2.
                    bindE (obj_buf_set_capacity h2 new_buf new_cap) (\<lambda>h3.
                    let new_entries = obj_buf_entries new_buf;
                        before_bytes = unat (entry_offset remove_idx) in
                    bindE (if 0 < before_bytes then memcpy h3 new_entries entries before_bytes
                           else Inr h3) (\<lambda>h4.
                    let after_count = count - remove_idx - 1 in
                    bindE (if 0 < after_count
                           then memcpy h4 (padd new_entries before_bytes)
                                  (padd entries (unat (entry_offset (remove_idx + 1))))
                                  (unat (entry_offset after_count))
                           else Inr h4) (\<lambda>h5.
                    bindE (atomic_store_ptr h5 (padd slot 8) new_buf Release) (\<lambda>h6.
                    Inr (0, h6))))))))))"

definition msm_object_field_count :: "heap \<Rightarrow> ptr \<Rightarrow> u32 res" where
  "msm_object_field_count h slot =
     (if slot = Null then Inr 0
      else bindE (atomic_load_ptr h (padd slot 8) Acquire) (\<lambda>buf.
        if buf = Null then Inr 0 else obj_buf_count h buf Acquire))"

definition msm_object_has_field :: "heap \<Rightarrow> ptr \<Rightarrow> cstr \<Rightarrow> int res" where
  "msm_object_has_field h slot name =
     (case name of None \<Rightarrow> Inr 0
      | Some nm \<Rightarrow> if slot = Null then Inr 0 else
          bindE (object_find_entry h slot nm (unat (name_length nm))) (\<lambda>e.
          Inr (if e \<noteq> Null then 1 else 0)))"

definition msm_object_get_type :: "heap \<Rightarrow> ptr \<Rightarrow> cstr \<Rightarrow> u16 res" where
  "msm_object_get_type h slot name =
     (case name of None \<Rightarrow> Inr 0
      | Some nm \<Rightarrow> if slot = Null then Inr 0 else
          bindE (object_find_entry h slot nm (unat (name_length nm))) (\<lambda>e.
          if e = Null then Inr 0 else entry_type_id h e))"

end
