(* ===== verification/Msm_Object_Fields.thy ===== *)
theory Msm_Object_Fields
  imports Msm_Object
begin

text \<open>
  The representation of an object and what the object operations do to it. The abstract contents of
  an object are a map from name hashes to values; the concrete ones a list of fields, each with the
  block of its value and, for a string, the block of its character buffer.
\<close>

section \<open>Which blocks an operation may change\<close>

definition modifies :: "heap \<Rightarrow> heap \<Rightarrow> nat set \<Rightarrow> bool" where
  "modifies h h' S \<longleftrightarrow> heap_wf h' \<and> next_block h \<le> next_block h' \<and> oom h' = oom h \<and>
     (\<forall>c < next_block h. c \<notin> S \<longrightarrow> blocks h' c = blocks h c) \<and>
     (\<forall>c < next_block h. map_option length (blocks h' c) = map_option length (blocks h c))"

lemma modifies_refl: "heap_wf h \<Longrightarrow> modifies h h S"
  by (simp add: modifies_def)

lemma modifies_trans:
  assumes "modifies h h1 S" and "modifies h1 h2 T" and "\<And>c. c \<in> T \<Longrightarrow> c \<in> S \<or> next_block h \<le> c"
  shows "modifies h h2 S"
  unfolding modifies_def
proof (intro conjI allI impI)
  fix c assume c: "c < next_block h" "c \<notin> S"
  then have "c \<notin> T" using assms(3) [of c] by auto
  then show "blocks h2 c = blocks h c"
    using c assms(1,2) by (simp add: modifies_def)
qed (use assms in \<open>auto simp: modifies_def\<close>)

lemma modifies_mono: "modifies h h' S \<Longrightarrow> S \<subseteq> T \<Longrightarrow> modifies h h' T"
  by (auto simp: modifies_def)

lemma modifies_put:
  "heap_wf h \<Longrightarrow> blocks h b = Some cs \<Longrightarrow> k + length xs \<le> length cs \<Longrightarrow> b \<in> S \<Longrightarrow>
   modifies h (put a b k xs h) S"
  by (auto simp: modifies_def blocks_put)

lemma modifies_one:
  assumes "heap_wf h'" and "next_block h \<le> next_block h'" and "oom h' = oom h"
    and "blocks h b = Some cs" and "blocks h' b = Some cs'" and "length cs' = length cs"
    and "\<And>c. c < next_block h \<Longrightarrow> c \<noteq> b \<Longrightarrow> blocks h' c = blocks h c"
  shows "modifies h h' {b}"
proof -
  have "map_option length (blocks h' c) = map_option length (blocks h c)" if "c < next_block h" for c
    using assms(4-6) assms(7) [OF that] by (cases "c = b") simp_all
  then show ?thesis using assms by (simp add: modifies_def)
qed

lemma modifies_new_block: "heap_wf h \<Longrightarrow> modifies h (new_block n h) S"
  by (simp add: modifies_def)

lemma modifies_fail_block: "heap_wf h \<Longrightarrow> modifies h (fail_block n h) S"
  by (simp add: modifies_def)

lemma modifies_publishes: "publishes h h' slot q \<Longrightarrow> slot_holds h slot p \<Longrightarrow> modifies h h' {blk slot}"
  by (force simp: publishes_def modifies_def elim: slot_holdsE)

lemma modifies_wf: "modifies h h' S \<Longrightarrow> heap_wf h'"
  by (simp add: modifies_def)

lemma modifies_block:
  "modifies h h' S \<Longrightarrow> heap_wf h \<Longrightarrow> blocks h c = Some cs \<Longrightarrow> c \<notin> S \<Longrightarrow> blocks h' c = Some cs"
  by (auto simp: modifies_def dest: heap_wf_live)

section \<open>Values\<close>

text \<open>The values of fields. A nested object is the pointer its slot holds; its own contents are
  an \<open>object_at\<close> of that slot.\<close>

datatype obj_value =
    VInt32 u32 | VInt64 u64 | VFloat64 u64 | VBool bool | VString "u8 list" | VObject ptr

fun value_type :: "obj_value \<Rightarrow> u16" where
  "value_type (VInt32 _) = type_int32"
| "value_type (VInt64 _) = type_int64"
| "value_type (VFloat64 _) = type_float64"
| "value_type (VBool _) = type_bool"
| "value_type (VString _) = type_string"
| "value_type (VObject _) = type_object"

fun value_size :: "obj_value \<Rightarrow> nat" where
  "value_size (VInt32 _) = 8"
| "value_size (VInt64 _) = 16"
| "value_size (VFloat64 _) = 16"
| "value_size (VBool _) = 8"
| "value_size (VString _) = 24"
| "value_size (VObject _) = 24"

lemmas type_ids = type_bool_def type_int32_def type_float32_def type_int64_def type_float64_def
  type_string_def type_array_def type_object_def

text \<open>\<open>value_cells h b n k xs\<close>: block \<open>b\<close> has \<open>n\<close> cells, with \<open>xs\<close> at \<open>k\<close>.\<close>

definition value_cells :: "heap \<Rightarrow> nat \<Rightarrow> nat \<Rightarrow> nat \<Rightarrow> cell list \<Rightarrow> bool" where
  "value_cells h b n k xs \<longleftrightarrow>
     (\<exists>cs. blocks h b = Some cs \<and> length cs = n \<and> k + length xs \<le> n \<and> piece cs k (length xs) = xs)"

fun value_at :: "heap \<Rightarrow> nat \<Rightarrow> nat option \<Rightarrow> obj_value \<Rightarrow> bool" where
  "value_at h vb sb (VInt32 v) \<longleftrightarrow> sb = None \<and> value_cells h vb 8 4 (word_cells 4 v)"
| "value_at h vb sb (VInt64 v) \<longleftrightarrow> sb = None \<and> value_cells h vb 16 8 (word_cells 8 v)"
| "value_at h vb sb (VFloat64 v) \<longleftrightarrow> sb = None \<and> value_cells h vb 16 8 (word_cells 8 v)"
| "value_at h vb sb (VBool v) \<longleftrightarrow>
     sb = None \<and> value_cells h vb 8 4 (word_cells 4 (if v then 1 else 0 :: u32))"
| "value_at h vb sb (VString s) \<longleftrightarrow>
     (case sb of None \<Rightarrow> value_cells h vb 24 8 (ptr_cells Null) \<and> s = []
      | Some c \<Rightarrow> value_cells h vb 24 8 (ptr_cells (Ptr c 0)) \<and> string_rep h (Ptr vb 0) c s)"
| "value_at h vb sb (VObject q) \<longleftrightarrow> sb = None \<and> value_cells h vb 24 8 (ptr_cells q)"

definition value_blocks :: "nat \<Rightarrow> nat option \<Rightarrow> nat list" where
  "value_blocks vb sb = vb # (case sb of None \<Rightarrow> [] | Some c \<Rightarrow> [c])"

lemma value_cells_cong: "blocks h' b = blocks h b \<Longrightarrow> value_cells h' b n k xs = value_cells h b n k xs"
  by (simp add: value_cells_def)

lemma value_cells_slot: "value_cells h b 24 8 (ptr_cells q) \<Longrightarrow> slot_holds h (Ptr b 0) q"
  by (auto simp: value_cells_def slot_holds_def)

lemma value_cells_live: "value_cells h b n k xs \<Longrightarrow> blocks h b \<noteq> None"
  by (auto simp: value_cells_def)

lemma value_at_cells:
  assumes "value_at h vb sb v"
  obtains k xs where "value_cells h vb (value_size v) k xs"
  using assms by (cases v) (auto split: option.splits)

lemma value_at_live: "value_at h vb sb v \<Longrightarrow> c \<in> set (value_blocks vb sb) \<Longrightarrow> blocks h c \<noteq> None"
  by (cases v) (auto simp: value_blocks_def string_rep_def dest: value_cells_live split: option.splits)

lemma value_at_cong:
  assumes "\<And>c. c \<in> set (value_blocks vb sb) \<Longrightarrow> blocks h' c = blocks h c"
  shows "value_at h' vb sb v = value_at h vb sb v"
proof -
  have vb: "blocks h' vb = blocks h vb" using assms by (simp add: value_blocks_def)
  moreover have "string_rep h' (Ptr vb 0) c s = string_rep h (Ptr vb 0) c s" if "sb = Some c" for c s
  proof -
    have "blocks h' c = blocks h c" using assms that by (simp add: value_blocks_def)
    then show ?thesis using vb by (simp add: string_rep_def slot_holds_cong [of h' "Ptr vb 0" h])
  qed
  ultimately show ?thesis
    by (cases v) (auto simp: value_cells_cong [of h' vb h] split: option.splits)
qed

section \<open>Fields and entries\<close>

datatype obj_field = ObjField (fhash: u64) (fblock: nat) (fbuf: "nat option") (fval: obj_value)

definition footprint :: "obj_field \<Rightarrow> nat list" where
  "footprint f = value_blocks (fblock f) (fbuf f)"

definition field_at :: "heap \<Rightarrow> obj_field \<Rightarrow> bool" where
  "field_at h f \<longleftrightarrow> value_at h (fblock f) (fbuf f) (fval f)"

definition entry_in :: "cell list \<Rightarrow> nat \<Rightarrow> obj_field \<Rightarrow> bool" where
  "entry_in data i f \<longleftrightarrow>
     piece data (24 * i) 8 = word_cells 8 (fhash f) \<and>
     piece data (24 * i + 8) 2 = word_cells 2 (value_type (fval f)) \<and>
     piece data (24 * i + 12) 4 = word_cells 4 (of_nat (value_size (fval f)) :: u32) \<and>
     piece data (24 * i + 16) 8 = ptr_cells (Ptr (fblock f) 0)"

definition entries_in :: "cell list \<Rightarrow> obj_field list \<Rightarrow> bool" where
  "entries_in data fs \<longleftrightarrow> (\<forall>i < length fs. entry_in data i (fs ! i))"

definition object_rep :: "heap \<Rightarrow> ptr \<Rightarrow> nat \<Rightarrow> u32 \<Rightarrow> obj_field list \<Rightarrow> bool" where
  "object_rep h slot b cap fs \<longleftrightarrow>
     slot_holds h slot (Ptr b 0) \<and>
     (\<exists>data. blocks h b = Some (counted (of_nat (length fs)) cap data) \<and>
        length data = 24 * unat cap \<and> entries_in data fs) \<and>
     length fs \<le> unat cap \<and> distinct (map fhash fs) \<and>
     distinct (blk slot # b # concat (map footprint fs)) \<and> (\<forall>f \<in> set fs. field_at h f)"

text \<open>The abstract contents: a map from name hashes to values.\<close>

definition fields_map :: "obj_field list \<Rightarrow> u64 \<rightharpoonup> obj_value" where
  "fields_map fs = map_of (map (\<lambda>f. (fhash f, fval f)) fs)"

text \<open>\<open>object_fs h slot cap fs B\<close>: the object of \<open>slot\<close> has capacity \<open>cap\<close> and fields
  \<open>fs\<close>, in this order, and is spread over the blocks \<open>B\<close>, the one of the slot included.
  \<open>object_at\<close> abstracts from the order and the places.\<close>

definition object_blocks :: "ptr \<Rightarrow> nat \<Rightarrow> obj_field list \<Rightarrow> nat set" where
  "object_blocks slot b fs = set (blk slot # b # concat (map footprint fs))"

definition object_fs :: "heap \<Rightarrow> ptr \<Rightarrow> u32 \<Rightarrow> obj_field list \<Rightarrow> nat set \<Rightarrow> bool" where
  "object_fs h slot cap fs B \<longleftrightarrow>
     slot_holds h slot Null \<and> cap = 0 \<and> fs = [] \<and> B = {blk slot} \<or>
     (\<exists>b. object_rep h slot b cap fs \<and> B = object_blocks slot b fs)"

definition object_at :: "heap \<Rightarrow> ptr \<Rightarrow> u32 \<Rightarrow> (u64 \<rightharpoonup> obj_value) \<Rightarrow> nat set \<Rightarrow> bool" where
  "object_at h slot cap M B \<longleftrightarrow> (\<exists>fs. object_fs h slot cap fs B \<and> M = fields_map fs)"

fun field_pos :: "u64 \<Rightarrow> obj_field list \<Rightarrow> nat option" where
  "field_pos k [] = None"
| "field_pos k (f # fs) = (if fhash f = k then Some 0 else map_option Suc (field_pos k fs))"

lemma field_pos_Some: "field_pos k fs = Some j \<Longrightarrow> j < length fs \<and> fhash (fs ! j) = k"
  by (induction fs arbitrary: j) (auto split: if_splits)

lemma field_pos_None: "field_pos k fs = None \<longleftrightarrow> k \<notin> fhash ` set fs"
  by (induction fs) auto

lemma fields_map_pos:
  "fields_map fs k = (case field_pos k fs of None \<Rightarrow> None | Some j \<Rightarrow> Some (fval (fs ! j)))"
  by (induction fs) (auto simp: fields_map_def split: option.splits)

lemma field_pos_nth: "distinct (map fhash fs) \<Longrightarrow> j < length fs \<Longrightarrow> field_pos (fhash (fs ! j)) fs = Some j"
proof (induction fs arbitrary: j)
  case Nil
  then show ?case by simp
next
  case (Cons f fs)
  then show ?case
    by (cases j) (auto simp: image_iff)
qed

lemma unat_entry_offset [simp]: "unat (entry_offset i) = 24 * unat i"
proof -
  have "unat i * 24 < 18446744073709551616" using unat_u32_less [of i] by linarith
  then show ?thesis by (simp add: entry_offset_def ENTRY_SIZE_def unat_word_ariths)
qed

lemma unat_object_bytes [simp]: "unat (OBJ_BUF_HEADER + entry_offset i) = 8 + 24 * unat i"
proof -
  have "8 + unat i * 24 < 18446744073709551616" using unat_u32_less [of i] by linarith
  then show ?thesis
    by (simp add: OBJ_BUF_HEADER_def entry_offset_def ENTRY_SIZE_def unat_word_ariths)
qed

lemma unat_OBJ_BUF_HEADER [simp]: "unat OBJ_BUF_HEADER = 8"
  by (simp add: OBJ_BUF_HEADER_def)

lemma object_repE:
  assumes "object_rep h slot b cap fs"
  obtains data where "slot_holds h slot (Ptr b 0)" and "slot \<noteq> Null"
    and "blocks h b = Some (counted (of_nat (length fs)) cap data)"
    and "length data = 24 * unat cap" and "entries_in data fs" and "length fs \<le> unat cap"
    and "unat (of_nat (length fs) :: u32) = length fs"
    and "b \<noteq> blk slot" and "distinct (map fhash fs)"
    and "distinct (blk slot # b # concat (map footprint fs))" and "\<forall>f \<in> set fs. field_at h f"
proof -
  obtain data where d: "slot_holds h slot (Ptr b 0)"
      "blocks h b = Some (counted (of_nat (length fs)) cap data)" "length data = 24 * unat cap"
      "entries_in data fs" "length fs \<le> unat cap" "distinct (map fhash fs)"
      "distinct (blk slot # b # concat (map footprint fs))" "\<forall>f \<in> set fs. field_at h f"
    using assms by (auto simp: object_rep_def)
  then have "length fs < 4294967296" using unat_u32_less [of cap] by linarith
  then have "unat (of_nat (length fs) :: u32) = length fs" by (simp add: unat_of_nat)
  moreover have "slot \<noteq> Null" using d(1) by auto
  ultimately show ?thesis using d that by auto
qed

lemma object_repI:
  assumes "slot_holds h slot (Ptr b 0)" and "blocks h b = Some (counted (of_nat (length fs)) cap data)"
    and "length data = 24 * unat cap" and "entries_in data fs" and "length fs \<le> unat cap"
    and "distinct (map fhash fs)" and "distinct (blk slot # b # concat (map footprint fs))"
    and "\<And>f. f \<in> set fs \<Longrightarrow> field_at h f"
  shows "object_rep h slot b cap fs"
  using assms by (auto simp: object_rep_def)

section \<open>Finding\<close>

lemmas obj_buf_defs = obj_buf_count_def obj_buf_capacity_def obj_buf_entries_def
  obj_buf_set_count_def obj_buf_set_capacity_def

lemmas entry_defs = entry_name_hash_def entry_type_id_def entry_size_def entry_value_ptr_def
  load_u64_def load_u32_def load_u16_def load_ptr_def

lemma entry_loads:
  assumes "blocks h b = Some (counted n cap data)" and "24 * i + 24 \<le> length data"
    and "entry_in data i f"
  shows "entry_name_hash h (Ptr b (8 + 24 * i)) = Inr (fhash f)"
    and "entry_type_id h (Ptr b (8 + 24 * i)) = Inr (value_type (fval f))"
    and "entry_size h (Ptr b (8 + 24 * i)) = Inr (of_nat (value_size (fval f)))"
    and "entry_value_ptr h (Ptr b (8 + 24 * i)) = Inr (Ptr (fblock f) 0)"
  using assms piece_counted_data [of n cap data "24 * i + 8" 2]
    piece_counted_data [of n cap data "24 * i + 12" 4] piece_counted_data [of n cap data "24 * i + 16" 8]
  by (simp_all add: entry_defs entry_in_def)

lemma unat_plus_1_u32: "unat (i :: u32) + 1 < 4294967296 \<Longrightarrow> unat (i + 1) = unat i + 1"
  by (simp add: unat_word_ariths)

lemma find_entry_scan_pos:
  assumes "blocks h b = Some (counted n cap data)" and "24 * length fs \<le> length data"
    and "entries_in data fs" and "length fs < 4294967296" and "unat i + r = length fs"
  shows "find_entry_scan h (Ptr b 8) k i r =
    Inr (case field_pos k (drop (unat i) fs) of None \<Rightarrow> Null | Some j \<Rightarrow> Ptr b (8 + 24 * (unat i + j)))"
  using assms(5)
proof (induction r arbitrary: i)
  case 0
  then show ?case by simp
next
  case (Suc r)
  then have i: "unat i < length fs" by simp
  have u: "unat (i + 1) = unat i + 1" if "0 < r" 
    using unat_plus_1_u32 [of i] Suc.prems assms(4) that by simp
  have hash: "entry_name_hash h (Ptr b (8 + 24 * unat i)) = Inr (fhash (fs ! unat i))"
    using assms i by (intro entry_loads(1)) (auto simp: entries_in_def)
  have d: "drop (unat i) fs = fs ! unat i # drop (unat i + 1) fs"
    using i by (simp add: Cons_nth_drop_Suc)
  show ?case
  proof (cases "r = 0")
    case True
    then have "drop (unat i + 1) fs = []" using Suc.prems by simp
    with True show ?thesis by (simp add: hash d)
  next
    case False
    then have "find_entry_scan h (Ptr b 8) k (i + 1) r = Inr (case field_pos k (drop (unat i + 1) fs) of
        None \<Rightarrow> Null | Some j \<Rightarrow> Ptr b (8 + 24 * (unat i + 1 + j)))"
      using Suc.IH [of "i + 1"] Suc.prems u by (simp split: option.splits)
    then show ?thesis by (simp add: hash d split: option.splits)
  qed
qed

lemma remove_scan_pos:
  assumes "blocks h b = Some (counted n cap data)" and "24 * length fs \<le> length data"
    and "entries_in data fs" and "length fs < 4294967296" and "unat i + r = length fs"
  shows "remove_scan h (Ptr b 8) k count i r =
    Inr (case field_pos k (drop (unat i) fs) of None \<Rightarrow> count | Some j \<Rightarrow> i + of_nat j)"
  using assms(5)
proof (induction r arbitrary: i)
  case 0
  then show ?case by simp
next
  case (Suc r)
  then have i: "unat i < length fs" by simp
  have u: "unat (i + 1) = unat i + 1" if "0 < r" 
    using unat_plus_1_u32 [of i] Suc.prems assms(4) that by simp
  have hash: "entry_name_hash h (Ptr b (8 + 24 * unat i)) = Inr (fhash (fs ! unat i))"
    using assms i by (intro entry_loads(1)) (auto simp: entries_in_def)
  have d: "drop (unat i) fs = fs ! unat i # drop (unat i + 1) fs"
    using i by (simp add: Cons_nth_drop_Suc)
  show ?case
  proof (cases "r = 0")
    case True
    then have "drop (unat i + 1) fs = []" using Suc.prems by simp
    with True show ?thesis by (simp add: hash d)
  next
    case False
    then have "remove_scan h (Ptr b 8) k count (i + 1) r = Inr (case field_pos k (drop (unat i + 1) fs) of
        None \<Rightarrow> count | Some j \<Rightarrow> i + 1 + of_nat j)"
      using Suc.IH [of "i + 1"] Suc.prems u by simp
    then show ?thesis by (simp add: hash d add.assoc split: option.splits)
  qed
qed

lemma find_rep:
  assumes "object_rep h slot b cap fs"
  shows "object_find_entry_by_hash h slot k =
    Inr (case field_pos k fs of None \<Rightarrow> Null | Some j \<Rightarrow> Ptr b (8 + 24 * j))"
proof -
  obtain data where d: "slot_holds h slot (Ptr b 0)"
      "blocks h b = Some (counted (of_nat (length fs)) cap data)"
      "length data = 24 * unat cap" "entries_in data fs" "length fs \<le> unat cap"
      "unat (of_nat (length fs) :: u32) = length fs"
    using assms by (rule object_repE)
  have z: "(of_nat (length fs) = (0 :: u32)) = (fs = [])"
    using d(6) by (metis length_0_conv unat_eq_zero)
  have "find_entry_scan h (Ptr b 8) k 0 (length fs) =
      Inr (case field_pos k fs of None \<Rightarrow> Null | Some j \<Rightarrow> Ptr b (8 + 24 * j))"
    using find_entry_scan_pos [OF d(2) _ d(4), of 0 "length fs" k] d(3,5) unat_u32_less [of cap]
    by (simp split: option.splits)
  then show ?thesis
    by (simp add: object_find_entry_by_hash_def load_slot [OF d(1)] obj_buf_defs
        atomic_load_u32_size [OF d(2)] z d(6))
qed

lemma find_null: "slot_holds h slot Null \<Longrightarrow> object_find_entry_by_hash h slot k = Inr Null"
  by (simp add: object_find_entry_by_hash_def load_slot)


lemma object_atI:
  "object_rep h slot b cap fs \<Longrightarrow> fields_map fs = M \<Longrightarrow> object_at h slot cap M (object_blocks slot b fs)"
  unfolding object_at_def object_fs_def by blast

lemma object_fs_slot: "object_fs h slot cap fs B \<Longrightarrow> \<exists>q. slot_holds h slot q"
  by (auto simp: object_fs_def object_rep_def)

lemma object_fs_find_None:
  assumes "object_fs h slot cap fs B" and "field_pos k fs = None"
  shows "object_find_entry_by_hash h slot k = Inr Null"
  using assms find_null find_rep by (auto simp: object_fs_def)

lemma object_fs_hashes: "object_fs h slot cap fs B \<Longrightarrow> distinct (map fhash fs)"
  by (auto simp: object_fs_def object_rep_def)

lemma object_fs_find_Some:
  assumes "object_fs h slot cap fs B" and "field_pos k fs = Some j"
  obtains b where "object_rep h slot b cap fs" and "B = object_blocks slot b fs"
    and "object_find_entry_by_hash h slot k = Inr (Ptr b (8 + 24 * j))"
    and "entry_type_id h (Ptr b (8 + 24 * j)) = Inr (value_type (fval (fs ! j)))"
    and "entry_value_ptr h (Ptr b (8 + 24 * j)) = Inr (Ptr (fblock (fs ! j)) 0)"
    and "field_at h (fs ! j)"
proof -
  have j: "j < length fs" using field_pos_Some [OF assms(2)] by simp
  then obtain b where b: "object_rep h slot b cap fs" "B = object_blocks slot b fs"
    using assms(1) by (auto simp: object_fs_def)
  obtain data where d: "blocks h b = Some (counted (of_nat (length fs)) cap data)"
      "length data = 24 * unat cap" "entries_in data fs" "length fs \<le> unat cap"
      "\<forall>f \<in> set fs. field_at h f"
    using b(1) by (rule object_repE)
  have l: "24 * j + 24 \<le> length data" using d(2,4) j by linarith
  have "entry_in data j (fs ! j)" using d(3) j by (simp add: entries_in_def)
  note loads = entry_loads [OF d(1) l this]
  from b find_rep [OF b(1), of k] loads d(5) j assms(2) show ?thesis
    by (intro that [of b]) simp_all
qed

end
