(* ===== verification/Msm_Object_Update.thy ===== *)
theory Msm_Object_Update
  imports Msm_Object_Fields
begin

text \<open>
  How the representation of an object changes: growing the entries buffer, filling a new entry and
  committing it, and overwriting the value of an entry that exists.
\<close>

section \<open>Frames\<close>

lemma piece_of_take:
  assumes "take m xs = take m ys" and "k + n \<le> m"
  shows "piece xs k n = piece ys k n"
  using assms by (rule piece_cong_take)

lemma entry_in_cong:
  assumes "take m data = take m data'" and "24 * i + 24 \<le> m"
  shows "entry_in data i f = entry_in data' i f"
  using assms piece_of_take [OF assms(1)] by (simp add: entry_in_def)

lemma entries_in_cong:
  assumes "take (24 * length fs) data = take (24 * length fs) data'"
  shows "entries_in data fs = entries_in data' fs"
proof -
  have "entry_in data i f = entry_in data' i f" if "i < length fs" for i f
    using that by (intro entry_in_cong [OF assms]) linarith
  then show ?thesis by (auto simp: entries_in_def)
qed

lemma field_at_live: "field_at h f \<Longrightarrow> heap_wf h \<Longrightarrow> c \<in> set (footprint f) \<Longrightarrow> c < next_block h"
  unfolding field_at_def footprint_def
  by (drule (1) value_at_live) (auto dest: heap_wf_live)

lemma field_frame:
  assumes "field_at h f" and "modifies h h' S" and "heap_wf h" and "set (footprint f) \<inter> S = {}"
  shows "field_at h' f"
proof -
  have "blocks h' c = blocks h c" if "c \<in> set (value_blocks (fblock f) (fbuf f))" for c
  proof -
    have "c \<in> set (footprint f)" using that by (simp add: footprint_def)
    then have "c < next_block h" "c \<notin> S" using field_at_live [OF assms(1,3)] assms(4) by auto
    then show ?thesis using assms(2) by (simp add: modifies_def)
  qed
  then have "value_at h' (fblock f) (fbuf f) (fval f) = value_at h (fblock f) (fbuf f) (fval f)"
    by (rule value_at_cong)
  then show ?thesis using assms(1) by (simp add: field_at_def)
qed

lemma fields_frame:
  assumes "object_rep h slot b cap fs" and "modifies h h' S" and "heap_wf h"
    and "S \<subseteq> {blk slot, b}" and "f \<in> set fs"
  shows "field_at h' f"
proof (rule field_frame [OF _ assms(2,3)])
  show "field_at h f" using assms(1,5) by (simp add: object_rep_def)
  have "blk slot \<notin> set (footprint f)" "b \<notin> set (footprint f)"
    using assms(1,5) by (auto simp: object_rep_def)
  then show "set (footprint f) \<inter> S = {}" using assms(4) by auto
qed

lemma object_rep_slot: "object_rep h slot b cap fs \<Longrightarrow> slot_holds h slot (Ptr b 0)"
  by (simp add: object_rep_def)

lemma object_rep_block_unique:
  assumes "object_rep h slot b cap fs" and "object_rep h slot c cap' fs'"
  shows "c = b"
  using slot_holds_unique [OF object_rep_slot [OF assms(1)] object_rep_slot [OF assms(2)]] by simp

lemma object_rep_fresh:
  assumes "object_rep h slot b cap fs" and "heap_wf h"
  shows "next_block h \<notin> set (concat (map footprint fs))"
  using assms by (force simp: object_rep_def dest: field_at_live)

section \<open>Room for one more entry\<close>

definition obj_grown_cap :: "u32 \<Rightarrow> u32" where
  "obj_grown_cap cap = (if cap = 0 then 4 else cap * 2)"

lemma unat_obj_grown_cap:
  "cap < 0x80000000 \<Longrightarrow> unat (obj_grown_cap cap) = (if cap = 0 then 4 else 2 * unat cap)"
  by (auto simp: obj_grown_cap_def unat_word_ariths word_less_nat_alt)

lemma add_room:
  assumes "object_rep h slot b cap fs" and "length fs < unat cap"
  shows "object_add_entry h slot = Inr (Ptr b (8 + 24 * length fs), h)"
proof -
  obtain data where d: "slot_holds h slot (Ptr b 0)"
      "blocks h b = Some (counted (of_nat (length fs)) cap data)"
      "unat (of_nat (length fs) :: u32) = length fs"
    using assms(1) by (rule object_repE)
  then have "\<not> cap \<le> of_nat (length fs)" using assms(2) by (simp add: word_le_nat_alt)
  then show ?thesis
    by (simp add: object_add_entry_def load_slot [OF d(1)] obj_buf_defs
        atomic_load_u32_size [OF d(2)] atomic_load_u32_cap [OF d(2)] d(3))
qed

lemma add_grow:
  assumes rep: "object_rep h slot b cap fs" and wf: "heap_wf h"
    and full: "length fs = unat cap" and cap: "cap < 0x80000000"
    and mem: "\<not> oom h (next_block h) (8 + 24 * unat (obj_grown_cap cap))"
  obtains h' where "object_add_entry h slot = Inr (Ptr (next_block h) (8 + 24 * length fs), h')"
    and "publishes h h' slot (Ptr (next_block h) 0)"
    and "object_rep h' slot (next_block h) (obj_grown_cap cap) fs"
proof -
  let ?nb = "next_block h" and ?n = "of_nat (length fs) :: u32" and ?k = "24 * length fs"
  let ?m = "24 * unat (obj_grown_cap cap)"
  obtain data where slot: "slot_holds h slot (Ptr b 0)" and nn: "slot \<noteq> Null"
    and blk: "blocks h b = Some (counted ?n cap data)" and len: "length data = 24 * unat cap"
    and ent: "entries_in data fs" and un: "unat ?n = length fs"
    and dist: "distinct (map fhash fs)" "distinct (blk slot # b # concat (map footprint fs))"
    using rep by (rule object_repE)
  have capn: "cap = ?n" using full un by (simp add: word_unat_eq_iff)
  have kd: "?k \<le> length data" using full len by simp
  have km: "?k \<le> ?m" using full unat_obj_grown_cap [OF cap] by auto
  have fresh: "?nb \<noteq> blk slot" by (rule slot_holds_fresh [OF wf slot])
  have k0: "?n = 0 \<Longrightarrow> ?k = 0" using un by (metis mult_0_right unat_0)
  from wf slot blk kd km k0 mem show ?thesis
  proof (rule grow_counted [where new_cap = "obj_grown_cap cap"])
    fix h1 h2 h3 h4 h5 h6
    assume h: "malloc h (8 + ?m) = (Ptr ?nb 0, h1)" "memset h1 (Ptr ?nb 0) 0 (8 + ?m) = Inr h2"
      "atomic_store_u32 h2 (Ptr ?nb 0) ?n Relaxed = Inr h3"
      "atomic_store_u32 h3 (Ptr ?nb 4) (obj_grown_cap cap) Relaxed = Inr h4"
      "(if 0 < ?n then memcpy h4 (Ptr ?nb 8) (Ptr b 8) ?k else Inr h4) = Inr h5"
      "atomic_store_ptr h5 (padd slot 8) (Ptr ?nb 0) Release = Inr h6"
      and h6: "publishes h h6 slot (Ptr ?nb 0)" "blocks h6 ?nb =
        Some (counted ?n (obj_grown_cap cap) (take ?k data @ replicate (?m - ?k) (Byte 0)))"
    have "object_add_entry h slot = Inr (Ptr ?nb (8 + ?k), h6)"
      using h un by (simp add: object_add_entry_def load_slot [OF slot] obj_buf_defs Let_def
          atomic_load_u32_size [OF blk] atomic_load_u32_cap [OF blk] capn
          flip: obj_grown_cap_def split: if_splits)
    moreover have "object_rep h6 slot ?nb (obj_grown_cap cap) fs"
    proof (rule object_repI)
      show "slot_holds h6 slot (Ptr ?nb 0)" by (rule publishes_slot [OF h6(1) slot])
      show "length (take ?k data @ replicate (?m - ?k) (Byte 0)) = 24 * unat (obj_grown_cap cap)"
        using kd km by simp
      show "entries_in (take ?k data @ replicate (?m - ?k) (Byte 0)) fs"
        using ent kd by (subst entries_in_cong [of fs _ data]) simp_all
      show "distinct (blk slot # ?nb # concat (map footprint fs))"
        using dist(2) fresh object_rep_fresh [OF rep wf] by auto
      show "length fs \<le> unat (obj_grown_cap cap)" using km by simp
      show "field_at h6 f" if "f \<in> set fs" for f
        using that by (intro fields_frame [OF rep modifies_publishes [OF h6(1) object_rep_slot [OF rep]] wf]) auto
    qed (use dist h6 in simp_all)
    ultimately show ?thesis using h6(1) that by blast
  qed
qed

lemma add_first:
  assumes slot: "slot_holds h slot Null" and wf: "heap_wf h"
    and mem: "\<not> oom h (next_block h) (8 + 24 * 4)"
  obtains h' where "object_add_entry h slot = Inr (Ptr (next_block h) 8, h')"
    and "publishes h h' slot (Ptr (next_block h) 0)"
    and "object_rep h' slot (next_block h) 4 []"
proof -
  let ?nb = "next_block h"
  from wf slot mem show ?thesis
  proof (rule first_counted [where new_cap = 4])
    fix h1 h2 h3 h4 h6
    assume h: "malloc h (8 + 24 * 4) = (Ptr ?nb 0, h1)"
      "memset h1 (Ptr ?nb 0) 0 (8 + 24 * 4) = Inr h2"
      "atomic_store_u32 h2 (Ptr ?nb 0) 0 Relaxed = Inr h3"
      "atomic_store_u32 h3 (Ptr ?nb 4) 4 Relaxed = Inr h4"
      "atomic_store_ptr h4 (padd slot 8) (Ptr ?nb 0) Release = Inr h6"
      and h6: "publishes h h6 slot (Ptr ?nb 0)"
        "blocks h6 ?nb = Some (counted 0 4 (replicate (24 * 4) (Byte 0)))"
    have "object_add_entry h slot = Inr (Ptr ?nb 8, h6)"
      using h by (simp add: object_add_entry_def load_slot [OF slot] obj_buf_defs)
    moreover have "object_rep h6 slot ?nb 4 []"
      using publishes_slot [OF h6(1) slot] h6(2) slot_holds_fresh [OF wf slot]
      by (intro object_repI [where data = "replicate (24 * 4) (Byte 0)"]) (auto simp: entries_in_def)
    ultimately show ?thesis using h6(1) that by blast
  qed
qed

definition can_add :: "heap \<Rightarrow> u32 \<Rightarrow> nat \<Rightarrow> bool" where
  "can_add h cap n \<longleftrightarrow> n < unat cap \<or>
     cap < 0x80000000 \<and> \<not> oom h (next_block h) (8 + 24 * unat (obj_grown_cap cap))"

lemma add_spec:
  assumes obj: "object_fs h slot cap fs B" and wf: "heap_wf h" and can: "can_add h cap (length fs)"
  obtains b h' where "object_add_entry h slot = Inr (Ptr b (8 + 24 * length fs), h')"
    and "object_rep h' slot b (if length fs < unat cap then cap else obj_grown_cap cap) fs"
    and "length fs < unat (if length fs < unat cap then cap else obj_grown_cap cap)"
    and "modifies h h' {blk slot}" and "b \<in> B \<or> b = next_block h" and "blk slot \<in> B"
proof -
  have B: "blk slot \<in> B" using obj by (auto simp: object_fs_def object_blocks_def)
  consider (null) "slot_holds h slot Null" "cap = 0" "fs = []"
    | (room) b where "object_rep h slot b cap fs" "length fs < unat cap" "b \<in> B"
    | (full) b where "object_rep h slot b cap fs" "length fs = unat cap"
    using obj by (fastforce simp: object_fs_def object_rep_def object_blocks_def)
  then show ?thesis
  proof cases
    case null
    then have "\<not> oom h (next_block h) (8 + 24 * 4)"
      using can by (simp add: can_add_def obj_grown_cap_def)
    from null(1) wf this show ?thesis
    proof (rule add_first)
      fix h'
      assume "object_add_entry h slot = Inr (Ptr (next_block h) 8, h')"
        "publishes h h' slot (Ptr (next_block h) 0)" "object_rep h' slot (next_block h) 4 []"
      with null modifies_publishes [of h h' slot _ Null] show ?thesis
        by (intro that [of "next_block h" h']) (simp_all add: obj_grown_cap_def B)
    qed
  next
    case room
    show ?thesis
    proof (rule that [of b h])
      show "object_add_entry h slot = Inr (Ptr b (8 + 24 * length fs), h)"
        by (rule add_room [OF room(1,2)])
      show "modifies h h {blk slot}" by (rule modifies_refl [OF wf])
    qed (use room B in simp_all)
  next
    case full
    then have cap: "cap < 0x80000000"
      and mem: "\<not> oom h (next_block h) (8 + 24 * unat (obj_grown_cap cap))"
      using can by (auto simp: can_add_def)
    have "length fs < unat (obj_grown_cap cap)"
      using full(2) unat_obj_grown_cap [OF cap] by (auto simp: unat_eq_zero_iff unat_gt_0)
    with full(2) have cap': "(if length fs < unat cap then cap else obj_grown_cap cap) = obj_grown_cap cap"
      "length fs < unat (obj_grown_cap cap)" by simp_all
    show ?thesis
    proof (rule add_grow [OF full(1) wf full(2) cap mem])
      fix h'
      assume "object_add_entry h slot = Inr (Ptr (next_block h) (8 + 24 * length fs), h')"
        "publishes h h' slot (Ptr (next_block h) 0)"
        "object_rep h' slot (next_block h) (obj_grown_cap cap) fs"
      with cap' modifies_publishes [OF _ object_rep_slot [OF full(1)], of h'] show ?thesis by (intro that [of "next_block h" h']) (simp_all add: B)
    qed
  qed
qed

section \<open>Writing and committing a new entry\<close>

definition write_entry :: "cell list \<Rightarrow> nat \<Rightarrow> obj_field \<Rightarrow> cell list" where
  "write_entry data n f =
     patch (patch (patch (patch data (24 * n) (word_cells 8 (fhash f)))
       (24 * n + 8) (word_cells 2 (value_type (fval f))))
       (24 * n + 12) (word_cells 4 (of_nat (value_size (fval f)) :: u32)))
       (24 * n + 16) (ptr_cells (Ptr (fblock f) 0))"

lemma write_entry_facts:
  assumes "24 * n + 24 \<le> length data"
  shows "length (write_entry data n f) = length data"
    and "take (24 * n) (write_entry data n f) = take (24 * n) data"
    and "entry_in (write_entry data n f) n f"
  using assms by (simp_all add: write_entry_def take_patch_before entry_in_def piece_patch_disjoint)

lemma entries_in_snoc:
  assumes "entries_in data fs" and "24 * length fs + 24 \<le> length data"
  shows "entries_in (write_entry data (length fs) f) (fs @ [f])"
proof -
  have "entries_in (write_entry data (length fs) f) fs"
    using assms entries_in_cong write_entry_facts(2) by metis
  then show ?thesis
    using write_entry_facts(3) [OF assms(2)]
    by (auto simp: entries_in_def nth_append less_Suc_eq)
qed

lemma object_rep_snoc:
  assumes rep: "object_rep h slot b cap fs" and wf: "heap_wf h" and "modifies h h' {b}"
    and blk: "blocks h b = Some (counted (of_nat (length fs)) cap data)"
    and blk': "blocks h' b = Some (counted (of_nat (length fs + 1)) cap (write_entry data (length fs) f))"
    and room: "length fs < unat cap" and new: "fhash f \<notin> fhash ` set fs"
    and f: "field_at h' f" "\<forall>c \<in> set (footprint f). next_block h \<le> c" "distinct (footprint f)"
  shows "object_rep h' slot b cap (fs @ [f])"
proof -
  obtain data0 where d: "slot_holds h slot (Ptr b 0)"
      "blocks h b = Some (counted (of_nat (length fs)) cap data0)" "length data0 = 24 * unat cap"
      "entries_in data0 fs" "b \<noteq> blk slot" "distinct (map fhash fs)"
      "distinct (blk slot # b # concat (map footprint fs))" "\<forall>f \<in> set fs. field_at h f"
    using rep by (rule object_repE)
  then have dd: "data0 = data" using blk by simp
  have live: "c < next_block h" if "c \<in> set (blk slot # b # concat (map footprint fs))" for c
    using that d(1,2,8) slot_holds_live [OF d(1)] wf field_at_live heap_wf_live
    by (auto simp: field_at_live)
  have "blocks h' (blk slot) = blocks h (blk slot)"
    using assms(3) live [of "blk slot"] d(5) by (simp add: modifies_def)
  then have slot: "slot_holds h' slot (Ptr b 0)" using d(1) slot_holds_cong by blast
  have "set (footprint f) \<inter> set (blk slot # b # concat (map footprint fs)) = {}"
    using live f(2) by (meson disjoint_iff leD)
  then have dist: "distinct (blk slot # b # concat (map footprint (fs @ [f])))"
    using d(7) f(3) by auto
  show ?thesis
  proof (rule object_repI [OF slot])
    show "entries_in (write_entry data (length fs) f) (fs @ [f])"
      using d(3,4) room unfolding dd by (intro entries_in_snoc) simp_all
    show "length (write_entry data (length fs) f) = 24 * unat cap"
      using d(3) room unfolding dd by (subst write_entry_facts(1)) simp_all
    show "field_at h' g" if "g \<in> set (fs @ [f])" for g
      using that f(1) fields_frame [OF rep assms(3) wf, of g] by auto
  qed (use blk' room new d(6) dist in auto)
qed

text \<open>The three writes into the entry before the value is allocated, and the two after it.\<close>

lemma head_writes:
  assumes "blocks h b = Some (counted n cap data)" and "24 * i + 24 \<le> length data"
  shows "entry_set_name_hash h (Ptr b (8 + 24 * i)) k =
      Inr (put Plain b (8 + 24 * i) (word_cells 8 k) h)"
    and "entry_set_type_id h (Ptr b (8 + 24 * i)) t =
      Inr (put Plain b (8 + (24 * i + 8)) (word_cells 2 t) h)"
    and "entry_set_size h (Ptr b (8 + 24 * i)) s =
      Inr (put Plain b (8 + (24 * i + 12)) (word_cells 4 s) h)"
    and "entry_set_value_ptr h (Ptr b (8 + 24 * i)) q =
      Inr (put Plain b (8 + (24 * i + 16)) (ptr_cells q) h)"
  using assms by (simp_all add: entry_set_name_hash_def entry_set_type_id_def entry_set_size_def
      entry_set_value_ptr_def store_u64_def store_u16_def store_u32_def store_ptr_def)

text \<open>The first three of these writes, in the order of the setters.\<close>

definition head_cells :: "cell list \<Rightarrow> nat \<Rightarrow> u64 \<Rightarrow> u16 \<Rightarrow> u32 \<Rightarrow> cell list" where
  "head_cells data i k t s = patch (patch (patch data (24 * i) (word_cells 8 k))
     (24 * i + 8) (word_cells 2 t)) (24 * i + 12) (word_cells 4 s)"

lemma length_head_cells: "24 * i + 24 \<le> length data \<Longrightarrow> length (head_cells data i k t s) = length data"
  by (simp add: head_cells_def)

lemma write_entry_head:
  "patch (head_cells data i (fhash f) (value_type (fval f)) (of_nat (value_size (fval f))))
     (24 * i + 16) (ptr_cells (Ptr (fblock f) 0)) = write_entry data i f"
  by (simp add: head_cells_def write_entry_def)

lemma head_written:
  assumes blk: "blocks h b = Some (counted n cap data)" and l: "24 * i + 24 \<le> length data"
  obtains h2 h3 h4 where "entry_set_name_hash h (Ptr b (8 + 24 * i)) k = Inr h2"
    and "entry_set_type_id h2 (Ptr b (8 + 24 * i)) t = Inr h3"
    and "entry_set_size h3 (Ptr b (8 + 24 * i)) s = Inr h4"
    and "heap_wf h \<Longrightarrow> modifies h h4 {b}" and "next_block h4 = next_block h" and "oom h4 = oom h"
    and "blocks h4 b = Some (counted n cap (head_cells data i k t s))"
proof -
  let ?h2 = "put Plain b (8 + 24 * i) (word_cells 8 k) h"
  let ?h3 = "put Plain b (8 + (24 * i + 8)) (word_cells 2 t) ?h2"
  let ?h4 = "put Plain b (8 + (24 * i + 12)) (word_cells 4 s) ?h3"
  have blk2: "blocks ?h2 b = Some (counted n cap (patch data (24 * i) (word_cells 8 k)))"
    using put_simps(1) [OF blk] by (simp only: patch_counted_data)
  have blk3: "blocks ?h3 b = Some (counted n cap (patch (patch data (24 * i) (word_cells 8 k))
      (24 * i + 8) (word_cells 2 t)))"
    using put_simps(1) [OF blk2] by (simp only: patch_counted_data)
  have blk4: "blocks ?h4 b = Some (counted n cap (head_cells data i k t s))"
    using put_simps(1) [OF blk3] by (simp only: patch_counted_data head_cells_def)
  show ?thesis
  proof (rule that)
    show "entry_set_name_hash h (Ptr b (8 + 24 * i)) k = Inr ?h2" by (rule head_writes(1) [OF blk l])
    show "entry_set_type_id ?h2 (Ptr b (8 + 24 * i)) t = Inr ?h3" by (rule head_writes(2) [OF blk2]) (use l in simp)
    show "entry_set_size ?h3 (Ptr b (8 + 24 * i)) s = Inr ?h4" by (rule head_writes(3) [OF blk3]) (use l in simp)
    show "modifies h ?h4 {b}" if "heap_wf h"
      using that l by (intro modifies_one [OF _ _ _ blk blk4]) (simp_all add: length_head_cells)
    show "blocks ?h4 b = Some (counted n cap (head_cells data i k t s))" by (rule blk4)
  qed simp_all
qed

lemma commit_add_runs:
  assumes "slot_holds h slot (Ptr b 0)" and "blocks h b = Some (counted n cap data)"
  shows "object_commit_add h slot = Inr (put (Atomic Release) b 0 (word_cells 4 (n + 1)) h)"
  using assms by (simp add: object_commit_add_def load_slot obj_buf_defs atomic_load_u32_size
      atomic_store_u32_at)

text \<open>The last write of the head and the release store of the count: the field is one of the object.\<close>

lemma head_committed:
  assumes rep: "object_rep h slot b cap fs" and wf: "heap_wf h"
    and blk: "blocks h b = Some (counted (of_nat (length fs)) cap data)"
    and blk7: "blocks h7 b = Some (counted (of_nat (length fs)) cap
      (head_cells data (length fs) (fhash f) (value_type (fval f)) (of_nat (value_size (fval f)))))"
    and m7: "modifies h h7 {b}" and room: "length fs < unat cap" and new: "fhash f \<notin> fhash ` set fs"
    and f: "field_at h7 f" "\<forall>c \<in> set (footprint f). next_block h \<le> c" "distinct (footprint f)"
  obtains h8 h9 where "entry_set_value_ptr h7 (Ptr b (8 + 24 * length fs)) (Ptr (fblock f) 0) = Inr h8"
    and "object_commit_add h8 slot = Inr h9" and "modifies h h9 {b}" and "object_rep h9 slot b cap (fs @ [f])"
proof -
  let ?n = "length fs" and ?N = "of_nat (length fs) :: u32"
  let ?h8 = "put Plain b (8 + (24 * ?n + 16)) (ptr_cells (Ptr (fblock f) 0)) h7"
  let ?h9 = "put (Atomic Release) b 0 (word_cells 4 (?N + 1)) ?h8"
  have slot: "slot_holds h slot (Ptr b 0)" and bs: "b \<noteq> blk slot" and l: "24 * ?n + 24 \<le> length data"
    using rep room blk by (auto elim!: object_repE)
  have "slot_holds h7 slot (Ptr b 0)"
    using slot m7 bs slot_holds_live [OF slot] wf
    by (subst slot_holds_cong [of _ _ h]) (auto simp: modifies_def dest: heap_wf_live)
  then have slot8: "slot_holds ?h8 slot (Ptr b 0)" using bs by (simp add: slot_holds_put_other)
  have blk8: "blocks ?h8 b = Some (counted ?N cap (write_entry data ?n f))"
    using put_simps(1) [OF blk7] by (simp only: patch_counted_data write_entry_head)
  have blk9: "blocks ?h9 b = Some (counted (of_nat (?n + 1)) cap (write_entry data ?n f))"
    using put_simps(1) [OF blk8] by (simp only: patch_counted_size of_nat_add of_nat_1)
  have m9: "modifies h ?h9 {b}"
    using m7 l by (intro modifies_one [OF _ _ _ blk blk9]) (simp_all add: modifies_def write_entry_facts(1))
  have "b < next_block h" using heap_wf_live [OF wf blk] .
  then have "value_at ?h9 (fblock f) (fbuf f) (fval f) = value_at h7 (fblock f) (fbuf f) (fval f)"
    using f(2) by (intro value_at_cong) (auto simp: footprint_def blocks_put)
  then have f9: "field_at ?h9 f" using f(1) by (simp add: field_at_def)
  show ?thesis
  proof (rule that [OF _ _ m9])
    show "entry_set_value_ptr h7 (Ptr b (8 + 24 * ?n)) (Ptr (fblock f) 0) = Inr ?h8"
      using l by (intro head_writes(4) [OF blk7]) (simp add: length_head_cells)
    show "object_commit_add ?h8 slot = Inr ?h9" by (rule commit_add_runs [OF slot8 blk8])
    show "object_rep ?h9 slot b cap (fs @ [f])"
      by (rule object_rep_snoc [OF rep wf m9 blk blk9 room new f9 f(2,3)])
  qed
qed

section \<open>Replacing the value of a field\<close>

lemma distinct_replace:
  assumes "distinct (us @ as @ ws)" and "distinct bs" and "set bs \<subseteq> insert c (set as)"
    and "c \<notin> set (us @ as @ ws)"
  shows "distinct (us @ bs @ ws)"
proof -
  have "set bs \<inter> set us = {}" "set bs \<inter> set ws = {}"
    using assms(1,4) subsetD [OF assms(3)] by fastforce+
  then show ?thesis using assms(1,2) by auto
qed

lemma entries_in_update:
  assumes "entries_in data (xs @ f # ys)" and "fhash f' = fhash f" and "fblock f' = fblock f"
    and "value_type (fval f') = value_type (fval f)" and "value_size (fval f') = value_size (fval f)"
  shows "entries_in data (xs @ f' # ys)"
proof -
  have "entry_in data i ((xs @ f' # ys) ! i)" if "i < length (xs @ f # ys)" for i
  proof (cases "i = length xs")
    case True
    have "entry_in data i ((xs @ f # ys) ! i)" using assms(1) that by (simp add: entries_in_def)
    with True assms(2-5) show ?thesis by (simp add: entry_in_def)
  next
    case False
    then have "(xs @ f' # ys) ! i = (xs @ f # ys) ! i" by (simp add: nth_append nth_Cons')
    then show ?thesis using assms(1) that by (simp add: entries_in_def)
  qed
  then show ?thesis by (simp add: entries_in_def)
qed

lemma object_rep_update:
  assumes rep: "object_rep h slot b cap (xs @ f # ys)" and wf: "heap_wf h"
    and m: "modifies h h' S" "S \<inter> object_blocks slot b (xs @ f # ys) \<subseteq> {fblock f}"
    and f': "fhash f' = fhash f" "fblock f' = fblock f" "value_type (fval f') = value_type (fval f)"
      "value_size (fval f') = value_size (fval f)" "field_at h' f'"
    and buf: "fbuf f' = None \<or> fbuf f' = fbuf f \<or> fbuf f' = Some (next_block h)"
  shows "object_rep h' slot b cap (xs @ f' # ys)"
proof -
  obtain data where d: "slot_holds h slot (Ptr b 0)"
      "blocks h b = Some (counted (of_nat (length (xs @ f # ys))) cap data)"
      "length data = 24 * unat cap" "entries_in data (xs @ f # ys)" "length (xs @ f # ys) \<le> unat cap"
      "distinct (map fhash (xs @ f # ys))"
      "distinct (blk slot # b # concat (map footprint (xs @ f # ys)))"
      "\<forall>g \<in> set (xs @ f # ys). field_at h g"
    using rep by (rule object_repE)
  have vb: "fblock f \<in> set (footprint f)" by (simp add: footprint_def value_blocks_def)
  have off: "fblock f \<noteq> blk slot" "fblock f \<noteq> b" using d(7) vb by auto
  have keep: "blocks h' c = blocks h c"
    if "blocks h c \<noteq> None" "c \<noteq> fblock f" "c \<in> object_blocks slot b (xs @ f # ys)" for c
    using that m wf by (auto simp: modifies_def dest: heap_wf_live)
  have fresh: "next_block h \<notin> set (blk slot # b # concat (map footprint (xs @ f # ys)))"
    using object_rep_fresh [OF rep wf] slot_holds_fresh [OF wf d(1)] d(2) heap_wf_live [OF wf, of b]
    by auto
  show ?thesis
  proof (rule object_repI)
    have "blocks h' (blk slot) = blocks h (blk slot)"
      using keep slot_holds_live [OF d(1)] off(1) by (simp add: object_blocks_def)
    then show "slot_holds h' slot (Ptr b 0)" using d(1) slot_holds_cong by blast
    show "blocks h' b = Some (counted (of_nat (length (xs @ f' # ys))) cap data)"
      using keep [of b] d(2) off(2) by (simp add: object_blocks_def)
    show "entries_in data (xs @ f' # ys)" by (rule entries_in_update [OF d(4) f'(1-4)])
    show "distinct (blk slot # b # concat (map footprint (xs @ f' # ys)))"
    proof -
      have "set (footprint f') \<subseteq> insert (next_block h) (set (footprint f))" "distinct (footprint f')"
        using buf f'(2) d(7) fresh
        by (auto simp: footprint_def value_blocks_def split: option.splits)
      then show ?thesis
        using d(7) fresh distinct_replace [of "blk slot # b # concat (map footprint xs)" "footprint f"
            "concat (map footprint ys)" "footprint f'" "next_block h"] by simp
    qed
    show "field_at h' g" if "g \<in> set (xs @ f' # ys)" for g
    proof (cases "g = f'")
      case False
      then have g: "g \<in> set xs \<union> set ys" using that by auto
      then have "fblock f \<notin> set (footprint g)" using d(7) vb by auto
      moreover have "set (footprint g) \<subseteq> object_blocks slot b (xs @ f # ys)"
        using g by (auto simp: object_blocks_def)
      ultimately have "set (footprint g) \<inter> S = {}" using m(2) by blast
      then show ?thesis using g d(8) by (intro field_frame [OF _ m(1) wf]) auto
    qed (use f'(5) in simp)
  qed (use d f'(1) in simp_all)
qed

section \<open>The abstract contents\<close>

lemma fields_map_snoc:
  "k \<notin> fhash ` set fs \<Longrightarrow> fields_map (fs @ [ObjField k vb sb v]) = (fields_map fs)(k \<mapsto> v)"
  by (rule ext) (induction fs, auto simp: fields_map_def)

lemma fields_map_update:
  assumes "distinct (map fhash (xs @ f # ys))" and "fhash f' = fhash f"
  shows "fields_map (xs @ f' # ys) = (fields_map (xs @ f # ys))(fhash f \<mapsto> fval f')"
  using assms by (intro ext) (induction xs, auto simp: fields_map_def)

lemma dom_fields_map: "dom (fields_map fs) = fhash ` set fs"
  by (auto simp: fields_map_def dom_map_of_conv_image_fst image_image)

lemma field_pos_split:
  assumes "field_pos k fs = Some j"
  shows "fs = take j fs @ fs ! j # drop (Suc j) fs" and "fhash (fs ! j) = k"
  using field_pos_Some [OF assms] by (simp_all add: id_take_nth_drop [symmetric])

end
