(* ===== verification/Msm_Object_Set.thy ===== *)
theory Msm_Object_Set
  imports Msm_Object_Update
begin

text \<open>
  The five setters and \<^verbatim>\<open>msm_object_ensure_object\<close> are one scheme that differs in the type
  tag, the size of the value and the write into it. The scheme is proved correct once, for every
  writer that obeys the contract \<open>field_writer\<close>, which is then discharged for each setter.
\<close>

section \<open>The common scheme\<close>

definition field_key :: "u8 list \<Rightarrow> u64" where
  "field_key nm = hash_name nm (unat (name_length nm))"

definition set_scheme ::
    "u16 \<Rightarrow> u32 \<Rightarrow> (heap \<Rightarrow> ptr \<Rightarrow> heap res) \<Rightarrow> heap \<Rightarrow> ptr \<Rightarrow> u64 \<Rightarrow> (ptr option \<times> heap) res" where
  "set_scheme ty sz wr h slot k =
     bindE (object_find_entry_by_hash h slot k) (\<lambda>e.
     if e \<noteq> Null
     then bindE (entry_type_id h e) (\<lambda>t.
          if t \<noteq> ty then Inl (Abort TypeMismatch)
          else bindE (entry_value_ptr h e) (\<lambda>val. bindE (wr h val) (\<lambda>h1. Inr (Some val, h1))))
     else bindE (object_add_entry h slot) (\<lambda>(e, h1).
          if e = Null then Inr (None, h1)
          else bindE (entry_set_name_hash h1 e k) (\<lambda>h2.
               bindE (entry_set_type_id h2 e ty) (\<lambda>h3.
               bindE (entry_set_size h3 e sz) (\<lambda>h4.
               let (val, h5) = malloc h4 (unat sz) in
               bindE (memset h5 val 0 (unat sz)) (\<lambda>h6.
               bindE (wr h6 val) (\<lambda>h7.
               bindE (entry_set_value_ptr h7 e val) (\<lambda>h8.
               bindE (object_commit_add h8 slot) (\<lambda>h9. Inr (Some val, h9))))))))))"

fun status_of :: "ptr option \<times> heap \<Rightarrow> (int \<times> heap) res" where
  "status_of (r, h) = Inr (if r = None then - 1 else 0, h)"

fun value_of :: "ptr option \<times> heap \<Rightarrow> (ptr \<times> heap) res" where
  "value_of (r, h) = Inr (case r of None \<Rightarrow> Null | Some p \<Rightarrow> p, h)"

lemma bindE_if: "bindE (if c then m else n) f = (if c then bindE m f else bindE n f)"
  by simp

lemma bindE_case_prod: "bindE (case p of (x, y) \<Rightarrow> m x y) f = (case p of (x, y) \<Rightarrow> bindE (m x y) f)"
  by (simp add: split_beta)

lemmas scheme_simps = set_scheme_def object_find_entry_def field_key_def bindE_assoc bindE_if
  bindE_case_prod Let_def

lemma set_int32_scheme:
  "slot \<noteq> Null \<Longrightarrow> msm_object_set_int32 h slot (Some nm) v =
     bindE (set_scheme type_int32 8 (\<lambda>h val. store_u32 h (padd val 4) v) h slot (field_key nm)) status_of"
  by (simp add: msm_object_set_int32_def scheme_simps cong: if_cong)

lemma set_int64_scheme:
  "slot \<noteq> Null \<Longrightarrow> msm_object_set_int64 h slot (Some nm) v =
     bindE (set_scheme type_int64 16 (\<lambda>h val. store_u64 h (padd val 8) v) h slot (field_key nm)) status_of"
  by (simp add: msm_object_set_int64_def scheme_simps cong: if_cong)

lemma set_float64_scheme:
  "slot \<noteq> Null \<Longrightarrow> msm_object_set_float64 h slot (Some nm) v =
     bindE (set_scheme type_float64 16 (\<lambda>h val. store_u64 h (padd val 8) v) h slot (field_key nm)) status_of"
  by (simp add: msm_object_set_float64_def scheme_simps cong: if_cong)

lemma set_bool_scheme:
  "slot \<noteq> Null \<Longrightarrow> msm_object_set_bool h slot (Some nm) v =
     bindE (set_scheme type_bool 8
       (\<lambda>h val. store_u32 h (padd val 4) (if v \<noteq> 0 then 1 else 0)) h slot (field_key nm)) status_of"
  by (simp add: msm_object_set_bool_def scheme_simps cong: if_cong)

lemma set_string_scheme:
  "slot \<noteq> Null \<Longrightarrow> msm_object_set_string h slot (Some nm) str len =
     bindE (set_scheme type_string 24 (\<lambda>h val. msm_string_set h val str len) h slot (field_key nm)) status_of"
  by (simp add: msm_object_set_string_def scheme_simps cong: if_cong)

lemma ensure_object_scheme:
  "slot \<noteq> Null \<Longrightarrow> msm_object_ensure_object h slot (Some nm) =
     bindE (set_scheme type_object 24 (\<lambda>h val. Inr h) h slot (field_key nm)) value_of"
  by (simp add: msm_object_ensure_object_def scheme_simps cong: if_cong)

section \<open>The contract of a writer\<close>

text \<open>\<^verbatim>\<open>malloc\<close> does not fail from here on.\<close>

definition allocs :: "heap \<Rightarrow> bool" where
  "allocs h \<longleftrightarrow> (\<forall>c s. next_block h \<le> c \<longrightarrow> \<not> oom h c s)"

lemma allocs_modifies: "allocs h \<Longrightarrow> modifies h h' S \<Longrightarrow> allocs h'"
  by (auto simp: allocs_def modifies_def)

lemma allocs_malloc: "allocs h \<Longrightarrow> malloc h n = (Ptr (next_block h) 0, new_block n h)"
  by (simp add: allocs_def malloc_def)

text \<open>The value of its type that a zeroed block holds.\<close>

fun zero_like :: "obj_value \<Rightarrow> obj_value" where
  "zero_like (VInt32 _) = VInt32 0"
| "zero_like (VInt64 _) = VInt64 0"
| "zero_like (VFloat64 _) = VFloat64 0"
| "zero_like (VBool _) = VBool False"
| "zero_like (VString _) = VString []"
| "zero_like (VObject _) = VObject Null"

lemma zero_value:
  assumes "blocks h vb = Some (replicate (value_size v) (Byte 0))"
  shows "value_at h vb None (zero_like v)" and "value_type (zero_like v) = value_type v"
  using assms by (cases v; simp add: value_cells_def word_cells_0 ptr_cells.simps)+

locale field_writer =
  fixes wr :: "heap \<Rightarrow> ptr \<Rightarrow> heap res" and v :: obj_value and pre :: "obj_value \<Rightarrow> bool"
  assumes write_runs: "heap_wf h \<Longrightarrow> allocs h \<Longrightarrow> value_at h vb sb u \<Longrightarrow>
      value_type u = value_type v \<Longrightarrow> pre u \<Longrightarrow>
      \<exists>h' sb'. wr h (Ptr vb 0) = Inr h' \<and> value_at h' vb sb' v \<and> modifies h h' {vb} \<and>
        (sb' = None \<or> sb' = sb \<or> sb' = Some (next_block h))"
    and pre_zero: "pre (zero_like v)"
begin

lemma new_value_runs:
  assumes wf: "heap_wf h" and al: "allocs h"
  obtains h6 h7 sb where "malloc h (value_size v) = (Ptr (next_block h) 0, new_block (value_size v) h)"
    and "memset (new_block (value_size v) h) (Ptr (next_block h) 0) 0 (value_size v) = Inr h6"
    and "wr h6 (Ptr (next_block h) 0) = Inr h7" and "value_at h7 (next_block h) sb v"
    and "modifies h h7 {}" and "sb = None \<or> sb = Some (Suc (next_block h))"
    and "next_block h < next_block h7"
proof -
  let ?nb = "next_block h" and ?sz = "value_size v"
  let ?h5 = "new_block ?sz h"
  let ?h6 = "put Plain ?nb 0 (replicate ?sz (Byte 0)) ?h5"
  have blk6: "blocks ?h6 ?nb = Some (replicate ?sz (Byte 0))"
    by (simp add: blocks_put)
  have m6: "modifies h ?h6 {}"
    using wf by (simp add: modifies_def blocks_put)
  obtain h7 sb where h7: "wr ?h6 (Ptr ?nb 0) = Inr h7" "value_at h7 ?nb sb v"
      "modifies ?h6 h7 {?nb}" "sb = None \<or> sb = None \<or> sb = Some (next_block ?h6)"
    using write_runs [OF modifies_wf [OF m6] allocs_modifies [OF al m6]
        zero_value(1) [OF blk6] zero_value(2) [OF blk6] pre_zero] by blast
  show ?thesis
  proof (rule that)
    show "malloc h ?sz = (Ptr ?nb 0, ?h5)" by (rule allocs_malloc [OF al])
    show "memset ?h5 (Ptr ?nb 0) 0 ?sz = Inr ?h6" by (simp add: memset_at)
    show "modifies h h7 {}" by (rule modifies_trans [OF m6 h7(3)]) simp
    show "next_block h < next_block h7" using h7(3) by (simp add: modifies_def)
  qed (use h7 in auto)
qed

text \<open>A field that does not exist: the entry is written behind the last one, the value in a block
  of its own, and the release store of the count makes the field visible.\<close>

lemma set_new:
  assumes obj: "object_fs h slot cap fs B" and wf: "heap_wf h" and al: "allocs h"
    and room: "length fs < unat cap \<or> cap < 0x80000000" and k: "field_pos k fs = None"
  obtains h' b vb sb where "set_scheme (value_type v) (of_nat (value_size v)) wr h slot k =
      Inr (Some (Ptr vb 0), h')"
    and "object_rep h' slot b (if length fs < unat cap then cap else obj_grown_cap cap)
          (fs @ [ObjField k vb sb v])"
    and "modifies h h' B" and "b \<in> B \<or> next_block h \<le> b"
    and "\<forall>c \<in> set (value_blocks vb sb). next_block h \<le> c"
proof -
  let ?cap = "if length fs < unat cap then cap else obj_grown_cap cap"
  let ?n = "length fs" and ?N = "of_nat (length fs) :: u32" and ?sz = "value_size v"
  have "can_add h cap (length fs)" using room al by (auto simp: can_add_def allocs_def)
  from obj wf this obtain b h1 where add: "object_add_entry h slot = Inr (Ptr b (8 + 24 * ?n), h1)"
    and rep: "object_rep h1 slot b ?cap fs" and lt: "?n < unat ?cap"
    and m1: "modifies h h1 {blk slot}" and bB: "b \<in> B \<or> b = next_block h" and sB: "blk slot \<in> B"
    by (rule add_spec)
  have wf1: "heap_wf h1" and al1: "allocs h1" and nb1: "next_block h \<le> next_block h1"
    using m1 allocs_modifies [OF al m1] by (auto simp: modifies_def)
  obtain data where slot1: "slot_holds h1 slot (Ptr b 0)"
      and blk1: "blocks h1 b = Some (counted ?N ?cap data)" and len: "length data = 24 * unat ?cap"
      and bs: "b \<noteq> blk slot"
    using rep by (rule object_repE)
  have l: "24 * ?n + 24 \<le> length data" using lt unfolding len by linarith
  obtain h2 h3 h4 where head: "entry_set_name_hash h1 (Ptr b (8 + 24 * ?n)) k = Inr h2"
      "entry_set_type_id h2 (Ptr b (8 + 24 * ?n)) (value_type v) = Inr h3"
      "entry_set_size h3 (Ptr b (8 + 24 * ?n)) (of_nat ?sz) = Inr h4"
    and m4: "modifies h1 h4 {b}" and nb4: "next_block h4 = next_block h1"
    and blk4: "blocks h4 b = Some (counted ?N ?cap (head_cells data ?n k (value_type v) (of_nat ?sz)))"
    by (rule head_written [OF blk1 l, of k "value_type v" "of_nat ?sz"]) (use wf1 in blast)
  obtain h6 h7 sb where val: "malloc h4 ?sz = (Ptr (next_block h1) 0, new_block ?sz h4)"
      "memset (new_block ?sz h4) (Ptr (next_block h1) 0) 0 ?sz = Inr h6"
      "wr h6 (Ptr (next_block h1) 0) = Inr h7" and v7: "value_at h7 (next_block h1) sb v"
    and m7: "modifies h4 h7 {}" and sb: "sb = None \<or> sb = Some (Suc (next_block h1))"
    using new_value_runs [OF modifies_wf [OF m4] allocs_modifies [OF al1 m4]] unfolding nb4 by metis
  let ?f = "ObjField k (next_block h1) sb v"
  have blk7: "blocks h7 b = Some (counted ?N ?cap (head_cells data ?n k (value_type v) (of_nat ?sz)))"
    by (rule modifies_block [OF m7 modifies_wf [OF m4] blk4]) simp
  have m17: "modifies h1 h7 {b}" by (rule modifies_trans [OF m4 m7]) simp
  obtain h8 h9 where fin: "entry_set_value_ptr h7 (Ptr b (8 + 24 * ?n)) (Ptr (fblock ?f) 0) = Inr h8"
      "object_commit_add h8 slot = Inr h9" and m9: "modifies h1 h9 {b}"
    and rep9: "object_rep h9 slot b ?cap (fs @ [?f])"
  proof (rule head_committed [OF rep wf1 blk1 _ m17 lt])
    show "blocks h7 b = Some (counted ?N ?cap (head_cells data ?n (fhash ?f) (value_type (fval ?f))
        (of_nat (value_size (fval ?f)))))" using blk7 by simp
  qed (use k v7 sb in \<open>auto simp: field_at_def field_pos_None footprint_def value_blocks_def\<close>)
  have sz: "unat (of_nat ?sz :: u32) = ?sz" by (cases v) simp_all
  have "set_scheme (value_type v) (of_nat ?sz) wr h slot k = Inr (Some (Ptr (next_block h1) 0), h9)"
    using object_fs_find_None [OF obj k] add head val fin sz by (simp add: set_scheme_def)
  moreover have "modifies h h9 B"
  proof (rule modifies_trans [OF modifies_mono [OF m1] m9])
    show "{blk slot} \<subseteq> B" using sB by simp
  qed (use bB in auto)
  ultimately show ?thesis
    using rep9 bB nb1 sb by (intro that) (auto simp: value_blocks_def)
qed

text \<open>A field that exists: its value is overwritten where it is.\<close>

lemma set_existing:
  assumes obj: "object_fs h slot cap fs B" and wf: "heap_wf h" and al: "allocs h"
    and k: "field_pos k fs = Some j" and ty: "value_type (fval (fs ! j)) = value_type v"
    and pre: "pre (fval (fs ! j))"
  obtains h' b sb where "set_scheme (value_type v) sz wr h slot k =
      Inr (Some (Ptr (fblock (fs ! j)) 0), h')"
    and "object_rep h' slot b cap (take j fs @ ObjField k (fblock (fs ! j)) sb v # drop (Suc j) fs)"
    and "modifies h h' B" and "b \<in> B" and "sb = None \<or> sb = fbuf (fs ! j) \<or> sb = Some (next_block h)"
proof -
  let ?f = "fs ! j"
  obtain b where rep: "object_rep h slot b cap fs" and B: "B = object_blocks slot b fs"
    and find: "object_find_entry_by_hash h slot k = Inr (Ptr b (8 + 24 * j))"
      "entry_type_id h (Ptr b (8 + 24 * j)) = Inr (value_type (fval ?f))"
      "entry_value_ptr h (Ptr b (8 + 24 * j)) = Inr (Ptr (fblock ?f) 0)" and fat: "field_at h ?f"
    using object_fs_find_Some [OF obj k] by metis
  obtain h' sb where w: "wr h (Ptr (fblock ?f) 0) = Inr h'" "value_at h' (fblock ?f) sb v"
      "modifies h h' {fblock ?f}" "sb = None \<or> sb = fbuf ?f \<or> sb = Some (next_block h)"
    using write_runs [OF wf al _ ty pre] fat unfolding field_at_def by blast
  note split = field_pos_split [OF k]
  have sz: "value_size (fval ?f) = value_size v"
    using ty by (cases v; cases "fval ?f") (simp_all add: type_ids)
  have "object_rep h' slot b cap (take j fs @ ObjField k (fblock ?f) sb v # drop (Suc j) fs)"
    using rep split(1) by (intro object_rep_update [OF _ wf w(3)])
      (use w split(2) ty sz in \<open>simp_all add: field_at_def\<close>)
  moreover have "set_scheme (value_type v) sz wr h slot k = Inr (Some (Ptr (fblock ?f) 0), h')"
    using find ty w(1) by (simp add: set_scheme_def)
  moreover have "?f \<in> set fs" using field_pos_Some [OF k] by simp
  then have "modifies h h' B"
    unfolding B by (intro modifies_mono [OF w(3)])
      (auto simp: object_blocks_def footprint_def value_blocks_def)
  moreover have "b \<in> B" unfolding B by (simp add: object_blocks_def)
  ultimately show ?thesis using w(4) by (intro that)
qed

lemma set_mismatch:
  assumes obj: "object_at h slot cap M B" and "M k = Some u" and "value_type u \<noteq> value_type v"
  shows "set_scheme (value_type v) sz wr h slot k = Inl (Abort TypeMismatch)"
proof -
  obtain fs where fs: "object_fs h slot cap fs B" "M = fields_map fs"
    using obj by (auto simp: object_at_def)
  then obtain j where j: "field_pos k fs = Some j" "fval (fs ! j) = u"
    using assms(2) by (auto simp: fields_map_pos split: option.splits)
  show ?thesis
    using object_fs_find_Some [OF fs(1) j(1)] assms(3) j(2) by (fastforce simp: set_scheme_def)
qed

lemma set_runs:
  assumes obj: "object_at h slot cap M B" and wf: "heap_wf h" and al: "allocs h"
    and cap: "cap < 0x80000000" and ty: "\<And>u. M k = Some u \<Longrightarrow> value_type u = value_type v \<and> pre u"
  obtains h' vb sb cap' B' where "set_scheme (value_type v) (of_nat (value_size v)) wr h slot k =
      Inr (Some (Ptr vb 0), h')"
    and "object_at h' slot cap' (M(k \<mapsto> v)) B'" and "modifies h h' B"
    and "\<forall>c \<in> B'. c \<in> B \<or> next_block h \<le> c" and "vb \<in> B'"
    and "value_at h' vb sb v" and "M k = None \<longrightarrow> next_block h \<le> vb"
proof -
  obtain fs where fs: "object_fs h slot cap fs B" and M: "M = fields_map fs"
    using obj by (auto simp: object_at_def)
  have sB: "blk slot \<in> B" and fB: "\<And>f c. f \<in> set fs \<Longrightarrow> c \<in> set (footprint f) \<Longrightarrow> c \<in> B"
    using fs by (auto simp: object_fs_def object_blocks_def)
  show ?thesis
  proof (cases "field_pos k fs")
    case None
    let ?cap = "if length fs < unat cap then cap else obj_grown_cap cap"
    obtain h' b vb sb where r: "set_scheme (value_type v) (of_nat (value_size v)) wr h slot k =
          Inr (Some (Ptr vb 0), h')"
        "object_rep h' slot b ?cap (fs @ [ObjField k vb sb v])" "modifies h h' B"
        "b \<in> B \<or> next_block h \<le> b" "\<forall>c \<in> set (value_blocks vb sb). next_block h \<le> c"
      using set_new [OF fs wf al disjI2 [OF cap] None] by metis
    have "k \<notin> fhash ` set fs" using None by (simp add: field_pos_None)
    then have "object_at h' slot ?cap (M(k \<mapsto> v)) (object_blocks slot b (fs @ [ObjField k vb sb v]))"
      using M by (intro object_atI [OF r(2)]) (simp add: fields_map_snoc)
    moreover have "\<forall>c \<in> object_blocks slot b (fs @ [ObjField k vb sb v]). c \<in> B \<or> next_block h \<le> c"
      using sB fB r(4,5) by (auto simp: object_blocks_def footprint_def)
    moreover have "vb \<in> object_blocks slot b (fs @ [ObjField k vb sb v])"
      by (simp add: object_blocks_def footprint_def value_blocks_def)
    moreover have "value_at h' vb sb v"
      using r(2) by (simp add: object_rep_def field_at_def)
    moreover have "M k = None \<longrightarrow> next_block h \<le> vb" using r(5) by (simp add: value_blocks_def)
    ultimately show ?thesis using r(1,3) by (intro that)
  next
    case (Some j)
    let ?f = "fs ! j"
    have fj: "?f \<in> set fs" using field_pos_Some [OF Some] by simp
    have Mk: "M k = Some (fval ?f)" using Some M by (simp add: fields_map_pos)
    have tj: "value_type (fval ?f) = value_type v" and pj: "pre (fval ?f)" using ty [OF Mk] by simp_all
    let ?fs' = "\<lambda>sb. take j fs @ ObjField k (fblock ?f) sb v # drop (Suc j) fs"
    obtain h' b sb where r: "set_scheme (value_type v) (of_nat (value_size v)) wr h slot k =
          Inr (Some (Ptr (fblock ?f) 0), h')" "object_rep h' slot b cap (?fs' sb)"
        "modifies h h' B" "b \<in> B" "sb = None \<or> sb = fbuf ?f \<or> sb = Some (next_block h)"
      using set_existing [OF fs wf al Some tj pj] by metis
    have "distinct (map fhash fs)"
      using fs Some by (auto simp: object_fs_def object_rep_def)
    then have "fields_map (?fs' sb) = (fields_map fs)(k \<mapsto> v)"
      using fields_map_update [of "take j fs" ?f "drop (Suc j) fs" "ObjField k (fblock ?f) sb v"]
        field_pos_split [OF Some] by simp
    then have "object_at h' slot cap (M(k \<mapsto> v)) (object_blocks slot b (?fs' sb))"
      using M by (intro object_atI [OF r(2)]) simp
    moreover have "\<forall>c \<in> object_blocks slot b (?fs' sb). c \<in> B \<or> next_block h \<le> c"
    proof -
      have "set (footprint (ObjField k (fblock ?f) sb v)) \<subseteq> B \<union> {next_block h}"
        using fB [OF fj] r(5) by (auto simp: footprint_def value_blocks_def split: option.splits)
      then show ?thesis
        using sB fB r(4) by (auto simp: object_blocks_def dest: in_set_takeD in_set_dropD)
    qed
    moreover have "fblock ?f \<in> object_blocks slot b (?fs' sb)"
      by (simp add: object_blocks_def footprint_def value_blocks_def)
    moreover have "value_at h' (fblock ?f) sb v"
      using r(2) by (simp add: object_rep_def field_at_def)
    moreover have "M k = None \<longrightarrow> next_block h \<le> fblock ?f" using Mk by simp
    ultimately show ?thesis using r(1,3) by (intro that)
  qed
qed

end

end
