(* ===== verification/Msm_Object_Remove.thy ===== *)
theory Msm_Object_Remove
  imports Msm_Object_Update
begin

text \<open>
  \<^verbatim>\<open>msm_object_remove\<close>: the entries that survive are copied into a tight new buffer, which is
  then published; the old buffer and the removed value stay where they are for readers that still
  scan them.
\<close>

section \<open>The surviving entries\<close>

lemma entry_in_shift:
  assumes "length as = 24 * m" and "m \<le> i" and "24 * i + 24 \<le> 24 * m + n" and "24 * (m + 1) + n \<le> length data"
  shows "entry_in (as @ piece data (24 * (m + 1)) n) i f = entry_in data (i + 1) f"
proof -
  have "piece (as @ piece data (24 * (m + 1)) n) (24 * i + d) w = piece data (24 * (i + 1) + d) w"
    if "d + w \<le> 24" for d w
  proof -
    have "24 * m \<le> 24 * i + d" using assms(2) by simp
    moreover have "24 * i + d - 24 * m + w \<le> n" using assms(2,3) that by linarith
    moreover have "24 * (m + 1) + (24 * i + d - 24 * m) = 24 * (i + 1) + d" using assms(2) by simp
    ultimately show ?thesis
      using assms(1,4) by (simp add: piece_append_right piece_piece add.assoc)
  qed
  from this [of 0 8] this [of 8 2] this [of 12 4] this [of 16 8] show ?thesis
    by (simp add: entry_in_def)
qed

lemma entries_in_removed:
  assumes "entries_in data (xs @ f # ys)" and "24 * length (xs @ f # ys) \<le> length data"
  shows "entries_in (take (24 * length xs) data @ piece data (24 * (length xs + 1)) (24 * length ys))
    (xs @ ys)"
proof -
  let ?a = "take (24 * length xs) data" and ?b = "piece data (24 * (length xs + 1)) (24 * length ys)"
  have la: "length ?a = 24 * length xs" using assms(2) by simp
  have "entry_in (?a @ ?b) i ((xs @ ys) ! i)" if "i < length (xs @ ys)" for i
  proof (cases "i < length xs")
    case True
    have "entry_in data i ((xs @ f # ys) ! i)" using assms(1) True by (simp add: entries_in_def)
    moreover have "entry_in (?a @ ?b) i g = entry_in data i g" for g
      using la True by (intro entry_in_cong [of "24 * length xs"]) auto
    ultimately show ?thesis using True by (simp add: nth_append)
  next
    case False
    have "entry_in data (i + 1) ((xs @ f # ys) ! (i + 1))"
      using assms(1) that by (simp add: entries_in_def)
    moreover have "(xs @ f # ys) ! (i + 1) = (xs @ ys) ! i"
      using False by (simp add: nth_append Suc_diff_le)
    moreover have "entry_in (?a @ ?b) i g = entry_in data (i + 1) g" for g
      using la False that assms(2) by (intro entry_in_shift) auto
    ultimately show ?thesis by simp
  qed
  then show ?thesis by (simp add: entries_in_def)
qed

lemma object_rep_remove:
  assumes rep: "object_rep h slot b cap (xs @ f # ys)" and wf: "heap_wf h"
    and pub: "publishes h h' slot (Ptr (next_block h) 0)"
    and old: "blocks h b = Some (counted (of_nat (length (xs @ f # ys))) cap data)"
    and new: "blocks h' (next_block h) = Some (counted (of_nat (length (xs @ ys)))
        (of_nat (length (xs @ ys))) (take (24 * length xs) data @
          piece data (24 * (length xs + 1)) (24 * length ys)))"
  shows "object_rep h' slot (next_block h) (of_nat (length (xs @ ys))) (xs @ ys)"
proof -
  obtain data0 where d: "slot_holds h slot (Ptr b 0)"
      "blocks h b = Some (counted (of_nat (length (xs @ f # ys))) cap data0)"
      "length data0 = 24 * unat cap" "entries_in data0 (xs @ f # ys)"
      "length (xs @ f # ys) \<le> unat cap" "distinct (map fhash (xs @ f # ys))"
      "distinct (blk slot # b # concat (map footprint (xs @ f # ys)))"
      "\<forall>g \<in> set (xs @ f # ys). field_at h g"
    using rep by (rule object_repE)
  have dd: "data0 = data" using d(2) old by simp
  have un: "unat (of_nat (length (xs @ ys)) :: u32) = length (xs @ ys)"
  proof -
    have "length (xs @ ys) < 4294967296" using d(5) unat_u32_less [of cap] by simp
    then show ?thesis by (simp add: unat_of_nat del: of_nat_add length_append)
  qed
  have room: "24 * length (xs @ f # ys) \<le> length data" using d(3,5) dd by simp
  show ?thesis
  proof (rule object_repI)
    show "slot_holds h' slot (Ptr (next_block h) 0)" by (rule publishes_slot [OF pub d(1)])
    show "entries_in (take (24 * length xs) data @ piece data (24 * (length xs + 1)) (24 * length ys))
        (xs @ ys)"
      using d(4) room unfolding dd by (rule entries_in_removed)
    show "length (take (24 * length xs) data @ piece data (24 * (length xs + 1)) (24 * length ys)) =
        24 * unat (of_nat (length (xs @ ys)) :: u32)"
      using room unfolding un by simp
    show "distinct (blk slot # next_block h # concat (map footprint (xs @ ys)))"
      using d(7) object_rep_fresh [OF rep wf] slot_holds_fresh [OF wf d(1)] by auto
    show "field_at h' g" if "g \<in> set (xs @ ys)" for g
      using that by (intro fields_frame [OF rep modifies_publishes [OF pub object_rep_slot [OF rep]] wf]) auto
    show "length (xs @ ys) \<le> unat (of_nat (length (xs @ ys)) :: u32)" unfolding un ..
  qed (use d(6) new in auto)
qed

section \<open>The run\<close>

lemma copy_survivors:
  assumes bld: "builds h h3 nb (counted n' cap' (replicate (24 * (i + a)) Undef))" and wf: "heap_wf h"
    and blk: "blocks h b = Some (counted n cap data)" and len: "24 * (i + 1 + a) \<le> length data"
  obtains h4 h5 where "(if 0 < 24 * i then memcpy h3 (Ptr nb 8) (Ptr b 8) (24 * i) else Inr h3) = Inr h4"
    and "(if 0 < a then memcpy h4 (Ptr nb (8 + 24 * i)) (Ptr b (8 + 24 * (i + 1))) (24 * a)
          else Inr h4) = Inr h5"
    and "builds h h5 nb (counted n' cap' (take (24 * i) data @ piece data (24 * (i + 1)) (24 * a)))"
proof -
  let ?m = "24 * (i + a)" and ?x = "take (24 * i) data" and ?y = "piece data (24 * (i + 1)) (24 * a)"
  have lx: "length ?x = 24 * i" and ly: "length ?y = 24 * a" using len by simp_all
  have px: "piece data 0 (24 * i) = ?x" by (simp add: piece_def)
  have e1: "patch (replicate ?m Undef) 0 ?x = ?x @ replicate (24 * a) Undef"
    using patch_replicate_head [of ?x ?m Undef] lx by (simp del: length_take)
  have e2: "patch (?x @ replicate (24 * a) Undef) (24 * i) ?y = ?x @ ?y"
    using lx ly by (simp add: patch_append_right del: length_take)
  obtain h4 where h4: "(if 0 < 24 * i then memcpy h3 (Ptr nb 8) (Ptr b 8) (24 * i) else Inr h3) = Inr h4"
    and b4: "builds h h4 nb (counted n' cap' (?x @ replicate (24 * a) Undef))"
  proof (cases "0 < 24 * i")
    case True
    have "\<exists>h''. memcpy h3 (Ptr nb 8) (Ptr b 8) (24 * i) = Inr h'' \<and>
        builds h h'' nb (patch (counted n' cap' (replicate ?m Undef)) 8 (piece (counted n cap data) 8 (24 * i)))"
      using len by (intro builds_memcpy [OF bld wf blk]) auto
    then have "\<exists>h''. memcpy h3 (Ptr nb 8) (Ptr b 8) (24 * i) = Inr h'' \<and>
        builds h h'' nb (counted n' cap' (?x @ replicate (24 * a) Undef))"
      unfolding patch_counted_data_0 piece_counted_data_0 px e1 .
    then obtain h'' where "memcpy h3 (Ptr nb 8) (Ptr b 8) (24 * i) = Inr h''"
        "builds h h'' nb (counted n' cap' (?x @ replicate (24 * a) Undef))" by blast
    with True show ?thesis by (intro that [of h'']) simp_all
  next
    case False
    then show ?thesis using bld by (intro that [of h3]) auto
  qed
  obtain h5 where h5: "(if 0 < a then memcpy h4 (Ptr nb (8 + 24 * i)) (Ptr b (8 + 24 * (i + 1))) (24 * a)
          else Inr h4) = Inr h5" and b5: "builds h h5 nb (counted n' cap' (?x @ ?y))"
  proof (cases "0 < a")
    case True
    have "\<exists>h''. memcpy h4 (Ptr nb (8 + 24 * i)) (Ptr b (8 + 24 * (i + 1))) (24 * a) = Inr h'' \<and>
        builds h h'' nb (patch (counted n' cap' (?x @ replicate (24 * a) Undef)) (8 + 24 * i)
          (piece (counted n cap data) (8 + 24 * (i + 1)) (24 * a)))"
      using len lx by (intro builds_memcpy [OF b4 wf blk]) auto
    then have "\<exists>h''. memcpy h4 (Ptr nb (8 + 24 * i)) (Ptr b (8 + 24 * (i + 1))) (24 * a) = Inr h'' \<and>
        builds h h'' nb (counted n' cap' (?x @ ?y))"
      unfolding patch_counted_data piece_counted_data e2 .
    then obtain h'' where "memcpy h4 (Ptr nb (8 + 24 * i)) (Ptr b (8 + 24 * (i + 1))) (24 * a) = Inr h''"
        "builds h h'' nb (counted n' cap' (?x @ ?y))" by blast
    with True show ?thesis by (intro that [of h'']) simp_all
  next
    case False
    then show ?thesis using b4 by (intro that [of h4]) (auto simp: piece_def)
  qed
  from h4 h5 b5 show ?thesis by (rule that)
qed

lemma remove_missing:
  assumes obj: "object_fs h slot cap fs B" and pos: "field_pos (hash_name nm (c_strlen nm)) fs = None"
  shows "msm_object_remove h slot (Some nm) = Inr (- 1, h)"
proof -
  consider "slot_holds h slot Null" "slot \<noteq> Null" | b where "object_rep h slot b cap fs"
    using obj by (fastforce simp: object_fs_def)
  then show ?thesis
  proof cases
    case 1
    then show ?thesis by (simp add: msm_object_remove_def load_slot)
  next
    case 2
    then obtain data where d: "slot_holds h slot (Ptr b 0)" "slot \<noteq> Null"
        "blocks h b = Some (counted (of_nat (length fs)) cap data)" "length data = 24 * unat cap"
        "entries_in data fs" "length fs \<le> unat cap" "unat (of_nat (length fs) :: u32) = length fs"
      by (rule object_repE)
    have "remove_scan h (Ptr b 8) (hash_name nm (c_strlen nm)) (of_nat (length fs)) 0 (length fs) =
        Inr (of_nat (length fs))"
      using remove_scan_pos [OF d(3) _ d(5), of 0 "length fs"] d(4,6) unat_u32_less [of cap] pos by simp
    then show ?thesis
      by (simp add: msm_object_remove_def load_slot [OF d(1)] obj_buf_defs
          atomic_load_u32_size [OF d(3)] d(2,7))
  qed
qed

text \<open>What the words of the code stand for, for an object of fields \<open>xs @ f # ys\<close> with the
  removed field \<open>f\<close>.\<close>

lemma remove_words:
  assumes "n = length (xs @ f # ys)" and "n < 4294967296"
  shows "unat (of_nat n :: u32) = n" and "unat (of_nat (length xs) :: u32) = length xs"
    and "unat (of_nat (length (xs @ ys)) :: u32) = length (xs @ ys)"
    and "unat (of_nat (length ys) :: u32) = length ys"
    and "(of_nat n :: u32) \<noteq> 0" and "(of_nat (length xs) :: u32) \<noteq> of_nat n"
    and "(of_nat n :: u32) - 1 = of_nat (length (xs @ ys))"
    and "(of_nat n :: u32) - of_nat (length xs) - 1 = of_nat (length ys)"
    and "(of_nat (length (xs @ ys)) = (0 :: u32)) = (xs @ ys = [])"
    and "(0 < (of_nat (length ys) :: u32)) = (0 < length ys)"
    and "unat ((of_nat (length xs) :: u32) + 1) = length xs + 1"
proof -
  have un: "unat (of_nat m :: u32) = m" if "m \<le> n" for m
    using that assms(2) by (simp add: unat_of_nat)
  show u: "unat (of_nat n :: u32) = n" "unat (of_nat (length xs) :: u32) = length xs"
    and us: "unat (of_nat (length (xs @ ys)) :: u32) = length (xs @ ys)"
    and uy: "unat (of_nat (length ys) :: u32) = length ys"
    using assms(1) un [of n] un [of "length xs"] un [of "length (xs @ ys)"] un [of "length ys"] by simp_all
  have n: "n \<noteq> 0" "length xs \<noteq> n" using assms(1) by simp_all
  show "(of_nat n :: u32) \<noteq> 0" using u(1) n(1) by (metis unat_0)
  show "(of_nat (length xs) :: u32) \<noteq> of_nat n" using u n(2) by metis
  show "(of_nat n :: u32) - 1 = of_nat (length (xs @ ys))" using assms(1) by simp
  show "(of_nat n :: u32) - of_nat (length xs) - 1 = of_nat (length ys)" using assms(1) by simp
  show "(of_nat (length (xs @ ys)) = (0 :: u32)) = (xs @ ys = [])"
    unfolding unat_eq_zero_iff [symmetric] us by simp
  show "(0 < (of_nat (length ys) :: u32)) = (0 < length ys)"
    using uy by (simp add: word_gt_0_unat)
  have "unat (of_nat (length xs + 1) :: u32) = length xs + 1"
    using assms(1) by (intro un) simp
  then show "unat ((of_nat (length xs) :: u32) + 1) = length xs + 1"
    by (simp add: add.commute)
qed

lemma field_pos_append:
  "k \<notin> fhash ` set xs \<Longrightarrow> fhash f = k \<Longrightarrow> field_pos k (xs @ f # ys) = Some (length xs)"
  by (induction xs) auto

text \<open>The new buffer of a removal: allocated, counted, filled with the entries before and after the
  removed one, and published.\<close>

lemma survivors_published:
  assumes wf: "heap_wf h" and slot: "slot_holds h slot (Ptr b 0)"
    and blk: "blocks h b = Some (counted n cap data)" and len: "24 * (i + 1 + a) \<le> length data"
    and N: "N = 8 + 24 * (i + a)"
  obtains h2 h3 h4 h5 h6 where "atomic_store_u32 (new_block N h) (Ptr (next_block h) 0) m Relaxed = Inr h2"
    and "atomic_store_u32 h2 (Ptr (next_block h) 4) m Relaxed = Inr h3"
    and "(if 0 < 24 * i then memcpy h3 (Ptr (next_block h) 8) (Ptr b 8) (24 * i) else Inr h3) = Inr h4"
    and "(if 0 < a then memcpy h4 (Ptr (next_block h) (8 + 24 * i)) (Ptr b (8 + 24 * (i + 1))) (24 * a)
          else Inr h4) = Inr h5"
    and "atomic_store_ptr h5 (padd slot 8) (Ptr (next_block h) 0) Release = Inr h6"
    and "publishes h h6 slot (Ptr (next_block h) 0)"
    and "blocks h6 (next_block h) = Some (counted m m (take (24 * i) data @ piece data (24 * (i + 1)) (24 * a)))"
proof -
  let ?nb = "next_block h"
  obtain h2 where h2: "atomic_store_u32 (new_block N h) (Ptr ?nb 0) m Relaxed = Inr h2"
      "builds h h2 ?nb (patch (replicate N Undef) 0 (word_cells 4 m))"
    using builds_store_u32 [OF builds_new [of h N], of 0 m Relaxed] by (auto simp: N)
  obtain h3 where h3: "atomic_store_u32 h2 (Ptr ?nb 4) m Relaxed = Inr h3"
      "builds h h3 ?nb (counted m m (replicate (24 * (i + a)) Undef))"
    using builds_store_u32 [OF h2(2), of 4 m Relaxed] by (auto simp: counted_of_replicate N)
  from h3(2) wf blk len obtain h4 h5
    where h4: "(if 0 < 24 * i then memcpy h3 (Ptr ?nb 8) (Ptr b 8) (24 * i) else Inr h3) = Inr h4"
      and h5: "(if 0 < a then memcpy h4 (Ptr ?nb (8 + 24 * i)) (Ptr b (8 + 24 * (i + 1))) (24 * a)
        else Inr h4) = Inr h5"
      and b5: "builds h h5 ?nb (counted m m (take (24 * i) data @ piece data (24 * (i + 1)) (24 * a)))"
    by (rule copy_survivors)
  obtain h6 where "atomic_store_ptr h5 (padd slot 8) (Ptr ?nb 0) Release = Inr h6" "publishes h h6 slot (Ptr ?nb 0)"
      "blocks h6 ?nb = Some (counted m m (take (24 * i) data @ piece data (24 * (i + 1)) (24 * a)))"
    using builds_publish [OF b5 wf slot] by blast
  then show ?thesis by (rule that [OF h2(1) h3(1) h4 h5])
qed

lemma remove_found:
  assumes rep: "object_rep h slot b cap (xs @ f # ys)" and wf: "heap_wf h"
    and f: "fhash f = hash_name nm (c_strlen nm)"
  shows "if xs @ ys = [] then msm_object_remove h slot (Some nm) =
        Inr (0, put (Atomic Release) (blk slot) (off slot + 8) (ptr_cells Null) h)
    else if oom h (next_block h) (8 + 24 * length (xs @ ys)) then
      msm_object_remove h slot (Some nm) = Inr (- 1, fail_block (8 + 24 * length (xs @ ys)) h)
    else \<exists>h'. msm_object_remove h slot (Some nm) = Inr (0, h') \<and>
      publishes h h' slot (Ptr (next_block h) 0) \<and>
      object_rep h' slot (next_block h) (of_nat (length (xs @ ys))) (xs @ ys)"
proof -
  let ?n = "length (xs @ f # ys)" and ?m = "length (xs @ ys)" and ?nb = "next_block h"
  let ?k = "hash_name nm (c_strlen nm)" and ?i = "length xs" and ?a = "length ys"
  obtain data where slot: "slot_holds h slot (Ptr b 0)" and nn: "slot \<noteq> Null"
    and blk: "blocks h b = Some (counted (of_nat ?n) cap data)" and len: "length data = 24 * unat cap"
    and ent: "entries_in data (xs @ f # ys)" and le: "?n \<le> unat cap"
    and dist: "distinct (map fhash (xs @ f # ys))"
    using rep by (rule object_repE)
  have nlt: "?n < 4294967296" using le unat_u32_less [of cap] by linarith
  note w = remove_words [OF refl nlt]
  have "?k \<notin> fhash ` set xs" using dist f by auto
  then have pos: "field_pos ?k (xs @ f # ys) = Some ?i" using f by (rule field_pos_append)
  have scan: "remove_scan h (Ptr b 8) ?k (of_nat ?n) 0 ?n = Inr (of_nat ?i)"
    using remove_scan_pos [OF blk _ ent nlt, of 0 ?n ?k] len le pos by simp
  note simps = msm_object_remove_def load_slot [OF slot] obj_buf_defs atomic_load_u32_size [OF blk]
    w(1,5) scan w(6) w(7) w(9) nn
  show ?thesis
  proof (cases "xs @ ys = []")
    case True
    have "msm_object_remove h slot (Some nm) =
        Inr (0, put (Atomic Release) (blk slot) (off slot + 8) (ptr_cells Null) h)"
      using True by (simp add: simps store_slot [OF slot] del: length_append of_nat_add append_is_Nil_conv)
    with True show ?thesis by simp
  next
    case False
    show ?thesis
    proof (cases "oom h ?nb (8 + 24 * ?m)")
      case True
      have "msm_object_remove h slot (Some nm) = Inr (- 1, fail_block (8 + 24 * ?m) h)"
        using False True
        by (simp add: simps w(3) malloc_def del: length_append of_nat_add append_is_Nil_conv)
      with False True show ?thesis by simp
    next
      case mem: False
      let ?N = "8 + 24 * ?m" and ?M = "of_nat ?m :: u32"
      let ?data = "take (24 * ?i) data @ piece data (24 * (?i + 1)) (24 * ?a)"
      have l: "24 * (?i + 1 + ?a) \<le> length data" using len le by simp
      have N: "?N = 8 + 24 * (?i + ?a)" by simp
      obtain h2 h3 h4 h5 h6 where h2: "atomic_store_u32 (new_block ?N h) (Ptr ?nb 0) ?M Relaxed = Inr h2"
        and h3: "atomic_store_u32 h2 (Ptr ?nb 4) ?M Relaxed = Inr h3"
        and h4: "(if 0 < 24 * ?i then memcpy h3 (Ptr ?nb 8) (Ptr b 8) (24 * ?i) else Inr h3) = Inr h4"
        and h5: "(if 0 < ?a then memcpy h4 (Ptr ?nb (8 + 24 * ?i)) (Ptr b (8 + 24 * (?i + 1))) (24 * ?a)
            else Inr h4) = Inr h5"
        and h6: "atomic_store_ptr h5 (padd slot 8) (Ptr ?nb 0) Release = Inr h6"
        and pub: "publishes h h6 slot (Ptr ?nb 0)" and b6: "blocks h6 ?nb = Some (counted ?M ?M ?data)"
        by (rule survivors_published [OF wf slot blk l N])
      have ne1: "(of_nat ?n :: u32) \<noteq> 1"
      proof
        assume "(of_nat ?n :: u32) = 1"
        then have "?M = 0" unfolding w(7) [symmetric] by simp
        then show False using False unfolding w(9) by simp
      qed
      have h5': "(if 0 < ?a then memcpy h4 (Ptr ?nb (8 + 24 * ?i)) (Ptr b (32 + 24 * ?i)) (24 * ?a)
          else Inr h4) = Inr h5" using h5 by (simp cong: if_cong)
      have "malloc h ?N = (Ptr ?nb 0, new_block ?N h)" using mem by (simp add: malloc_def)
      then have "msm_object_remove h slot (Some nm) = Inr (0, h6)"
        using False h2 h3 h4 h5' h6 ne1
        by (simp add: simps w(2,3,4,8,10,11) del: length_append of_nat_add append_is_Nil_conv cong: if_cong)
      moreover have "object_rep h6 slot ?nb ?M (xs @ ys)"
        by (rule object_rep_remove [OF rep wf pub blk b6])
      ultimately show ?thesis
        unfolding if_not_P [OF False] if_not_P [OF mem] using pub by blast
    qed
  qed
qed

end
