(* ===== verification/Msm_Object_Props.thy ===== *)
theory Msm_Object_Props
  imports Msm_Object_Set Msm_Object_Remove Msm_String_Props
begin

text \<open>
  The properties of the object functions, over the abstract contents of an object: a map \<open>M\<close>
  from name keys to typed values, spread over the blocks \<open>B\<close> of the heap.
\<close>

section \<open>The writers of the setters\<close>

lemma value_cells_put:
  assumes "value_cells h vb n k xs" and "k + length ys \<le> n"
  shows "value_cells (put a vb k ys h) vb n k ys"
  using assms by (auto simp: value_cells_def)

lemma value_cells_block: "value_cells h vb n k xs \<Longrightarrow> \<exists>cs. blocks h vb = Some cs \<and> length cs = n"
  by (auto simp: value_cells_def)

lemma value_type_inverts:
  "value_type u = type_int32 \<Longrightarrow> \<exists>x. u = VInt32 x" "value_type u = type_int64 \<Longrightarrow> \<exists>x. u = VInt64 x"
  "value_type u = type_float64 \<Longrightarrow> \<exists>x. u = VFloat64 x" "value_type u = type_bool \<Longrightarrow> \<exists>x. u = VBool x"
  "value_type u = type_string \<Longrightarrow> \<exists>x. u = VString x" "value_type u = type_object \<Longrightarrow> \<exists>q. u = VObject q"
  by (cases u; simp add: type_ids)+

text \<open>A scalar writer stores an encoding of fixed width behind the header of the value block.\<close>

lemma scalar_writer:
  assumes "\<And>h vb sb u. value_at h vb sb u \<Longrightarrow> value_type u = value_type v \<Longrightarrow>
      sb = None \<and> (\<exists>ys. value_cells h vb n k ys)"
    and "\<And>h vb. value_cells h vb n k xs \<Longrightarrow> value_at h vb None v" and "k + length xs \<le> n"
  shows "field_writer (\<lambda>h val. store_cells Plain h (padd val k) xs) v (\<lambda>_. True)"
proof (unfold_locales, goal_cases)
  case (1 h vb sb u)
  then obtain ys where ys: "sb = None" "value_cells h vb n k ys" using assms(1) [OF 1(3,4)] by auto
  then obtain cs where cs: "blocks h vb = Some cs" "length cs = n" using value_cells_block by blast
  let ?h' = "put Plain vb k xs h"
  have "store_cells Plain h (padd (Ptr vb 0) k) xs = Inr ?h'" using cs assms(3) by simp
  moreover have "value_at ?h' vb None v" by (rule assms(2) [OF value_cells_put [OF ys(2) assms(3)]])
  moreover have "modifies h ?h' {vb}" using assms(3) by (intro modifies_put [OF 1(1) cs(1)]) (simp_all add: cs(2))
  ultimately show ?case by blast
qed simp

interpretation w_int32: field_writer "\<lambda>h val. store_u32 h (padd val 4) x" "VInt32 x" "\<lambda>_. True" for x
  unfolding store_u32_def
  by (rule scalar_writer [where n = 8]) (auto dest!: value_type_inverts)

interpretation w_int64: field_writer "\<lambda>h val. store_u64 h (padd val 8) x" "VInt64 x" "\<lambda>_. True" for x
  unfolding store_u64_def
  by (rule scalar_writer [where n = 16]) (auto dest!: value_type_inverts)

interpretation w_float64: field_writer "\<lambda>h val. store_u64 h (padd val 8) x" "VFloat64 x" "\<lambda>_. True" for x
  unfolding store_u64_def
  by (rule scalar_writer [where n = 16]) (auto dest!: value_type_inverts)

interpretation w_bool: field_writer "\<lambda>h val. store_u32 h (padd val 4) (if x \<noteq> 0 then 1 else 0)"
    "VBool (x \<noteq> 0)" "\<lambda>_. True" for x :: u32
  unfolding store_u32_def
  by (rule scalar_writer [where n = 8]) (auto dest!: value_type_inverts)

interpretation w_object: field_writer "\<lambda>h val. Inr h" "VObject Null" "\<lambda>u. u = VObject Null"
proof (unfold_locales, goal_cases)
  case (1 h vb sb u)
  then show ?case using modifies_refl [OF 1(1)] by auto
qed simp

lemma publishes_value:
  assumes "publishes h h' (Ptr vb 0) q" and "value_cells h vb 24 8 xs"
  shows "value_cells h' vb 24 8 (ptr_cells q)"
  using assms by (auto simp: publishes_def value_cells_def)

text \<open>The string that \<open>msm_string_set\<close> stores for its arguments.\<close>

definition string_arg :: "cstr \<Rightarrow> u32 \<Rightarrow> u8 list" where
  "string_arg str len = (case str of None \<Rightarrow> [] | Some bs \<Rightarrow> take (unat len) bs)"

definition string_arg_ok :: "cstr \<Rightarrow> u32 \<Rightarrow> bool" where
  "string_arg_ok str len \<longleftrightarrow>
     (case str of None \<Rightarrow> True | Some bs \<Rightarrow> len \<noteq> - 1 \<and> unat len \<le> length bs)"

lemma w_string:
  assumes "string_arg_ok str len"
  shows "field_writer (\<lambda>h val. msm_string_set h val str len) (VString (string_arg str len)) (\<lambda>_. True)"
proof (unfold_locales, goal_cases)
  case (1 h vb sb u)
  then obtain s where "u = VString s" by (auto dest!: value_type_inverts)
  then obtain q where q: "value_cells h vb 24 8 (ptr_cells q)"
    using 1(3) by (auto split: option.splits)
  have slot: "slot_holds h (Ptr vb 0) q" by (rule value_cells_slot [OF q])
  show ?case
  proof (cases "str = None \<or> len = 0")
    case True
    let ?h' = "put (Atomic Release) vb 8 (ptr_cells Null) h"
    have "msm_string_set h (Ptr vb 0) str len = Inr ?h'"
      using string_set_empty [OF slot True] by simp
    moreover have "value_at ?h' vb None (VString (string_arg str len))"
      using value_cells_put [OF q, of "ptr_cells Null"] True
      by (auto simp: string_arg_def split: option.splits)
    moreover have "modifies h ?h' {vb}"
      using q by (auto simp: value_cells_def intro: modifies_put [OF 1(1)])
    ultimately show ?thesis by blast
  next
    case False
    then obtain bs where str: "str = Some bs" and len: "len \<noteq> 0" "len \<noteq> - 1" "unat len \<le> length bs"
      using assms by (auto simp: string_arg_ok_def)
    have "unat len \<noteq> unat (- 1 :: u32)" using len(2) by (simp add: word_unat_eq_iff)
    then have n: "0 < unat len" "unat len < 4294967295"
      using len(1) unat_u32_less [of len] by (simp_all add: unat_minus_1_u32 unat_gt_0)
    have mem: "\<not> oom h (next_block h) (8 + (unat len + 1))" using 1(2) by (simp add: allocs_def)
    from slot 1(1) n len(3) mem obtain h' where h': "msm_string_set h (Ptr vb 0) (Some bs) (of_nat (unat len)) = Inr h'"
        "publishes h h' (Ptr vb 0) (Ptr (next_block h) 0)"
        "string_rep h' (Ptr vb 0) (next_block h) (take (unat len) bs)"
      by (rule string_set_runs)
    have "value_at h' vb (Some (next_block h)) (VString (string_arg str len))"
      using h'(3) publishes_value [OF h'(2) q] by (simp add: string_arg_def str)
    moreover have "modifies h h' {vb}" using modifies_publishes [OF h'(2) slot] by simp
    moreover have "msm_string_set h (Ptr vb 0) str len = Inr h'" using h'(1) str by simp
    ultimately show ?thesis by blast
  qed
qed simp

section \<open>Looking a field up\<close>

lemma object_at_slot:
  assumes "object_at h slot cap M B"
  shows "slot \<noteq> Null" and "\<exists>q. slot_holds h slot q"
proof -
  show "\<exists>q. slot_holds h slot q" using assms object_fs_slot by (auto simp: object_at_def)
  then show "slot \<noteq> Null" by auto
qed

lemma find_missing:
  assumes "object_at h slot cap M B" and "M (field_key nm) = None"
  shows "object_find_entry h slot nm (unat (name_length nm)) = Inr Null"
proof -
  obtain fs where fs: "object_fs h slot cap fs B" "M = fields_map fs"
    using assms(1) by (auto simp: object_at_def)
  then have "field_pos (field_key nm) fs = None"
    using assms(2) by (simp add: fields_map_pos split: option.splits)
  then show ?thesis
    using object_fs_find_None [OF fs(1)] by (simp add: object_find_entry_def field_key_def)
qed

lemma find_present:
  assumes "object_at h slot cap M B" and "M (field_key nm) = Some v"
  obtains e vb sb where "object_find_entry h slot nm (unat (name_length nm)) = Inr e" and "e \<noteq> Null"
    and "entry_type_id h e = Inr (value_type v)" and "entry_value_ptr h e = Inr (Ptr vb 0)"
    and "value_at h vb sb v" and "vb \<in> B"
proof -
  obtain fs where fs: "object_fs h slot cap fs B" "M = fields_map fs"
    using assms(1) by (auto simp: object_at_def)
  then obtain j where j: "field_pos (field_key nm) fs = Some j" "fval (fs ! j) = v"
    using assms(2) by (auto simp: fields_map_pos split: option.splits)
  obtain b where b: "B = object_blocks slot b fs"
      "object_find_entry_by_hash h slot (field_key nm) = Inr (Ptr b (8 + 24 * j))"
      "entry_type_id h (Ptr b (8 + 24 * j)) = Inr (value_type (fval (fs ! j)))"
      "entry_value_ptr h (Ptr b (8 + 24 * j)) = Inr (Ptr (fblock (fs ! j)) 0)" "field_at h (fs ! j)"
    using object_fs_find_Some [OF fs(1) j(1)] by metis
  have "fs ! j \<in> set fs" using field_pos_Some [OF j(1)] by simp
  then have "fblock (fs ! j) \<in> B"
    unfolding b(1) by (auto simp: object_blocks_def footprint_def value_blocks_def)
  with b j(2) show ?thesis
    by (intro that [of "Ptr b (8 + 24 * j)" "fblock (fs ! j)" "fbuf (fs ! j)"])
      (simp_all add: object_find_entry_def field_key_def field_at_def)
qed

lemma load_value:
  "value_cells h vb n k (word_cells 4 (x :: u32)) \<Longrightarrow> load_u32 h (Ptr vb k) = Inr x"
  "value_cells h vb n k (word_cells 8 (y :: u64)) \<Longrightarrow> load_u64 h (Ptr vb k) = Inr y"
  by (auto simp: value_cells_def load_u32_def load_u64_def)

lemma value_at_string: "value_at h vb sb (VString s) \<Longrightarrow> string_at h (Ptr vb 0) s"
  by (auto simp: string_at_def dest: value_cells_slot split: option.splits)

section \<open>A concrete object for the witnesses\<close>

text \<open>An object of capacity 4 with one field, \<open>"hp"\<close> of type \<open>int32\<close> and value 100.\<close>

definition hp :: "u8 list" where
  "hp = [104, 112]"

definition hp_entry :: "cell list" where
  "hp_entry = word_cells 8 (field_key hp) @ word_cells 2 type_int32 @ replicate 2 (Byte 0) @
     word_cells 4 (8 :: u32) @ ptr_cells (Ptr 2 0)"

definition hp_heap :: heap where
  "hp_heap =
     \<lparr>blocks = [0 \<mapsto> replicate 8 (Byte 0) @ ptr_cells (Ptr 1 0),
                1 \<mapsto> counted 1 4 (hp_entry @ replicate 72 (Byte 0)),
                2 \<mapsto> replicate 4 (Byte 0) @ word_cells 4 (100 :: u32)],
      next_block = 3, oom = (\<lambda>_ _. False), trace = []\<rparr>"

lemma hp_heap_facts [simp]: "heap_wf hp_heap" "allocs hp_heap"
  by (simp_all add: hp_heap_def heap_wf_def allocs_def)

lemma start_heap_allocs [simp]: "allocs start_heap"
  by (simp add: allocs_def)

lemma start_heap_object: "object_at start_heap (Ptr 0 0) 0 Map.empty {0}"
proof -
  have "object_fs start_heap (Ptr 0 0) 0 [] {0}" by (simp add: object_fs_def)
  moreover have "fields_map [] = Map.empty" by (simp add: fields_map_def)
  ultimately show ?thesis unfolding object_at_def by metis
qed

lemma hp_heap_rep: "object_rep hp_heap (Ptr 0 0) 1 4 [ObjField (field_key hp) 2 None (VInt32 100)]"
proof (rule object_repI)
  show "slot_holds hp_heap (Ptr 0 0) (Ptr 1 0)"
    by (simp add: hp_heap_def slot_holds_def piece_append_right)
  show "blocks hp_heap 1 = Some (counted (of_nat (length [ObjField (field_key hp) 2 None (VInt32 100)]))
      4 (hp_entry @ replicate 72 (Byte 0)))"
    by (simp add: hp_heap_def)
  show "entries_in (hp_entry @ replicate 72 (Byte 0)) [ObjField (field_key hp) 2 None (VInt32 100)]"
    by (simp add: entries_in_def entry_in_def hp_entry_def piece_append_left piece_append_right)
  show "field_at hp_heap f" if "f \<in> set [ObjField (field_key hp) 2 None (VInt32 100)]" for f
    using that by (simp add: field_at_def value_cells_def hp_heap_def piece_append_right)
qed (simp_all add: hp_entry_def footprint_def value_blocks_def)

lemma hp_heap_object: "object_at hp_heap (Ptr 0 0) 4 [field_key hp \<mapsto> VInt32 100] {0, 1, 2}"
proof -
  have "fields_map [ObjField (field_key hp) 2 None (VInt32 100)] = [field_key hp \<mapsto> VInt32 100]"
    by (simp add: fields_map_def)
  moreover have "object_blocks (Ptr 0 0) 1 [ObjField (field_key hp) 2 None (VInt32 100)] = {0, 1, 2}"
    by (auto simp: object_blocks_def footprint_def value_blocks_def)
  ultimately show ?thesis using object_atI [OF hp_heap_rep, of "[field_key hp \<mapsto> VInt32 100]"] by simp
qed

section \<open>Reading\<close>

lemma object_gets:
  assumes "object_at h slot cap M B"
  shows "msm_object_get_int32 h slot (Some nm) =
      Inr (case M (field_key nm) of Some (VInt32 x) \<Rightarrow> x | _ \<Rightarrow> 0) \<and>
    msm_object_get_int64 h slot (Some nm) =
      Inr (case M (field_key nm) of Some (VInt64 x) \<Rightarrow> x | _ \<Rightarrow> 0) \<and>
    msm_object_get_float64 h slot (Some nm) =
      Inr (case M (field_key nm) of Some (VFloat64 x) \<Rightarrow> x | _ \<Rightarrow> 0) \<and>
    msm_object_get_bool h slot (Some nm) =
      Inr (case M (field_key nm) of Some (VBool x) \<Rightarrow> if x then 1 else 0 | _ \<Rightarrow> 0) \<and>
    (\<exists>r. msm_object_get_string h slot (Some nm) = Inr r \<and> read_cstr h r =
      Inr (case M (field_key nm) of Some (VString s) \<Rightarrow> takeWhile (\<lambda>c. c \<noteq> 0) s | _ \<Rightarrow> []))"
proof (cases "M (field_key nm)")
  case None
  then show ?thesis
    using object_at_slot(1) [OF assms] find_missing [OF assms None]
    by (simp add: msm_object_get_int32_def msm_object_get_int64_def msm_object_get_float64_def
        msm_object_get_bool_def msm_object_get_string_def)
next
  case (Some v)
  from assms Some obtain e vb sb
    where e: "object_find_entry h slot nm (unat (name_length nm)) = Inr e" "e \<noteq> Null"
      "entry_type_id h e = Inr (value_type v)" "entry_value_ptr h e = Inr (Ptr vb 0)"
      and v: "value_at h vb sb v"
    by (rule find_present)
  have str: "\<exists>r. msm_string_get h (Ptr vb 0) = Inr r \<and> read_cstr h r = Inr (takeWhile (\<lambda>c. c \<noteq> 0) s)"
    if "v = VString s" for s
    using string_reads(2) [OF value_at_string] v that by blast
  show ?thesis
    using object_at_slot(1) [OF assms] e Some v str
    by (cases v)
      (auto simp: msm_object_get_int32_def msm_object_get_int64_def msm_object_get_float64_def
        msm_object_get_bool_def msm_object_get_string_def type_ids dest: load_value)
qed

text \<open>The queries agree with the contents of the object: the number of fields, whether a
  field exists, the tag of its type (0 for none), and a pointer to its value (null for none).\<close>

lemma object_query_correct:
  assumes "object_at h slot cap M B"
  shows "msm_object_field_count h slot = Inr (of_nat (card (dom M))) \<and>
    msm_object_has_field h slot (Some nm) = Inr (if field_key nm \<in> dom M then 1 else 0) \<and>
    msm_object_get_type h slot (Some nm) =
      Inr (case M (field_key nm) of None \<Rightarrow> 0 | Some v \<Rightarrow> value_type v) \<and>
    (\<exists>p. msm_object_get_slot h slot (Some nm) = Inr p \<and>
      (case M (field_key nm) of None \<Rightarrow> p = Null
       | Some v \<Rightarrow> \<exists>vb sb. p = Ptr vb 0 \<and> vb \<in> B \<and> value_at h vb sb v))"
proof -
  have count: "msm_object_field_count h slot = Inr (of_nat (card (dom M)))"
  proof -
    obtain fs where fs: "object_fs h slot cap fs B" "M = fields_map fs"
      using assms by (auto simp: object_at_def)
    consider "slot_holds h slot Null" "fs = []" | b where "object_rep h slot b cap fs"
      using fs(1) by (auto simp: object_fs_def)
    then show ?thesis
    proof cases
      case 1
      then show ?thesis
        using fs(2) by (simp add: msm_object_field_count_def load_slot fields_map_def)
    next
      case 2
      then obtain data where d: "slot_holds h slot (Ptr b 0)" "slot \<noteq> Null"
          "blocks h b = Some (counted (of_nat (length fs)) cap data)" "distinct (map fhash fs)"
        by (rule object_repE)
      have "card (dom M) = length fs"
        unfolding fs(2) dom_fields_map using distinct_card [OF d(4)] by simp
      then show ?thesis
        using d by (simp add: msm_object_field_count_def load_slot obj_buf_defs atomic_load_u32_size)
    qed
  qed
  note nn = object_at_slot(1) [OF assms]
  show ?thesis
  proof (cases "M (field_key nm)")
    case None
    then show ?thesis
      using count nn find_missing [OF assms None]
      by (simp add: msm_object_has_field_def msm_object_get_type_def msm_object_get_slot_def domIff)
  next
    case (Some v)
    from assms Some obtain e vb sb
      where "object_find_entry h slot nm (unat (name_length nm)) = Inr e" "e \<noteq> Null"
        "entry_type_id h e = Inr (value_type v)" "entry_value_ptr h e = Inr (Ptr vb 0)"
        "value_at h vb sb v" "vb \<in> B"
      by (rule find_present)
    with Some count nn show ?thesis
      by (auto simp: msm_object_has_field_def msm_object_get_type_def msm_object_get_slot_def domIff)
  qed
qed

text \<open>Claim C16. Every getter returns the value of the field when the field has its type, and the
  default of its type otherwise (0, or the empty string): for a missing field, for a field of another
  type, never a fault. A boolean field reads as exactly 0 or 1. \<open>msm_object_get_slot\<close> returns a
  pointer to the value of the field, whatever its type, and null for a missing field, and the queries
  agree with the contents: the number of fields, whether a field exists and the tag of its type
  (0 for none).\<close>

theorem object_get_correct:
  assumes "object_at h slot cap M B"
  shows "msm_object_get_int32 h slot (Some nm) =
      Inr (case M (field_key nm) of Some (VInt32 x) \<Rightarrow> x | _ \<Rightarrow> 0) \<and>
    msm_object_get_int64 h slot (Some nm) =
      Inr (case M (field_key nm) of Some (VInt64 x) \<Rightarrow> x | _ \<Rightarrow> 0) \<and>
    msm_object_get_float64 h slot (Some nm) =
      Inr (case M (field_key nm) of Some (VFloat64 x) \<Rightarrow> x | _ \<Rightarrow> 0) \<and>
    msm_object_get_bool h slot (Some nm) =
      Inr (case M (field_key nm) of Some (VBool x) \<Rightarrow> if x then 1 else 0 | _ \<Rightarrow> 0) \<and>
    (\<exists>r. msm_object_get_string h slot (Some nm) = Inr r \<and> read_cstr h r =
      Inr (case M (field_key nm) of Some (VString s) \<Rightarrow> takeWhile (\<lambda>c. c \<noteq> 0) s | _ \<Rightarrow> [])) \<and>
    (\<exists>p. msm_object_get_slot h slot (Some nm) = Inr p \<and>
      (case M (field_key nm) of None \<Rightarrow> p = Null
       | Some v \<Rightarrow> \<exists>vb sb. p = Ptr vb 0 \<and> vb \<in> B \<and> value_at h vb sb v)) \<and>
    msm_object_has_field h slot (Some nm) = Inr (if field_key nm \<in> dom M then 1 else 0) \<and>
    msm_object_get_type h slot (Some nm) =
      Inr (case M (field_key nm) of None \<Rightarrow> 0 | Some v \<Rightarrow> value_type v) \<and>
    msm_object_field_count h slot = Inr (of_nat (card (dom M)))"
  using object_gets [OF assms] object_query_correct [OF assms, of nm] by blast

theorem object_get_correct_witness:
  "msm_object_get_int32 hp_heap (Ptr 0 0) (Some hp) = Inr 100 \<and>
   msm_object_get_bool hp_heap (Ptr 0 0) (Some hp) = Inr 0 \<and>
   msm_object_get_type hp_heap (Ptr 0 0) (Some hp) = Inr type_int32"
  using object_get_correct [OF hp_heap_object, of hp] by simp

section \<open>Setting\<close>

text \<open>
  The contract of a setter, over the abstract contents: a field of another type aborts; otherwise
  the call returns 0 and the object has the field with the new value and all its other fields as
  before, and only blocks of the object and fresh ones have changed.
\<close>

definition set_contract ::
    "(int \<times> heap) res \<Rightarrow> heap \<Rightarrow> ptr \<Rightarrow> (u64 \<rightharpoonup> obj_value) \<Rightarrow> nat set \<Rightarrow> u64 \<Rightarrow> obj_value \<Rightarrow> bool" where
  "set_contract r h slot M B k v \<longleftrightarrow>
     (if k \<in> dom M \<and> value_type (the (M k)) \<noteq> value_type v then r = Inl (Abort TypeMismatch)
      else \<exists>h' cap' B'. r = Inr (0, h') \<and> object_at h' slot cap' (M(k \<mapsto> v)) B' \<and>
        modifies h h' B \<and> (\<forall>c \<in> B'. c \<in> B \<or> next_block h \<le> c))"

lemma set_contract_of_writer:
  assumes w: "field_writer wr v (\<lambda>_. True)" and obj: "object_at h slot cap M B" and wf: "heap_wf h"
    and al: "allocs h" and cap: "cap < 0x80000000"
    and r: "r = bindE (set_scheme (value_type v) (of_nat (value_size v)) wr h slot k) status_of"
  shows "set_contract r h slot M B k v"
proof (cases "k \<in> dom M \<and> value_type (the (M k)) \<noteq> value_type v")
  case True
  then obtain u where "M k = Some u" "value_type u \<noteq> value_type v" by auto
  then show ?thesis
    using field_writer.set_mismatch [OF w obj] r by (simp add: set_contract_def domIff)
next
  case False
  then have ty: "\<And>u. M k = Some u \<Longrightarrow> value_type u = value_type v \<and> True" by auto
  from w obj wf al cap ty obtain h' vb sb cap' B'
    where "set_scheme (value_type v) (of_nat (value_size v)) wr h slot k = Inr (Some (Ptr vb 0), h')"
      "object_at h' slot cap' (M(k \<mapsto> v)) B'" "modifies h h' B"
      "\<forall>c \<in> B'. c \<in> B \<or> next_block h \<le> c"
    by (rule field_writer.set_runs)
  then show ?thesis unfolding set_contract_def if_not_P [OF False] r by auto
qed

lemma set_int32_contract:
  assumes "object_at h slot cap M B" and "heap_wf h" and "allocs h" and "cap < 0x80000000"
  shows "set_contract (msm_object_set_int32 h slot (Some nm) x) h slot M B (field_key nm) (VInt32 x)"
  using object_at_slot(1) [OF assms(1)]
  by (intro set_contract_of_writer [OF w_int32.field_writer_axioms assms]) (simp add: set_int32_scheme)

lemma set_int64_contract:
  assumes "object_at h slot cap M B" and "heap_wf h" and "allocs h" and "cap < 0x80000000"
  shows "set_contract (msm_object_set_int64 h slot (Some nm) y) h slot M B (field_key nm) (VInt64 y)"
  using object_at_slot(1) [OF assms(1)]
  by (intro set_contract_of_writer [OF w_int64.field_writer_axioms assms]) (simp add: set_int64_scheme)

lemma set_float64_contract:
  assumes "object_at h slot cap M B" and "heap_wf h" and "allocs h" and "cap < 0x80000000"
  shows "set_contract (msm_object_set_float64 h slot (Some nm) z) h slot M B (field_key nm) (VFloat64 z)"
  using object_at_slot(1) [OF assms(1)]
  by (intro set_contract_of_writer [OF w_float64.field_writer_axioms assms]) (simp add: set_float64_scheme)

lemma set_bool_contract:
  assumes "object_at h slot cap M B" and "heap_wf h" and "allocs h" and "cap < 0x80000000"
  shows "set_contract (msm_object_set_bool h slot (Some nm) w) h slot M B (field_key nm) (VBool (w \<noteq> 0))"
  using object_at_slot(1) [OF assms(1)]
  by (intro set_contract_of_writer [OF w_bool.field_writer_axioms assms]) (simp add: set_bool_scheme)

text \<open>Claim C10. The four scalar setters meet the contract, with the value their getter reads.\<close>

theorem object_set_scalars_correct:
  assumes "object_at h slot cap M B" and "heap_wf h" and "allocs h" and "cap < 0x80000000"
  shows "set_contract (msm_object_set_int32 h slot (Some nm) x) h slot M B (field_key nm) (VInt32 x) \<and>
    set_contract (msm_object_set_int64 h slot (Some nm) y) h slot M B (field_key nm) (VInt64 y) \<and>
    set_contract (msm_object_set_float64 h slot (Some nm) z) h slot M B (field_key nm) (VFloat64 z) \<and>
    set_contract (msm_object_set_bool h slot (Some nm) w) h slot M B (field_key nm) (VBool (w \<noteq> 0))"
  using set_int32_contract [OF assms] set_int64_contract [OF assms] set_float64_contract [OF assms]
    set_bool_contract [OF assms] by simp

theorem object_set_scalars_correct_witness:
  "(\<exists>h' cap' B'. msm_object_set_int32 start_heap (Ptr 0 0) (Some hp) 7 = Inr (0, h') \<and>
     object_at h' (Ptr 0 0) cap' [field_key hp \<mapsto> VInt32 7] B') \<and>
   msm_object_set_int64 hp_heap (Ptr 0 0) (Some hp) 7 = Inl (Abort TypeMismatch)"
  using object_set_scalars_correct [OF start_heap_object, of hp 7 7 7 7]
    object_set_scalars_correct [OF hp_heap_object, of hp 7 7 7 7]
  by (auto simp: set_contract_def type_ids)

text \<open>Claim C15. \<open>msm_object_set_string\<close> meets the contract, for every string argument that
  \<open>msm_string_set\<close> accepts; a null string or length 0 sets the empty string.\<close>

theorem object_set_string_correct:
  assumes "object_at h slot cap M B" and "heap_wf h" and "allocs h" and "cap < 0x80000000"
    and "string_arg_ok str len"
  shows "set_contract (msm_object_set_string h slot (Some nm) str len) h slot M B (field_key nm)
    (VString (string_arg str len))"
  using object_at_slot(1) [OF assms(1)]
  by (intro set_contract_of_writer [OF w_string [OF assms(5)] assms(1-4)])
    (simp add: set_string_scheme)

theorem object_set_string_correct_witness:
  "\<exists>h' cap' B'. msm_object_set_string start_heap (Ptr 0 0) (Some hp) (Some [104, 105]) 2 = Inr (0, h') \<and>
     object_at h' (Ptr 0 0) cap' [field_key hp \<mapsto> VString [104, 105]] B'"
  using object_set_string_correct [OF start_heap_object, of "Some [104, 105]" 2 hp]
  by (auto simp: set_contract_def string_arg_ok_def string_arg_def)

text \<open>Setting and getting: after an \<open>int32\<close> field is set, its getter returns the value,
  and every getter of a field with another key returns what it returned before.\<close>

lemma object_set_get_roundtrip:
  assumes "object_at h slot cap M B" and "heap_wf h" and "allocs h" and "cap < 0x80000000"
    and "\<And>u. M (field_key nm) = Some u \<Longrightarrow> value_type u = type_int32"
  shows "\<exists>h'. msm_object_set_int32 h slot (Some nm) x = Inr (0, h') \<and>
    msm_object_get_int32 h' slot (Some nm) = Inr x \<and>
    (\<forall>other. field_key other \<noteq> field_key nm \<longrightarrow>
       msm_object_get_int32 h' slot (Some other) = msm_object_get_int32 h slot (Some other) \<and>
       msm_object_get_int64 h' slot (Some other) = msm_object_get_int64 h slot (Some other) \<and>
       msm_object_get_float64 h' slot (Some other) = msm_object_get_float64 h slot (Some other) \<and>
       msm_object_get_bool h' slot (Some other) = msm_object_get_bool h slot (Some other) \<and>
       (\<exists>r r' s. msm_object_get_string h slot (Some other) = Inr r \<and> read_cstr h r = Inr s \<and>
          msm_object_get_string h' slot (Some other) = Inr r' \<and> read_cstr h' r' = Inr s))"
proof -
  have "\<not> (field_key nm \<in> dom M \<and> value_type (the (M (field_key nm))) \<noteq> value_type (VInt32 x))"
    using assms(5) by auto
  then obtain h' cap' B' where h': "msm_object_set_int32 h slot (Some nm) x = Inr (0, h')"
      "object_at h' slot cap' (M(field_key nm \<mapsto> VInt32 x)) B'"
    using set_int32_contract [OF assms(1-4), of nm x] unfolding set_contract_def by (auto split: if_splits)
  note g' = object_gets [OF h'(2)] and g = object_gets [OF assms(1)]
  show ?thesis
  proof (rule exI [of _ h'], intro conjI allI impI)
    show "msm_object_set_int32 h slot (Some nm) x = Inr (0, h')" by (rule h'(1))
    show "msm_object_get_int32 h' slot (Some nm) = Inr x" using g' [of nm] by simp
    fix other assume k: "field_key other \<noteq> field_key nm"
    show "msm_object_get_int32 h' slot (Some other) = msm_object_get_int32 h slot (Some other)"
      "msm_object_get_int64 h' slot (Some other) = msm_object_get_int64 h slot (Some other)"
      "msm_object_get_float64 h' slot (Some other) = msm_object_get_float64 h slot (Some other)"
      "msm_object_get_bool h' slot (Some other) = msm_object_get_bool h slot (Some other)"
      "\<exists>r r' s. msm_object_get_string h slot (Some other) = Inr r \<and> read_cstr h r = Inr s \<and>
         msm_object_get_string h' slot (Some other) = Inr r' \<and> read_cstr h' r' = Inr s"
      using g' [of other] g [of other] k by auto
  qed
qed

section \<open>Nested objects\<close>

text \<open>\<open>msm_object_ensure_object\<close>: a missing field becomes a nested object, which is empty
  and whose slot the call returns; for a field that is an object already nothing changes and its
  slot is returned; a field of another type aborts.\<close>

lemma object_ensure_object_correct:
  assumes "object_at h slot cap M B" and "heap_wf h" and "allocs h" and "cap < 0x80000000"
  shows "case M (field_key nm) of
      None \<Rightarrow> \<exists>h' vb cap' B'. msm_object_ensure_object h slot (Some nm) = Inr (Ptr vb 0, h') \<and>
        object_at h' slot cap' (M(field_key nm \<mapsto> VObject Null)) B' \<and> modifies h h' B \<and>
        next_block h \<le> vb \<and> vb \<in> B' \<and> object_at h' (Ptr vb 0) 0 Map.empty {vb}
    | Some (VObject q) \<Rightarrow> \<exists>vb. msm_object_ensure_object h slot (Some nm) = Inr (Ptr vb 0, h) \<and>
        vb \<in> B \<and> slot_holds h (Ptr vb 0) q
    | Some _ \<Rightarrow> msm_object_ensure_object h slot (Some nm) = Inl (Abort TypeMismatch)"
proof -
  note nn = object_at_slot(1) [OF assms(1)]
  show ?thesis
  proof (cases "M (field_key nm)")
    case None
    then have ty: "\<And>u. M (field_key nm) = Some u \<Longrightarrow>
        value_type u = value_type (VObject Null) \<and> u = VObject Null" by simp
    from assms ty obtain h' vb sb cap' B'
      where r: "set_scheme (value_type (VObject Null)) (of_nat (value_size (VObject Null)))
          (\<lambda>h val. Inr h) h slot (field_key nm) = Inr (Some (Ptr vb 0), h')"
        "object_at h' slot cap' (M(field_key nm \<mapsto> VObject Null)) B'" "modifies h h' B"
        "\<forall>c \<in> B'. c \<in> B \<or> next_block h \<le> c" "vb \<in> B'" "value_at h' vb sb (VObject Null)"
        "M (field_key nm) = None \<longrightarrow> next_block h \<le> vb"
      by (rule w_object.set_runs)
    have "msm_object_ensure_object h slot (Some nm) = Inr (Ptr vb 0, h')"
      using r(1) by (simp add: ensure_object_scheme [OF nn])
    moreover have "object_at h' (Ptr vb 0) 0 Map.empty {vb}"
    proof -
      have "slot_holds h' (Ptr vb 0) Null" using r(6) value_cells_slot by simp
      then have "object_fs h' (Ptr vb 0) 0 [] {vb}" by (simp add: object_fs_def)
      moreover have "fields_map [] = Map.empty" by (simp add: fields_map_def)
      ultimately show ?thesis unfolding object_at_def by metis
    qed
    ultimately show ?thesis using None r(2,3,5,7) by simp blast
  next
    case (Some v)
    from assms(1) Some obtain e vb sb
      where e: "object_find_entry h slot nm (unat (name_length nm)) = Inr e" "e \<noteq> Null"
        "entry_type_id h e = Inr (value_type v)" "entry_value_ptr h e = Inr (Ptr vb 0)"
        "value_at h vb sb v" "vb \<in> B"
      by (rule find_present)
    show ?thesis
      using Some e nn value_cells_slot
      by (cases v) (simp_all add: msm_object_ensure_object_def type_ids)
  qed
qed

section \<open>Removing\<close>

text \<open>For names shorter than \<open>2 ^ 16\<close> the key of the setters and getters is the hash of the
  whole name.\<close>

lemma field_key_short: "c_strlen nm < 65536 \<Longrightarrow> field_key nm = hash_name nm (c_strlen nm)"
  by (simp add: field_key_def name_length_def unat_of_nat)

lemma fields_map_remove:
  assumes "distinct (map fhash (xs @ f # ys))"
  shows "fields_map (xs @ ys) = (fields_map (xs @ f # ys))(fhash f := None)"
  using assms
  by (intro ext) (induction xs,
    auto simp: fields_map_def map_of_eq_None_iff image_iff rev_image_eqI)

text \<open>What the fields without field \<open>j\<close> are.\<close>

lemma removed_fields:
  assumes fs: "object_fs h slot cap fs B" and j: "field_pos k fs = Some j"
  defines "gs \<equiv> take j fs @ drop (Suc j) fs"
  shows "card (dom (fields_map fs)) = Suc (length gs)" and "k \<in> dom (fields_map fs)"
    and "fields_map gs = (fields_map fs)(k := None)"
proof -
  note e = field_pos_split [OF j] and p = field_pos_Some [OF j]
  have dist: "distinct (map fhash fs)" by (rule object_fs_hashes [OF fs])
  show "card (dom (fields_map fs)) = Suc (length gs)"
    unfolding dom_fields_map using distinct_card [OF dist] p by (auto simp: gs_def)
  show "k \<in> dom (fields_map fs)" using p by (auto simp: dom_fields_map)
  show "fields_map gs = (fields_map fs)(k := None)"
    using fields_map_remove [of "take j fs" "fs ! j" "drop (Suc j) fs"] dist e unfolding gs_def by simp
qed

lemma object_at_removed_last:
  assumes "object_rep h slot b cap fs" and "heap_wf h"
  defines "h' \<equiv> put (Atomic Release) (blk slot) (off slot + 8) (ptr_cells Null) h"
  shows "object_at h' slot 0 Map.empty {blk slot}" and "publishes h h' slot Null"
proof -
  have "object_fs h' slot 0 [] {blk slot}"
    using slot_holds_publish [OF object_rep_slot [OF assms(1)]] by (simp add: object_fs_def h'_def)
  moreover have "fields_map [] = Map.empty" by (simp add: fields_map_def)
  ultimately show "object_at h' slot 0 Map.empty {blk slot}" unfolding object_at_def by metis
  show "publishes h h' slot Null" unfolding h'_def by (rule publishes_store [OF assms(2)])
qed

text \<open>Claim C11. \<open>msm_object_remove\<close> looks for the hash of the whole name. Without such a field it
  returns -1 and nothing changes. Otherwise it returns 0 and the field is gone, all the others are
  as before, and all that changed in the blocks of the old heap is the pointer in the slot: the old
  buffer stays as it was for readers that scan it. When \<open>malloc\<close> fails it returns -1 and the
  object is as before.\<close>

theorem object_remove_correct:
  assumes "object_at h slot cap M B" and "heap_wf h" and "k = hash_name nm (c_strlen nm)"
  shows "if k \<notin> dom M then msm_object_remove h slot (Some nm) = Inr (- 1, h)
    else if oom h (next_block h) (8 + 24 * (card (dom M) - 1)) \<and> card (dom M) \<noteq> 1 then
      \<exists>h'. msm_object_remove h slot (Some nm) = Inr (- 1, h') \<and> blocks h' = blocks h
    else \<exists>h' q B'. msm_object_remove h slot (Some nm) = Inr (0, h') \<and>
      object_at h' slot (of_nat (card (dom M) - 1)) (M(k := None)) B' \<and> publishes h h' slot q \<and>
      B' \<subseteq> insert (next_block h) B"
proof -
  obtain fs where fs: "object_fs h slot cap fs B" "M = fields_map fs"
    using assms(1) by (auto simp: object_at_def)
  show ?thesis
  proof (cases "field_pos k fs")
    case None
    then have "k \<notin> dom M" by (simp add: fs(2) dom_fields_map field_pos_None)
    then show ?thesis using remove_missing [OF fs(1)] None assms(3) by simp
  next
    case (Some j)
    obtain b where rep: "object_rep h slot b cap fs" and B: "B = object_blocks slot b fs"
      using object_fs_find_Some [OF fs(1) Some] by metis
    let ?gs = "take j fs @ drop (Suc j) fs"
    note rem = removed_fields [OF fs(1) Some, folded fs(2)] and split = field_pos_split [OF Some]
    have found: "if ?gs = [] then msm_object_remove h slot (Some nm) =
          Inr (0, put (Atomic Release) (blk slot) (off slot + 8) (ptr_cells Null) h)
      else if oom h (next_block h) (8 + 24 * length ?gs) then
        msm_object_remove h slot (Some nm) = Inr (- 1, fail_block (8 + 24 * length ?gs) h)
      else \<exists>h'. msm_object_remove h slot (Some nm) = Inr (0, h') \<and> publishes h h' slot (Ptr (next_block h) 0) \<and>
        object_rep h' slot (next_block h) (of_nat (length ?gs)) ?gs"
      using rep split assms(2,3) by (intro remove_found) simp_all
    consider (last) "?gs = []" | (oom) "?gs \<noteq> []" "oom h (next_block h) (8 + 24 * length ?gs)"
      | (runs) "?gs \<noteq> []" "\<not> oom h (next_block h) (8 + 24 * length ?gs)" by blast
    then show ?thesis
    proof cases
      case last
      have "B \<supseteq> {blk slot}" by (simp add: B object_blocks_def)
      moreover have "M(k := None) = Map.empty" using rem(3) unfolding last by (simp add: fields_map_def)
      ultimately show ?thesis
        using found object_at_removed_last [OF rep assms(2)] rem(1,2) last by (auto intro!: exI)
    next
      case oom
      then show ?thesis using found rem(1,2) by (auto simp del: length_append)
    next
      case runs
      then obtain h' where h': "msm_object_remove h slot (Some nm) = Inr (0, h')"
          "publishes h h' slot (Ptr (next_block h) 0)"
          "object_rep h' slot (next_block h) (of_nat (length ?gs)) ?gs"
        using found by (auto simp del: length_append)
      have "object_blocks slot (next_block h) ?gs \<subseteq> insert (next_block h) B"
        unfolding B object_blocks_def by (auto dest: in_set_takeD in_set_dropD)
      then show ?thesis
        using h' object_atI [OF h'(3) rem(3)] rem(1,2) runs by (auto simp del: length_append)
    qed
  qed
qed

theorem object_remove_correct_witness:
  "\<exists>h' B'. msm_object_remove hp_heap (Ptr 0 0) (Some hp) = Inr (0, h') \<and>
     object_at h' (Ptr 0 0) 0 Map.empty B'"
proof -
  have "hash_name hp (c_strlen hp) = field_key hp"
    by (simp add: field_key_short hp_def c_strlen_def)
  then show ?thesis
    using object_remove_correct [OF hp_heap_object hp_heap_facts(1) refl, of hp] by auto
qed

end
