(* ===== verification/Msm_Object_Errors.thy ===== *)
theory Msm_Object_Errors
  imports Msm_Object_Props
begin

text \<open>
  Where the object functions do not do what their callers expect: names of \<open>2 ^ 16\<close> and more
  characters, and memory that runs out.
\<close>

section \<open>Names longer than 16 bits\<close>

text \<open>The setters and getters cast the length of the name to \<^verbatim>\<open>uint16_t\<close>, so they see only its
  first \<open>strlen mod 2 ^ 16\<close> characters.\<close>

lemma field_key_truncated: "field_key nm = hash_name nm (c_strlen nm mod 65536)"
  by (simp add: field_key_def name_length_def unat_of_nat)

definition long_name :: "u8 \<Rightarrow> u8 list" where
  "long_name c = replicate 65536 97 @ [c]"

lemma c_strlen_long_name: "c \<noteq> 0 \<Longrightarrow> c_strlen (long_name c) = 65537"
proof -
  assume c: "c \<noteq> 0"
  then have "takeWhile (\<lambda>c. c \<noteq> 0) (long_name c) = long_name c"
    by (auto simp: long_name_def takeWhile_eq_all_conv)
  moreover have "length (long_name c) = 65537" by (simp add: long_name_def)
  ultimately show ?thesis by (simp only: c_strlen_def)
qed

lemma field_key_long_name: "c \<noteq> 0 \<Longrightarrow> field_key (long_name c) = hash_name [97] 1"
proof -
  assume "c \<noteq> 0"
  then have "field_key (long_name c) = hash_name (long_name c) 1"
    by (simp add: field_key_truncated c_strlen_long_name)
  also have "\<dots> = hash_name [97] 1"
    using replicate_Suc [of 65535 "97 :: u8"] by (simp add: hash_name_foldl long_name_def)
  finally show ?thesis .
qed

lemma full_hash_differs:
  "hash_name (long_name 98) 65537 \<noteq> hash_name (long_name 99) 65537"
  by (simp add: hash_name_foldl long_name_def fnv_step_inj_char)

lemma remove_absent:
  assumes "object_at h slot cap M B" and "hash_name nm (c_strlen nm) \<notin> dom M"
  shows "msm_object_remove h slot (Some nm) = Inr (- 1, h)"
proof -
  obtain fs where fs: "object_fs h slot cap fs B" "M = fields_map fs"
    using assms(1) by (auto simp: object_at_def)
  then show ?thesis
    using assms(2) remove_missing [OF fs(1)] by (simp add: dom_fields_map field_pos_None)
qed

text \<open>Claim C32. A field whose name is too long for its 16-bit length can be set but not removed: for
  every name whose full hash is not its key, which only happens from 65536 characters on,
  \<open>msm_object_set_int32\<close> creates the field in any object that has no field of that key and none of
  that full hash, \<open>msm_object_has_field\<close> and \<open>msm_object_get_int32\<close> find it, and
  \<open>msm_object_remove\<close>, which hashes the whole name, returns -1 and leaves the object as it was.\<close>

theorem object_long_name_not_removed:
  assumes "object_at h slot cap M B" and "heap_wf h" and "allocs h" and "cap < 0x80000000"
    and "field_key nm \<notin> dom M" and "hash_name nm (c_strlen nm) \<notin> dom M"
    and "hash_name nm (c_strlen nm) \<noteq> field_key nm"
  shows "\<exists>h' cap' B'. 65536 \<le> c_strlen nm \<and>
    msm_object_set_int32 h slot (Some nm) x = Inr (0, h') \<and>
    object_at h' slot cap' (M(field_key nm \<mapsto> VInt32 x)) B' \<and>
    msm_object_has_field h' slot (Some nm) = Inr 1 \<and>
    msm_object_get_int32 h' slot (Some nm) = Inr x \<and>
    msm_object_remove h' slot (Some nm) = Inr (- 1, h')"
proof -
  let ?M = "M(field_key nm \<mapsto> VInt32 x)"
  obtain h' cap' B' where h': "msm_object_set_int32 h slot (Some nm) x = Inr (0, h')"
      "object_at h' slot cap' ?M B'"
    using set_int32_contract [OF assms(1-4), of nm x] assms(5) by (auto simp: set_contract_def)
  have "msm_object_has_field h' slot (Some nm) = Inr 1"
    using object_query_correct [OF h'(2), of nm] by simp
  moreover have "msm_object_get_int32 h' slot (Some nm) = Inr x"
    using object_gets [OF h'(2), of nm] by simp
  moreover have "msm_object_remove h' slot (Some nm) = Inr (- 1, h')"
    using assms(6,7) by (intro remove_absent [OF h'(2)]) simp
  moreover have "65536 \<le> c_strlen nm" using assms(7) field_key_short [of nm] by fastforce
  ultimately show ?thesis using h' by blast
qed

lemma long_name_exists: "\<exists>c. c \<noteq> 0 \<and> hash_name (long_name c) 65537 \<noteq> hash_name [97] 1"
proof (cases "hash_name (long_name 98) 65537 = hash_name [97] 1")
  case True
  then have "hash_name (long_name 99) 65537 \<noteq> hash_name [97] 1" using full_hash_differs by metis
  then show ?thesis by (intro exI [of _ 99]) simp
next
  case False
  then show ?thesis by (intro exI [of _ 98]) simp
qed

theorem object_long_name_not_removed_witness:
  "\<exists>nm h'. c_strlen nm = 65537 \<and> msm_object_set_int32 start_heap (Ptr 0 0) (Some nm) 1 = Inr (0, h') \<and>
     msm_object_has_field h' (Ptr 0 0) (Some nm) = Inr 1 \<and>
     msm_object_remove h' (Ptr 0 0) (Some nm) = Inr (- 1, h')"
proof -
  obtain c where c: "c \<noteq> 0" "hash_name (long_name c) 65537 \<noteq> hash_name [97] 1"
    using long_name_exists by blast
  then show ?thesis
    using object_long_name_not_removed [OF start_heap_object, of "long_name c" 1]
      field_key_long_name [of c] c_strlen_long_name [of c] by auto
qed

section \<open>Out of memory\<close>

lemma slot_holds_blocks: "blocks h' = blocks h \<Longrightarrow> slot_holds h' slot q = slot_holds h slot q"
  by (rule slot_holds_cong) simp

lemma object_at_blocks:
  assumes "blocks h' = blocks h" and "object_at h slot cap M B"
  shows "object_at h' slot cap M B"
proof -
  have f: "field_at h' f = field_at h f" for f
    unfolding field_at_def by (rule value_at_cong) (simp add: assms(1))
  have "object_rep h' slot b cap fs = object_rep h slot b cap fs" for b fs
    unfolding object_rep_def by (simp add: f assms(1) slot_holds_blocks [OF assms(1)])
  then show ?thesis
    using assms(2) unfolding object_at_def object_fs_def by (simp add: slot_holds_blocks [OF assms(1)])
qed

lemma object_at_fs:
  assumes "object_at h slot cap M B"
  obtains fs where "object_fs h slot cap fs B" and "M = fields_map fs" and "card (dom M) = length fs"
proof -
  obtain fs where fs: "object_fs h slot cap fs B" "M = fields_map fs"
    using assms by (auto simp: object_at_def)
  have "distinct (map fhash fs)" using fs(1) by (auto simp: object_fs_def object_rep_def)
  then have "card (dom M) = length fs"
    unfolding fs(2) dom_fields_map using distinct_card by fastforce
  with fs show ?thesis by (rule that)
qed

text \<open>Doubling a capacity of \<open>2 ^ 31\<close> or more wraps around: the new buffer is smaller than the
  entries that are copied into it, and the copy overflows it.\<close>

lemma add_wraps:
  assumes rep: "object_rep h slot b cap fs" and wf: "heap_wf h" and full: "length fs = unat cap"
    and cap: "2147483648 \<le> unat cap" and mem: "\<not> oom h (next_block h) (8 + 24 * unat (cap * 2))"
  shows "object_add_entry h slot = Inl (Fault OutOfBounds)"
proof -
  let ?nb = "next_block h" and ?m = "24 * unat (cap * 2)"
  obtain data where d: "slot_holds h slot (Ptr b 0)"
      "blocks h b = Some (counted (of_nat (length fs)) cap data)" "length data = 24 * unat cap"
      "unat (of_nat (length fs) :: u32) = length fs"
    using rep by (rule object_repE)
  have capn: "of_nat (length fs) = cap" using full by simp
  have cap0: "cap \<noteq> 0" "0 < cap" using cap by (auto simp: word_gt_0_unat)
  have "unat (cap * 2) = unat cap * 2 mod 4294967296" by (simp add: unat_word_ariths)
  also have "\<dots> = unat cap * 2 - 4294967296"
    using cap unat_u32_less [of cap] by (simp add: le_mod_geq)
  finally have small: "unat (cap * 2) < unat cap" using unat_u32_less [of cap] cap by simp
  obtain h1 h2 h3 h4 where h: "malloc h (8 + ?m) = (Ptr ?nb 0, h1)"
      "memset h1 (Ptr ?nb 0) 0 (8 + ?m) = Inr h2"
      "atomic_store_u32 h2 (Ptr ?nb 0) cap Relaxed = Inr h3"
      "atomic_store_u32 h3 (Ptr ?nb 4) (cap * 2) Relaxed = Inr h4"
    and b4: "builds h h4 ?nb (counted cap (cap * 2) (replicate ?m (Byte 0)))"
    using builds_counted [OF wf mem] by blast
  have ne: "b \<noteq> ?nb" using heap_wf_live [OF wf d(2)] by simp
  have "blocks h4 b = Some (counted (of_nat (length fs)) cap data)"
    using builds_other [OF b4 ne] d(2) by simp
  moreover have "store_cells Plain h4 (Ptr ?nb 8) xs = Inl (Fault OutOfBounds)"
    if "length xs = 24 * unat cap" for xs
    using builds_block [OF b4] small that by (simp add: store_cells.simps)
  ultimately have "memcpy h4 (Ptr ?nb 8) (Ptr b 8) (24 * unat cap) = Inl (Fault OutOfBounds)"
    using d(3) ne by (simp add: memcpy_def)
  then show ?thesis
    using h cap0 by (simp add: object_add_entry_def load_slot [OF d(1)] obj_buf_defs Let_def capn
        atomic_load_u32_size [OF d(2)] atomic_load_u32_cap [OF d(2)])
qed

text \<open>The growth of the buffer is checked: nothing changes and the status is -1.\<close>

lemma add_entry_oom:
  assumes "object_fs h slot cap fs B" and "length fs = unat cap"
    and "oom h (next_block h) (8 + 24 * unat (obj_grown_cap cap))"
  shows "object_add_entry h slot = Inr (Null, fail_block (8 + 24 * unat (obj_grown_cap cap)) h)"
proof -
  consider "slot_holds h slot Null" "cap = 0" | b where "object_rep h slot b cap fs"
    using assms(1) by (auto simp: object_fs_def)
  then show ?thesis
  proof cases
    case 1
    then show ?thesis
      using assms(3) by (simp add: object_add_entry_def load_slot malloc_def flip: obj_grown_cap_def)
  next
    case 2
    then obtain data where d: "slot_holds h slot (Ptr b 0)"
        "blocks h b = Some (counted (of_nat (length fs)) cap data)"
        "unat (of_nat (length fs) :: u32) = length fs"
      by (rule object_repE)
    have "cap = of_nat (length fs)" using assms(2) d(3) by (simp add: word_unat_eq_iff)
    then show ?thesis
      using assms(3) by (simp add: object_add_entry_def load_slot [OF d(1)] obj_buf_defs
          atomic_load_u32_size [OF d(2)] atomic_load_u32_cap [OF d(2)] malloc_def
          flip: obj_grown_cap_def)
  qed
qed

text \<open>When the entries buffer is full and cannot grow, every setter returns -1 and every
  block is as before.\<close>

lemma object_set_growth_fails:
  assumes "object_at h slot cap M B" and "M (field_key nm) = None" and "card (dom M) = unat cap"
    and "oom h (next_block h) (8 + 24 * unat (obj_grown_cap cap))"
  shows "\<exists>h'. blocks h' = blocks h \<and> msm_object_set_int32 h slot (Some nm) a = Inr (- 1, h') \<and>
    msm_object_set_int64 h slot (Some nm) b = Inr (- 1, h') \<and>
    msm_object_set_float64 h slot (Some nm) c = Inr (- 1, h') \<and>
    msm_object_set_bool h slot (Some nm) d = Inr (- 1, h') \<and>
    msm_object_set_string h slot (Some nm) str len = Inr (- 1, h') \<and>
    msm_object_ensure_object h slot (Some nm) = Inr (Null, h')"
proof -
  obtain fs where fs: "object_fs h slot cap fs B" "length fs = unat cap"
    using object_at_fs [OF assms(1)] assms(3) by metis
  let ?h' = "fail_block (8 + 24 * unat (obj_grown_cap cap)) h"
  have "set_scheme ty sz wr h slot (field_key nm) = Inr (None, ?h')" for ty sz wr
    using find_missing [OF assms(1,2)] add_entry_oom [OF fs assms(4)]
    by (simp add: set_scheme_def object_find_entry_def field_key_def)
  then show ?thesis
    using object_at_slot(1) [OF assms(1)]
    by (intro exI [of _ ?h']) (simp add: set_int32_scheme set_int64_scheme set_float64_scheme
        set_bool_scheme set_string_scheme ensure_object_scheme)
qed

text \<open>The allocation of the value is not checked: when it fails, the zeroing of the value
  writes through a null pointer.\<close>

lemma set_scheme_value_oom:
  assumes "object_at h slot cap M B" and "M (field_key nm) = None" and "card (dom M) < unat cap"
    and "oom h (next_block h) (unat sz)" and "0 < unat sz"
  shows "set_scheme ty sz wr h slot (field_key nm) = Inl (Fault NullDeref)"
proof -
  obtain fs where fs: "object_fs h slot cap fs B" "length fs < unat cap"
    using object_at_fs [OF assms(1)] assms(3) by metis
  then obtain b where rep: "object_rep h slot b cap fs" by (auto simp: object_fs_def)
  obtain data where blk: "blocks h b = Some (counted (of_nat (length fs)) cap data)"
      and len: "length data = 24 * unat cap"
    using rep by (rule object_repE)
  let ?n = "length fs"
  have l: "24 * ?n + 24 \<le> length data" using fs(2) len by linarith
  obtain h2 h3 h4 where w: "entry_set_name_hash h (Ptr b (8 + 24 * ?n)) (field_key nm) = Inr h2"
      "entry_set_type_id h2 (Ptr b (8 + 24 * ?n)) ty = Inr h3"
      "entry_set_size h3 (Ptr b (8 + 24 * ?n)) sz = Inr h4" and h4: "next_block h4 = next_block h" "oom h4 = oom h"
    by (rule head_written [OF blk l])
  have "malloc h4 (unat sz) = (Null, fail_block (unat sz) h4)" using assms(4) h4 by (simp add: malloc_def)
  then show ?thesis
    using find_missing [OF assms(1,2)] add_room [OF rep fs(2)] w assms(5)
    by (simp add: set_scheme_def object_find_entry_def field_key_def memset_def)
qed

text \<open>Claim C33. No setter checks the allocation of the value of a new field: when there is room for
  its entry and the allocation of the value's 8, 16 or 24 bytes fails, every one of the five setters
  and \<open>msm_object_ensure_object\<close> writes through a null pointer.\<close>

theorem object_set_value_alloc_faults:
  assumes "object_at h slot cap M B" and "M (field_key nm) = None" and "card (dom M) < unat cap"
  shows "(oom h (next_block h) 8 \<longrightarrow>
      msm_object_set_int32 h slot (Some nm) a = Inl (Fault NullDeref) \<and>
      msm_object_set_bool h slot (Some nm) b = Inl (Fault NullDeref)) \<and>
    (oom h (next_block h) 16 \<longrightarrow>
      msm_object_set_int64 h slot (Some nm) c = Inl (Fault NullDeref) \<and>
      msm_object_set_float64 h slot (Some nm) d = Inl (Fault NullDeref)) \<and>
    (oom h (next_block h) 24 \<longrightarrow>
      msm_object_set_string h slot (Some nm) str len = Inl (Fault NullDeref) \<and>
      msm_object_ensure_object h slot (Some nm) = Inl (Fault NullDeref))"
  using object_at_slot(1) [OF assms(1)] set_scheme_value_oom [OF assms, of 8]
    set_scheme_value_oom [OF assms, of 16] set_scheme_value_oom [OF assms, of 24]
  by (simp add: set_int32_scheme set_int64_scheme set_float64_scheme set_bool_scheme
      set_string_scheme ensure_object_scheme)

lemma field_key_hp: "field_key hp \<noteq> field_key []"
  by (simp add: field_key_def name_length_def c_strlen_def hp_def hash_name_foldl fnv_step_def)

theorem object_set_value_alloc_faults_witness:
  "msm_object_set_int32 (hp_heap\<lparr>oom := \<lambda>_ _. True\<rparr>) (Ptr 0 0) (Some []) 1 = Inl (Fault NullDeref) \<and>
   msm_object_set_int64 (hp_heap\<lparr>oom := \<lambda>_ _. True\<rparr>) (Ptr 0 0) (Some []) 1 = Inl (Fault NullDeref) \<and>
   msm_object_set_string (hp_heap\<lparr>oom := \<lambda>_ _. True\<rparr>) (Ptr 0 0) (Some []) (Some hp) 2 =
     Inl (Fault NullDeref)"
proof -
  have "object_at (hp_heap\<lparr>oom := \<lambda>_ _. True\<rparr>) (Ptr 0 0) 4 [field_key hp \<mapsto> VInt32 100] {0, 1, 2}"
    by (rule object_at_blocks [OF _ hp_heap_object]) simp
  from object_set_value_alloc_faults [OF this, of "[]"] field_key_hp show ?thesis by simp
qed

end
