(* ===== verification/Msm_Registry.thy ===== *)
theory Msm_Registry
  imports Msm_Hash
begin

text \<open>
  The registry of named regions (\<^verbatim>\<open>msm_allocator.cpp\<close>): the process-wide map from names to
  entries, and the functions that allocate, look up and free a region. Each of them runs under the
  one mutex, so a call is one step of the state; a destructor runs under the mutex as well and is
  a function on the heap (one that called back into the registry would deadlock).
\<close>

section \<open>State\<close>

type_synonym destructor = "heap \<Rightarrow> ptr \<Rightarrow> heap res"

record reg_entry =
  region :: ptr
  region_size :: u64
  region_destructor :: "destructor option"
  region_schema :: u64

record msm_state =
  mem :: heap
  reg :: "u8 list \<rightharpoonup> reg_entry"

text \<open>\<^verbatim>\<open>std::string(name)\<close> is the name up to its NUL.\<close>

definition name_string :: "u8 list \<Rightarrow> u8 list" where
  "name_string bs = takeWhile (\<lambda>c. c \<noteq> 0) bs"

section \<open>The operations\<close>

definition msm_alloc :: "msm_state \<Rightarrow> cstr \<Rightarrow> u64 \<Rightarrow> destructor option \<Rightarrow> (ptr \<times> msm_state) res" where
  "msm_alloc s name n destructor =
     (case name of None \<Rightarrow> Inr (Null, s)
      | Some nm \<Rightarrow> if n = 0 then Inr (Null, s)
          else if reg s (name_string nm) \<noteq> None then Inl (Abort DuplicateName)
          else let (ptr, h1) = malloc (mem s) (unat n)
          in if ptr = Null then Inr (Null, s\<lparr>mem := h1\<rparr>)
             else bindE (memset h1 ptr 0 (unat n)) (\<lambda>h2.
               Inr (ptr, s\<lparr>mem := h2, reg := (reg s)(name_string nm \<mapsto>
                 \<lparr>region = ptr, region_size = n, region_destructor = destructor, region_schema = 0\<rparr>)\<rparr>)))"

definition msm_alloc_with_schema ::
    "msm_state \<Rightarrow> cstr \<Rightarrow> u64 \<Rightarrow> u64 \<Rightarrow> destructor option \<Rightarrow> (ptr \<times> msm_state) res" where
  "msm_alloc_with_schema s name n schema_hash destructor =
     (case name of None \<Rightarrow> Inr (Null, s)
      | Some nm \<Rightarrow> if n = 0 then Inr (Null, s)
          else if reg s (name_string nm) \<noteq> None then Inl (Abort DuplicateName)
          else let (ptr, h1) = malloc (mem s) (unat n)
          in if ptr = Null then Inr (Null, s\<lparr>mem := h1\<rparr>)
             else bindE (memset h1 ptr 0 (unat n)) (\<lambda>h2.
               Inr (ptr, s\<lparr>mem := h2, reg := (reg s)(name_string nm \<mapsto>
                 \<lparr>region = ptr, region_size = n, region_destructor = destructor,
                  region_schema = schema_hash\<rparr>)\<rparr>)))"

definition msm_get_with_schema :: "msm_state \<Rightarrow> cstr \<Rightarrow> u64 \<Rightarrow> ptr res" where
  "msm_get_with_schema s name schema_hash =
     (case name of None \<Rightarrow> Inr Null
      | Some nm \<Rightarrow> (case reg s (name_string nm) of None \<Rightarrow> Inr Null
          | Some it \<Rightarrow> if region_schema it \<noteq> schema_hash then Inl (Abort SchemaMismatch)
              else Inr (region it)))"

definition msm_get_schema_hash :: "msm_state \<Rightarrow> cstr \<Rightarrow> u64" where
  "msm_get_schema_hash s name =
     (case name of None \<Rightarrow> 0
      | Some nm \<Rightarrow> (case reg s (name_string nm) of None \<Rightarrow> 0 | Some it \<Rightarrow> region_schema it))"

definition msm_get :: "msm_state \<Rightarrow> cstr \<Rightarrow> ptr" where
  "msm_get s name =
     (case name of None \<Rightarrow> Null
      | Some nm \<Rightarrow> (case reg s (name_string nm) of None \<Rightarrow> Null | Some it \<Rightarrow> region it))"

definition msm_free :: "msm_state \<Rightarrow> cstr \<Rightarrow> msm_state res" where
  "msm_free s name =
     (case name of None \<Rightarrow> Inr s
      | Some nm \<Rightarrow> (case reg s (name_string nm) of None \<Rightarrow> Inr s
          | Some it \<Rightarrow>
              bindE (case region_destructor it of None \<Rightarrow> Inr (mem s)
                     | Some d \<Rightarrow> d (mem s) (region it)) (\<lambda>h1.
              bindE (free h1 (region it)) (\<lambda>h2.
              Inr (s\<lparr>mem := h2, reg := (reg s)(name_string nm := None)\<rparr>)))))"

section \<open>The invariant\<close>

text \<open>Every entry points to the start of a live block of its size, and no two entries share one.\<close>

definition root_at :: "heap \<Rightarrow> reg_entry \<Rightarrow> bool" where
  "root_at h it \<longleftrightarrow> (\<exists>b cs. region it = Ptr b 0 \<and> blocks h b = Some cs \<and>
     length cs = unat (region_size it) \<and> region_size it \<noteq> 0)"

definition registry_wf :: "msm_state \<Rightarrow> bool" where
  "registry_wf s \<longleftrightarrow> heap_wf (mem s) \<and> (\<forall>it \<in> ran (reg s). root_at (mem s) it) \<and>
     (\<forall>m n i j. reg s m = Some i \<longrightarrow> reg s n = Some j \<longrightarrow> blk (region i) = blk (region j) \<longrightarrow> m = n)"

text \<open>
  What the rest of the program may do to memory between calls of the registry: anything that does
  not free or resize the registered regions. A destructor is held to the same.
\<close>

definition keeps_regions :: "msm_state \<Rightarrow> heap \<Rightarrow> bool" where
  "keeps_regions s h' \<longleftrightarrow> heap_wf h' \<and> next_block (mem s) \<le> next_block h' \<and>
     (\<forall>it \<in> ran (reg s). map_option length (blocks h' (blk (region it))) =
        map_option length (blocks (mem s) (blk (region it))))"

definition good_destructor :: "msm_state \<Rightarrow> reg_entry \<Rightarrow> bool" where
  "good_destructor s it \<longleftrightarrow>
     (case region_destructor it of None \<Rightarrow> True
      | Some d \<Rightarrow> \<forall>h'. d (mem s) (region it) = Inr h' \<longrightarrow> keeps_regions s h')"

inductive registry_step :: "msm_state \<Rightarrow> msm_state \<Rightarrow> bool" where
  alloc: "msm_alloc s name n d = Inr (p, s') \<Longrightarrow> registry_step s s'"
| alloc_with_schema: "msm_alloc_with_schema s name n k d = Inr (p, s') \<Longrightarrow> registry_step s s'"
| free: "msm_free s name = Inr s' \<Longrightarrow> \<forall>it \<in> ran (reg s). good_destructor s it \<Longrightarrow> registry_step s s'"
| client: "keeps_regions s h' \<Longrightarrow> registry_step s (s\<lparr>mem := h'\<rparr>)"

inductive_cases registry_stepE: "registry_step s s'"

definition registry_init :: "msm_state \<Rightarrow> bool" where
  "registry_init s \<longleftrightarrow> reg s = Map.empty \<and> heap_wf (mem s)"

inductive registry_reachable :: "msm_state \<Rightarrow> bool" where
  init: "registry_init s \<Longrightarrow> registry_reachable s"
| step: "registry_reachable s \<Longrightarrow> registry_step s s' \<Longrightarrow> registry_reachable s'"

lemma alloc_is_schema_0: "msm_alloc s name n d = msm_alloc_with_schema s name n 0 d"
  by (simp add: msm_alloc_def msm_alloc_with_schema_def)

text \<open>The four outcomes of an allocation.\<close>

lemma alloc_with_schema_cases:
  assumes "msm_alloc_with_schema s name n k d = r"
  obtains (refused) "name = None \<or> n = 0" and "r = Inr (Null, s)"
  | (duplicate) nm where "name = Some nm" and "n \<noteq> 0" and "reg s (name_string nm) \<noteq> None"
      and "r = Inl (Abort DuplicateName)"
  | (oom) nm where "name = Some nm" and "n \<noteq> 0" and "reg s (name_string nm) = None"
      and "oom (mem s) (next_block (mem s)) (unat n)"
      and "r = Inr (Null, s\<lparr>mem := fail_block (unat n) (mem s)\<rparr>)"
  | (new) nm where "name = Some nm" and "n \<noteq> 0" and "reg s (name_string nm) = None"
      and "\<not> oom (mem s) (next_block (mem s)) (unat n)"
      and "r = Inr (Ptr (next_block (mem s)) 0,
        s\<lparr>mem := put Plain (next_block (mem s)) 0 (replicate (unat n) (Byte 0)) (new_block (unat n) (mem s)),
         reg := (reg s)(name_string nm \<mapsto> \<lparr>region = Ptr (next_block (mem s)) 0, region_size = n,
           region_destructor = d, region_schema = k\<rparr>)\<rparr>)"
proof (cases name)
  case None
  then show ?thesis using assms refused by (simp add: msm_alloc_with_schema_def)
next
  case (Some nm)
  let ?b = "next_block (mem s)"
  have ms: "memset (new_block (unat n) (mem s)) (Ptr ?b 0) 0 (unat n) =
      Inr (put Plain ?b 0 (replicate (unat n) (Byte 0)) (new_block (unat n) (mem s)))"
    by (simp add: memset_at)
  consider "n = 0" | "n \<noteq> 0" "reg s (name_string nm) \<noteq> None"
    | "n \<noteq> 0" "reg s (name_string nm) = None" "oom (mem s) ?b (unat n)"
    | "n \<noteq> 0" "reg s (name_string nm) = None" "\<not> oom (mem s) ?b (unat n)" by blast
  then show ?thesis
  proof cases
    case 1
    then show ?thesis using assms Some refused by (simp add: msm_alloc_with_schema_def)
  next
    case 2
    then show ?thesis using assms Some duplicate by (simp add: msm_alloc_with_schema_def)
  next
    case 3
    then show ?thesis using assms Some oom by (simp add: msm_alloc_with_schema_def malloc_def)
  next
    case 4
    then show ?thesis using assms Some new ms by (simp add: msm_alloc_with_schema_def malloc_def)
  qed
qed

lemma root_at_cong:
  "root_at h it \<Longrightarrow>
   map_option length (blocks h' (blk (region it))) = map_option length (blocks h (blk (region it))) \<Longrightarrow>
   root_at h' it"
  by (auto simp: root_at_def)

lemma root_at_live: "root_at h it \<Longrightarrow> heap_wf h \<Longrightarrow> blk (region it) < next_block h"
  by (auto simp: root_at_def dest: heap_wf_live)

lemma registry_wfI:
  assumes "heap_wf (mem s)" and "\<And>it. it \<in> ran (reg s) \<Longrightarrow> root_at (mem s) it"
    and "\<And>m n i j. reg s m = Some i \<Longrightarrow> reg s n = Some j \<Longrightarrow> blk (region i) = blk (region j) \<Longrightarrow> m = n"
  shows "registry_wf s"
  unfolding registry_wf_def using assms by blast

lemma registry_wf_inj:
  "registry_wf s \<Longrightarrow> reg s m = Some i \<Longrightarrow> reg s n = Some j \<Longrightarrow> blk (region i) = blk (region j) \<Longrightarrow> m = n"
  unfolding registry_wf_def by blast

lemma registry_wf_root: "registry_wf s \<Longrightarrow> reg s m = Some i \<Longrightarrow> root_at (mem s) i"
  unfolding registry_wf_def by (blast intro: ranI)

lemma registry_wf_client:
  assumes "registry_wf s" and "keeps_regions s h'"
  shows "registry_wf (s\<lparr>mem := h'\<rparr>)"
  using assms root_at_cong by (fastforce simp: registry_wf_def keeps_regions_def)

lemma registry_wf_alloc:
  assumes wf: "registry_wf s" and run: "msm_alloc_with_schema s name n k d = Inr (p, s')"
  shows "registry_wf s'"
  using run
proof (cases rule: alloc_with_schema_cases)
  case refused
  with wf show ?thesis by simp
next
  case oom
  have "keeps_regions s (fail_block (unat n) (mem s))"
    using wf by (simp add: keeps_regions_def registry_wf_def)
  then show ?thesis using oom registry_wf_client [OF wf] by simp
next
  case (new nm)
  let ?b = "next_block (mem s)"
  let ?h = "put Plain ?b 0 (replicate (unat n) (Byte 0)) (new_block (unat n) (mem s))"
  let ?it = "\<lparr>region = Ptr ?b 0, region_size = n, region_destructor = d, region_schema = k\<rparr>"
  have s': "s' = s\<lparr>mem := ?h, reg := (reg s)(name_string nm \<mapsto> ?it)\<rparr>" using new by simp
  have hw: "heap_wf (mem s)" using wf by (simp add: registry_wf_def)
  have old: "blk (region it) < ?b" "root_at ?h it" if "it \<in> ran (reg s)" for it
  proof -
    have r: "root_at (mem s) it" using wf that by (simp add: registry_wf_def)
    show lt: "blk (region it) < ?b" by (rule root_at_live [OF r hw])
    show "root_at ?h it" using lt by (intro root_at_cong [OF r]) (simp add: blocks_put)
  qed
  have "root_at ?h ?it" using new(2) by (simp add: root_at_def blocks_put)
  then have roots: "root_at ?h it" if "it \<in> ran (reg s')" for it
    using that old new(3) by (auto simp: s' ran_map_upd)
  have fresh: "blk (region it) \<noteq> ?b" if "reg s m = Some it" for m it
    using old(1) that by (metis less_irrefl ranI)
  have inj: "m = m'" if "reg s' m = Some i" "reg s' m' = Some j" "blk (region i) = blk (region j)"
    for m m' i j
  proof -
    have m: "m = name_string nm \<and> blk (region i) = ?b \<or> reg s m = Some i \<and> blk (region i) \<noteq> ?b"
      using that(1) fresh [of m i] by (auto simp: s' split: if_splits)
    have m': "m' = name_string nm \<and> blk (region j) = ?b \<or> reg s m' = Some j \<and> blk (region j) \<noteq> ?b"
      using that(2) fresh [of m' j] by (auto simp: s' split: if_splits)
    from m m' that(3) show ?thesis using registry_wf_inj [OF wf] by metis
  qed
  show ?thesis
  proof (rule registry_wfI)
    show "heap_wf (mem s')" using hw by (simp add: s')
    show "root_at (mem s') it" if "it \<in> ran (reg s')" for it
      using roots [OF that] by (simp add: s')
  qed (rule inj)
qed simp_all

lemma registry_wf_free:
  assumes wf: "registry_wf s" and run: "msm_free s name = Inr s'"
    and good: "\<forall>it \<in> ran (reg s). good_destructor s it"
  shows "registry_wf s'"
proof -
  consider "s' = s" | nm it where "name = Some nm" "reg s (name_string nm) = Some it"
    using run by (auto simp: msm_free_def split: option.splits)
  then show ?thesis
  proof cases
    case 1
    with wf show ?thesis by simp
  next
    case 2
    obtain h1 h2 where h1: "(case region_destructor it of None \<Rightarrow> Inr (mem s)
          | Some d \<Rightarrow> d (mem s) (region it)) = Inr h1"
      and h2: "free h1 (region it) = Inr h2"
      and s': "s' = s\<lparr>mem := h2, reg := (reg s)(name_string nm := None)\<rparr>"
      using run 2 by (auto simp: msm_free_def bindE_eq_Inr)
    have it: "it \<in> ran (reg s)" using 2 by (auto intro: ranI)
    have keep: "keeps_regions s h1"
    proof (cases "region_destructor it")
      case None
      then show ?thesis using h1 wf by (simp add: keeps_regions_def registry_wf_def)
    next
      case (Some d)
      then show ?thesis using h1 good it by (auto simp: good_destructor_def)
    qed
    have wf1: "registry_wf (s\<lparr>mem := h1\<rparr>)" by (rule registry_wf_client [OF wf keep])
    obtain b where b: "region it = Ptr b 0"
      using registry_wf_root [OF wf 2(2)] by (auto simp: root_at_def)
    have h2': "h2 = drop_block b h1" using h2 b by (auto split: if_splits)
    have root: "root_at h2 i" if "i \<in> ran (reg s')" for i
    proof -
      obtain m where m: "reg s m = Some i" "m \<noteq> name_string nm"
        using \<open>i \<in> ran (reg s')\<close> by (auto simp: s' ran_def split: if_splits)
      then have "blk (region i) \<noteq> b"
        using registry_wf_inj [OF wf m(1) 2(2)] b by auto
      then have "map_option length (blocks h2 (blk (region i))) = map_option length (blocks h1 (blk (region i)))"
        by (simp add: h2')
      moreover have "root_at h1 i" using registry_wf_root [OF wf1, of m i] m(1) by simp
      ultimately show ?thesis by (rule root_at_cong [rotated])
    qed
    have hw: "heap_wf h2" using wf1 by (simp add: h2' registry_wf_def)
    have inj: "m = n" if "reg s' m = Some i" "reg s' n = Some j"
      "blk (region i) = blk (region j)" for m n i j
    proof -
      have "reg s m = Some i" "reg s n = Some j"
        using that(1,2) by (simp_all add: s' split: if_splits)
      then show ?thesis using that(3) by (rule registry_wf_inj [OF wf])
    qed
    show ?thesis
    proof (rule registry_wfI)
      show "heap_wf (mem s')" using hw by (simp add: s')
      show "root_at (mem s') i" if "i \<in> ran (reg s')" for i
        using root [OF that] by (simp add: s')
    qed (rule inj)
  qed
qed

lemma registry_reachable_wf: "registry_reachable s \<Longrightarrow> registry_wf s"
proof (induction rule: registry_reachable.induct)
  case (init s)
  then show ?case by (simp add: registry_wf_def registry_init_def)
next
  case (step s s')
  from step.hyps(2) show ?case
  proof (cases rule: registry_step.cases)
    case (alloc name n d p)
    then show ?thesis using registry_wf_alloc [OF step.IH] by (simp add: alloc_is_schema_0)
  next
    case (alloc_with_schema name n k d p)
    then show ?thesis using registry_wf_alloc [OF step.IH] by simp
  next
    case (free name)
    then show ?thesis using registry_wf_free [OF step.IH] by simp
  next
    case (client h')
    then show ?thesis using registry_wf_client [OF step.IH] by simp
  qed
qed

section \<open>The life of one region\<close>

text \<open>The steps of the registry, apart from those that free the region called \<open>key\<close>, and their
  runs.\<close>

inductive other_step :: "u8 list \<Rightarrow> msm_state \<Rightarrow> msm_state \<Rightarrow> bool" for key where
  alloc: "msm_alloc s name n d = Inr (p, s') \<Longrightarrow> other_step key s s'"
| alloc_with_schema: "msm_alloc_with_schema s name n k d = Inr (p, s') \<Longrightarrow> other_step key s s'"
| free: "msm_free s name = Inr s' \<Longrightarrow> map_option name_string name \<noteq> Some key \<Longrightarrow>
    \<forall>it \<in> ran (reg s). good_destructor s it \<Longrightarrow> other_step key s s'"
| client: "keeps_regions s h' \<Longrightarrow> other_step key s (s\<lparr>mem := h'\<rparr>)"

inductive other_run :: "u8 list \<Rightarrow> msm_state \<Rightarrow> msm_state \<Rightarrow> bool" for key where
  stay: "other_run key s s"
| step: "other_run key s s' \<Longrightarrow> other_step key s' s'' \<Longrightarrow> other_run key s s''"

lemma other_step_registry: "other_step key s s' \<Longrightarrow> registry_step s s'"
  by (induction rule: other_step.induct) (blast intro: registry_step.intros)+

lemma alloc_keeps_entry:
  assumes "msm_alloc_with_schema s name n k d = Inr (p, s')" and "reg s key = Some it"
  shows "reg s' key = Some it"
  using assms(1) by (cases rule: alloc_with_schema_cases) (use assms(2) in auto)

lemma other_step_entry:
  assumes "other_step key s s'" and "reg s key = Some it"
  shows "reg s' key = Some it"
  using assms(1)
proof cases
  case (alloc name n d p)
  then show ?thesis using alloc_keeps_entry assms(2) by (simp add: alloc_is_schema_0)
next
  case (alloc_with_schema name n k d p)
  then show ?thesis using alloc_keeps_entry assms(2) by simp
next
  case (free name)
  then show ?thesis
    using assms(2) by (auto simp: msm_free_def bindE_eq_Inr split: option.splits)
next
  case (client h')
  then show ?thesis using assms(2) by simp
qed

lemma other_run_reachable: "other_run key s s' \<Longrightarrow> registry_reachable s \<Longrightarrow> registry_reachable s'"
  by (induction rule: other_run.induct) (blast intro: registry_reachable.step other_step_registry)+

lemma other_run_entry: "other_run key s s' \<Longrightarrow> reg s key = Some it \<Longrightarrow> reg s' key = Some it"
  by (induction rule: other_run.induct) (auto intro: other_step_entry)

end
