(* ===== verification/Msm_Registry_Props.thy ===== *)
theory Msm_Registry_Props
  imports Msm_Registry Msm_String_Props
begin

text \<open>The properties of the registry of named regions.\<close>

section \<open>Allocating\<close>

definition start_state :: msm_state where
  "start_state = \<lparr>mem = start_heap, reg = Map.empty\<rparr>"

text \<open>Claim C20. The outcomes of \<open>msm_alloc_with_schema\<close> (and of \<open>msm_alloc\<close>, which is the same with
  hash 0): a null name or size 0 returns null and changes nothing; a name that is taken aborts; when
  \<open>malloc\<close> fails null is returned and the registry is unchanged; otherwise the call returns a fresh
  block of that many zero bytes, which the lookups of that name find, with its hash, and the lookups
  of every other name return what they did before.\<close>

theorem registry_alloc_correct:
  "msm_alloc s name n d = msm_alloc_with_schema s name n 0 d \<and>
   (case name of None \<Rightarrow> msm_alloc_with_schema s name n k d = Inr (Null, s)
    | Some nm \<Rightarrow>
      if n = 0 then msm_alloc_with_schema s name n k d = Inr (Null, s)
      else if reg s (name_string nm) \<noteq> None then
        msm_alloc_with_schema s name n k d = Inl (Abort DuplicateName)
      else if oom (mem s) (next_block (mem s)) (unat n) then
        \<exists>s'. msm_alloc_with_schema s name n k d = Inr (Null, s') \<and> reg s' = reg s \<and>
          blocks (mem s') = blocks (mem s)
      else \<exists>b s'. msm_alloc_with_schema s name n k d = Inr (Ptr b 0, s') \<and>
        b = next_block (mem s) \<and> blocks (mem s') = (blocks (mem s))(b \<mapsto> replicate (unat n) (Byte 0)) \<and>
        msm_get s' name = Ptr b 0 \<and> msm_get_schema_hash s' name = k \<and>
        (\<forall>other. name_string other = name_string nm \<or>
          msm_get s' (Some other) = msm_get s (Some other) \<and>
          msm_get_schema_hash s' (Some other) = msm_get_schema_hash s (Some other)))"
proof -
  obtain r where r: "msm_alloc_with_schema s name n k d = r" by blast
  then have "case name of None \<Rightarrow> r = Inr (Null, s)
    | Some nm \<Rightarrow>
      if n = 0 then r = Inr (Null, s)
      else if reg s (name_string nm) \<noteq> None then
        r = Inl (Abort DuplicateName)
      else if oom (mem s) (next_block (mem s)) (unat n) then
        \<exists>s'. r = Inr (Null, s') \<and> reg s' = reg s \<and>
          blocks (mem s') = blocks (mem s)
      else \<exists>b s'. r = Inr (Ptr b 0, s') \<and>
        b = next_block (mem s) \<and> blocks (mem s') = (blocks (mem s))(b \<mapsto> replicate (unat n) (Byte 0)) \<and>
        msm_get s' name = Ptr b 0 \<and> msm_get_schema_hash s' name = k \<and>
        (\<forall>other. name_string other = name_string nm \<or>
          msm_get s' (Some other) = msm_get s (Some other) \<and>
          msm_get_schema_hash s' (Some other) = msm_get_schema_hash s (Some other))"
  proof (cases rule: alloc_with_schema_cases)
    case (new nm)
    then show ?thesis
      by (auto simp: msm_get_def msm_get_schema_hash_def blocks_put)
  qed (auto split: option.splits)
  then show ?thesis unfolding r using alloc_is_schema_0 by simp
qed

section \<open>Looking up\<close>

text \<open>Claim C21. The schema of a region guards it for its whole life. After a successful
  \<open>msm_alloc_with_schema\<close> in a reachable state, and after any number of further steps of the
  program that do not free that name (allocations, other regions' frees, clients' writes),
  \<open>msm_get_with_schema\<close> with the hash of the allocation returns the region's pointer, which is a
  live block of the allocated size, and aborts with any other hash; a second allocation of the name
  aborts as well. Once the name is freed the lookup returns null.\<close>

theorem registry_schema_guard:
  assumes "registry_reachable s" and "msm_alloc_with_schema s (Some nm) n k d = Inr (p, s1)"
    and "p \<noteq> Null" and "other_run (name_string nm) s1 s2"
  shows "msm_get_with_schema s2 (Some nm) j = (if j = k then Inr p else Inl (Abort SchemaMismatch)) \<and>
    (\<exists>b cs. p = Ptr b 0 \<and> blocks (mem s2) b = Some cs \<and> length cs = unat n) \<and>
    msm_get_schema_hash s2 (Some nm) = k \<and>
    msm_alloc_with_schema s2 (Some nm) n j d' = Inl (Abort DuplicateName) \<and>
    (\<forall>s3. msm_free s2 (Some nm) = Inr s3 \<longrightarrow> msm_get_with_schema s3 (Some nm) j = Inr Null)"
proof -
  obtain it where it: "reg s1 (name_string nm) = Some it" "region it = p" "region_size it = n"
      "region_schema it = k" "n \<noteq> 0"
    using assms(2) by (cases rule: alloc_with_schema_cases) (use assms(3) in auto)
  have reach: "registry_reachable s2"
    using other_run_reachable [OF assms(4)] assms(1,2)
    by (blast intro: registry_reachable.step registry_step.alloc_with_schema)
  have it2: "reg s2 (name_string nm) = Some it" by (rule other_run_entry [OF assms(4) it(1)])
  have "\<exists>b cs. p = Ptr b 0 \<and> blocks (mem s2) b = Some cs \<and> length cs = unat n"
    using registry_wf_root [OF registry_reachable_wf [OF reach] it2] it(2,3)
    by (auto simp: root_at_def)
  moreover have "msm_get_with_schema s3 (Some nm) j = Inr Null" if "msm_free s2 (Some nm) = Inr s3" for s3
    using that it2 by (auto simp: msm_free_def bindE_eq_Inr msm_get_with_schema_def)
  ultimately show ?thesis
    using it it2 by (simp add: msm_get_with_schema_def msm_get_schema_hash_def msm_alloc_with_schema_def)
qed

lemma start_state_reachable: "registry_reachable start_state"
  by (rule registry_reachable.init) (simp add: registry_init_def start_state_def)

theorem registry_schema_guard_witness:
  "\<exists>s1 s2 q. msm_alloc_with_schema start_state (Some [103]) 16 7 None = Inr (Ptr 1 0, s1) \<and>
     msm_alloc s1 (Some [104]) 8 None = Inr (q, s2) \<and>
     msm_get_with_schema s2 (Some [103]) 7 = Inr (Ptr 1 0) \<and>
     msm_get_with_schema s2 (Some [103]) 8 = Inl (Abort SchemaMismatch)"
proof -
  obtain s1 where 1: "msm_alloc_with_schema start_state (Some [103]) 16 7 None = Inr (Ptr 1 0, s1)"
    and s1: "reg s1 = [[103] \<mapsto> \<lparr>region = Ptr 1 0, region_size = 16, region_destructor = None,
        region_schema = 7\<rparr>]" "oom (mem s1) = (\<lambda>_ _. False)"
    by (simp add: msm_alloc_with_schema_def start_state_def malloc_def memset_at name_string_def)
  obtain q s2 where 2: "msm_alloc s1 (Some [104]) 8 None = Inr (q, s2)"
    using s1 by (simp add: msm_alloc_def malloc_def memset_at name_string_def)
  have "other_run (name_string [103]) s1 s2"
    using other_step.alloc [OF 2] by (blast intro: other_run.intros)
  note guard = registry_schema_guard [OF start_state_reachable 1 _ this]
  show ?thesis using 1 2 guard [of 7] guard [of 8] by auto
qed

section \<open>Freeing\<close>

text \<open>Claim C19. \<open>msm_free\<close> of a registered region whose destructor keeps the regions: the destructor is
  run on the memory as it is, before anything is freed; then the region's block is freed, exactly
  that one, and the name is gone, so that freeing it again does nothing. Lookups of other names
  return what they did before.\<close>

theorem registry_free_correct:
  assumes "registry_wf s" and "reg s (name_string nm) = Some it" and "good_destructor s it"
    and "(case region_destructor it of None \<Rightarrow> Inr (mem s) | Some d \<Rightarrow> d (mem s) (region it)) = Inr h1"
  shows "\<exists>s' b. msm_free s (Some nm) = Inr s' \<and> region it = Ptr b 0 \<and> mem s' = drop_block b h1 \<and>
    blocks h1 b \<noteq> None \<and> msm_get s' (Some nm) = Null \<and> msm_free s' (Some nm) = Inr s' \<and>
    (\<forall>other. name_string other = name_string nm \<or> msm_get s' (Some other) = msm_get s (Some other))"
proof -
  obtain b where b: "region it = Ptr b 0" "blocks (mem s) b \<noteq> None"
    using registry_wf_root [OF assms(1,2)] by (auto simp: root_at_def)
  have it: "it \<in> ran (reg s)" using assms(2) by (rule ranI)
  have live: "blocks h1 b \<noteq> None"
  proof (cases "region_destructor it")
    case None
    then show ?thesis using assms(4) b(2) by simp
  next
    case (Some d)
    then have "keeps_regions s h1" using assms(3,4) by (simp add: good_destructor_def)
    then have "map_option length (blocks h1 b) = map_option length (blocks (mem s) b)"
      using it b(1) by (force simp: keeps_regions_def)
    then show ?thesis using b(2) by auto
  qed
  let ?s' = "s\<lparr>mem := drop_block b h1, reg := (reg s)(name_string nm := None)\<rparr>"
  have run: "msm_free s (Some nm) = Inr ?s'"
    using assms(2,4) b(1) live by (simp add: msm_free_def)
  moreover have "msm_free ?s' (Some nm) = Inr ?s'" by (simp add: msm_free_def)
  moreover have "msm_get ?s' (Some nm) = Null" by (simp add: msm_get_def)
  moreover have "\<forall>other. name_string other = name_string nm \<or>
      msm_get ?s' (Some other) = msm_get s (Some other)"
    by (simp add: msm_get_def)
  ultimately show ?thesis using b(1) live by (intro exI [of _ ?s'] exI [of _ b]) simp
qed

text \<open>A region that is a string slot with the string \<open>"hi"\<close>, registered with the string's
  destructor as \<^verbatim>\<open>segment::create<string>\<close> does it.\<close>

definition string_region :: reg_entry where
  "string_region =
     \<lparr>region = Ptr 0 0, region_size = 16, region_destructor = Some string_deallocate, region_schema = 0\<rparr>"

definition string_state :: msm_state where
  "string_state = \<lparr>mem = greeting_heap, reg = [[103] \<mapsto> string_region]\<rparr>"

lemma string_state_wf: "registry_wf string_state"
proof (rule registry_wfI)
  show "root_at (mem string_state) it" if "it \<in> ran (reg string_state)" for it
    using that by (simp add: string_state_def string_region_def root_at_def greeting_heap_def)
qed (auto simp: string_state_def greeting_heap_wf split: if_splits)

text \<open>The destructor frees block 1, the string's buffer, and clears the slot.\<close>

lemma string_region_destructor:
  "string_deallocate greeting_heap (Ptr 0 0) =
     Inr (put Plain 0 8 (ptr_cells Null) (drop_block 1 greeting_heap))"
  using string_deallocate_rep [OF greeting_heap_rep] by simp

lemma string_region_good: "good_destructor string_state string_region"
  by (simp add: good_destructor_def string_state_def string_region_def string_region_destructor
      keeps_regions_def greeting_heap_wf blocks_put) (simp add: greeting_heap_def)

theorem registry_free_correct_witness:
  "\<exists>s'. msm_free string_state (Some [103]) = Inr s' \<and> msm_get s' (Some [103]) = Null \<and>
     blocks (mem string_state) 1 \<noteq> None \<and> blocks (mem s') 1 = None \<and> blocks (mem s') 0 = None"
proof -
  let ?h1 = "put Plain 0 8 (ptr_cells Null) (drop_block 1 greeting_heap)"
  have "reg string_state (name_string [103]) = Some string_region"
    by (simp add: string_state_def name_string_def)
  moreover have "(case region_destructor string_region of None \<Rightarrow> Inr (mem string_state)
      | Some d \<Rightarrow> d (mem string_state) (region string_region)) = Inr ?h1"
    using string_region_destructor by (simp add: string_region_def string_state_def)
  ultimately obtain s' b where "msm_free string_state (Some [103]) = Inr s'" "region string_region = Ptr b 0"
      "mem s' = drop_block b ?h1" "msm_get s' (Some [103]) = Null"
    using registry_free_correct [OF string_state_wf _ string_region_good] by metis
  moreover have "blocks (mem string_state) 1 \<noteq> None" by (simp add: string_state_def greeting_heap_def)
  ultimately show ?thesis by (auto simp: string_region_def blocks_put)
qed

section \<open>The invariant of the registry\<close>

text \<open>Claim C18. In every state the program can reach by allocating and freeing regions, with destructors
  and clients that do not free regions themselves, \<open>msm_get\<close> returns null or the start of a live
  block of the registered size, and two different names never share a block.\<close>

theorem registry_regions_live:
  assumes "registry_reachable s" and "reg s (name_string nm) = Some it"
  shows "(\<exists>b cs. msm_get s (Some nm) = Ptr b 0 \<and> blocks (mem s) b = Some cs \<and>
      length cs = unat (region_size it)) \<and>
    (\<forall>other jt. reg s (name_string other) = Some jt \<and> name_string other \<noteq> name_string nm \<longrightarrow>
      blk (msm_get s (Some other)) \<noteq> blk (msm_get s (Some nm)))"
proof -
  have wf: "registry_wf s" by (rule registry_reachable_wf [OF assms(1)])
  show ?thesis
  proof (intro conjI allI impI)
    show "\<exists>b cs. msm_get s (Some nm) = Ptr b 0 \<and> blocks (mem s) b = Some cs \<and>
        length cs = unat (region_size it)"
      using registry_wf_root [OF wf assms(2)] assms(2) by (auto simp: root_at_def msm_get_def)
  next
    fix other jt
    assume *: "reg s (name_string other) = Some jt \<and> name_string other \<noteq> name_string nm"
    then have "blk (region jt) \<noteq> blk (region it)"
      using registry_wf_inj [OF wf _ assms(2)] by metis
    then show "blk (msm_get s (Some other)) \<noteq> blk (msm_get s (Some nm))"
      using * assms(2) by (simp add: msm_get_def)
  qed
qed

theorem registry_regions_live_witness:
  "\<exists>s. msm_alloc start_state (Some [103]) 16 None = Inr (Ptr 1 0, s) \<and>
     (\<exists>cs. blocks (mem s) 1 = Some cs \<and> length cs = 16)"
proof -
  let ?it = "\<lparr>region = Ptr 1 0, region_size = 16, region_destructor = None, region_schema = 0\<rparr>"
  obtain s where s: "msm_alloc start_state (Some [103]) 16 None = Inr (Ptr 1 0, s)"
      "reg s (name_string [103]) = Some ?it"
    by (simp add: msm_alloc_def start_state_def malloc_def memset_at name_string_def)
  have "registry_reachable s"
    using start_state_reachable registry_step.alloc [OF s(1)] by (rule registry_reachable.step)
  from registry_regions_live [OF this s(2)] s show ?thesis by (auto simp: msm_get_def)
qed

end
