(* ===== verification/Msm_Types.thy ===== *)
theory Msm_Types
  imports Msm_Array Msm_Record Msm_Object Msm_Registry
begin

text \<open>
  The C++ layer over the C functions: \<^verbatim>\<open>msm::array\<close> (\<^verbatim>\<open>array.hpp\<close>), \<^verbatim>\<open>msm::object\<close>
  and its proxy (\<^verbatim>\<open>object.hpp\<close>), the \<^verbatim>\<open>deallocate\<close> function that every type has,
  \<^verbatim>\<open>msm::segment\<close> (\<^verbatim>\<open>segment.hpp\<close>) and the array functions of \<^verbatim>\<open>capi.cpp\<close>. A view
  is its pointer; the template argument of \<^verbatim>\<open>array\<close> is a \<open>ty\<close>, and the assignment operator of
  the item type is an argument where a function uses it.
\<close>

section \<open>Deallocation\<close>

text \<open>\<^verbatim>\<open>item_size\<close> is the item's \<^verbatim>\<open>slot_size\<close> cast to \<^verbatim>\<open>uint32_t\<close>; \<^verbatim>\<open>i * item_size\<close> in the
  loop of \<^verbatim>\<open>array::deallocate\<close> is computed in \<^verbatim>\<open>uint32_t\<close>, and so is \<^verbatim>\<open>i * 24\<close> in
  \<^verbatim>\<open>object::deallocate\<close>.\<close>

definition item_size :: "ty \<Rightarrow> u32" where
  "item_size t = ucast (slot_size t)"

lemma item_size_extent: "item_size t = of_nat (extent t)"
  by (simp add: item_size_def slot_size_extent word_unat_eq_iff unat_of_nat unsigned_ucast_eq
      take_bit_nat_def mod_mod_cancel)

fun array_deallocate_items ::
    "(heap \<Rightarrow> ptr \<Rightarrow> heap res) \<Rightarrow> u32 \<Rightarrow> ptr \<Rightarrow> u32 \<Rightarrow> nat \<Rightarrow> heap \<Rightarrow> heap res" where
  "array_deallocate_items item_dealloc isz elems i 0 h = Inr h"
| "array_deallocate_items item_dealloc isz elems i (Suc r) h =
     bindE (item_dealloc h (padd elems (unat (i * isz)))) (\<lambda>h1.
       array_deallocate_items item_dealloc isz elems (i + 1) r h1)"

definition array_deallocate :: "(heap \<Rightarrow> ptr \<Rightarrow> heap res) \<Rightarrow> u32 \<Rightarrow> heap \<Rightarrow> ptr \<Rightarrow> heap res" where
  "array_deallocate item_dealloc isz h slot =
     (if slot = Null then Inr h
      else bindE (load_ptr h (padd slot 8)) (\<lambda>buf.
        if buf = Null then Inr h
        else bindE (load_u32 h buf) (\<lambda>sz.
          bindE (array_deallocate_items item_dealloc isz (padd buf 8) 0 (unat sz) h) (\<lambda>h1.
          bindE (free h1 buf) (\<lambda>h2. store_ptr h2 (padd slot 8) Null)))))"

fun object_deallocate_entries :: "ptr \<Rightarrow> u32 \<Rightarrow> nat \<Rightarrow> heap \<Rightarrow> heap res" where
  "object_deallocate_entries entries i 0 h = Inr h"
| "object_deallocate_entries entries i (Suc r) h =
     (let e = padd entries (unat (i * 24)) in
      bindE (load_u16 h (padd e 8)) (\<lambda>t.
      bindE (load_ptr h (padd e 16)) (\<lambda>val.
      bindE (if val \<noteq> Null
             then bindE (if t = 6
                         then bindE (load_ptr h (padd val 8)) (\<lambda>str_data.
                           if str_data \<noteq> Null then free h str_data else Inr h)
                         else Inr h) (\<lambda>h1. free h1 val)
             else Inr h) (\<lambda>h2.
      object_deallocate_entries entries (i + 1) r h2))))"

definition object_deallocate :: "heap \<Rightarrow> ptr \<Rightarrow> heap res" where
  "object_deallocate h slot =
     (if slot = Null then Inr h
      else bindE (load_ptr h (padd slot 8)) (\<lambda>buf.
        if buf = Null then Inr h
        else bindE (load_u32 h buf) (\<lambda>count.
          bindE (object_deallocate_entries (padd buf 8) 0 (unat count) h) (\<lambda>h1.
          bindE (free h1 buf) (\<lambda>h2. store_ptr h2 (padd slot 8) Null)))))"

fun deallocate :: "ty \<Rightarrow> heap \<Rightarrow> ptr \<Rightarrow> heap res"
  and deallocate_fields :: "member list \<Rightarrow> u64 \<Rightarrow> heap \<Rightarrow> ptr \<Rightarrow> heap res" where
  "deallocate Boolean = (\<lambda>h slot. Inr h)"
| "deallocate Int32 = (\<lambda>h slot. Inr h)"
| "deallocate Float32 = (\<lambda>h slot. Inr h)"
| "deallocate Int64 = (\<lambda>h slot. Inr h)"
| "deallocate Float64 = (\<lambda>h slot. Inr h)"
| "deallocate String = string_deallocate"
| "deallocate (Array t) = array_deallocate (deallocate t) (item_size t)"
| "deallocate Object = object_deallocate"
| "deallocate (Record fs) =
     (\<lambda>h p. if p = Null then Inr h else deallocate_fields fs header_size h p)"
| "deallocate_fields [] = (\<lambda>offset h p. Inr h)"
| "deallocate_fields (Member name t # rest) = (\<lambda>offset h p.
     bindE (deallocate t h (padd p (unat offset))) (\<lambda>h1. deallocate_fields rest (offset + slot_size t) h1 p))"

section \<open>The array template\<close>

definition array_size :: "heap \<Rightarrow> ptr \<Rightarrow> u64 res" where
  "array_size h ptr = bindE (msm_array_size h ptr) (\<lambda>n. Inr (ucast n))"

definition array_capacity :: "heap \<Rightarrow> ptr \<Rightarrow> u64 res" where
  "array_capacity h ptr = bindE (msm_array_capacity h ptr) (\<lambda>n. Inr (ucast n))"

definition array_empty :: "heap \<Rightarrow> ptr \<Rightarrow> bool res" where
  "array_empty h ptr = bindE (msm_array_size h ptr) (\<lambda>n. Inr (n = 0))"

text \<open>\<^verbatim>\<open>operator[]\<close> casts its index to \<^verbatim>\<open>uint32_t\<close>; out of range it is a view of null.\<close>

definition array_index :: "ty \<Rightarrow> heap \<Rightarrow> ptr \<Rightarrow> u64 \<Rightarrow> ptr res" where
  "array_index t h ptr i = msm_array_get h ptr (ucast i) (item_size t)"

definition array_push_back ::
    "ty \<Rightarrow> (heap \<Rightarrow> ptr \<Rightarrow> 'v \<Rightarrow> heap res) \<Rightarrow> heap \<Rightarrow> ptr \<Rightarrow> 'v \<Rightarrow> heap res" where
  "array_push_back t assign h ptr value =
     bindE (msm_array_push_back h ptr (item_size t)) (\<lambda>(slot, h1). assign h1 slot value)"

definition array_emplace_back :: "ty \<Rightarrow> heap \<Rightarrow> ptr \<Rightarrow> (ptr \<times> heap) res" where
  "array_emplace_back t h ptr = msm_array_push_back h ptr (item_size t)"

text \<open>
  \<^verbatim>\<open>emplace_back(args...)\<close> for a record: argument \<open>I\<close> is cast to the native type of field
  \<open>I\<close> and assigned to it. An argument is a value of one of the five scalar types, floats and
  doubles by their bits. The conversions that round or truncate a floating-point number are the
  implementation's: \<open>float_casts\<close>, where \<open>None\<close> is not a finite number.
\<close>

datatype scalar = SBool bool | SInt32 u32 | SFloat u32 | SInt64 u64 | SDouble u64

record float_casts =
  float_of_int :: "int \<Rightarrow> u32"
  float_of_double :: "u64 \<Rightarrow> u32"
  double_of_int :: "int \<Rightarrow> u64"
  double_of_float :: "u32 \<Rightarrow> u64"
  truncate_float :: "u32 \<Rightarrow> int option"
  truncate_double :: "u64 \<Rightarrow> int option"

text \<open>\<^verbatim>\<open>static_cast\<close> to each scalar type. A truncated number that does not fit the integer type
  is undefined behaviour.\<close>

fun cast_bool :: "scalar \<Rightarrow> bool" where
  "cast_bool (SBool v) = v"
| "cast_bool (SInt32 v) = (v \<noteq> 0)"
| "cast_bool (SFloat v) = (v AND 0x7FFFFFFF \<noteq> 0)"
| "cast_bool (SInt64 v) = (v \<noteq> 0)"
| "cast_bool (SDouble v) = (v AND 0x7FFFFFFFFFFFFFFF \<noteq> 0)"

definition fit_int :: "nat \<Rightarrow> int option \<Rightarrow> int res" where
  "fit_int w t =
     (case t of None \<Rightarrow> Inl (Fault BadValue)
      | Some n \<Rightarrow> if - (2 ^ (w - 1)) \<le> n \<and> n < 2 ^ (w - 1) then Inr n else Inl (Fault BadValue))"

fun cast_int32 :: "float_casts \<Rightarrow> scalar \<Rightarrow> u32 res" where
  "cast_int32 fc (SBool v) = Inr (if v then 1 else 0)"
| "cast_int32 fc (SInt32 v) = Inr v"
| "cast_int32 fc (SFloat v) = bindE (fit_int 32 (truncate_float fc v)) (\<lambda>n. Inr (of_int n))"
| "cast_int32 fc (SInt64 v) = Inr (ucast v)"
| "cast_int32 fc (SDouble v) = bindE (fit_int 32 (truncate_double fc v)) (\<lambda>n. Inr (of_int n))"

fun cast_int64 :: "float_casts \<Rightarrow> scalar \<Rightarrow> u64 res" where
  "cast_int64 fc (SBool v) = Inr (if v then 1 else 0)"
| "cast_int64 fc (SInt32 v) = Inr (scast v)"
| "cast_int64 fc (SFloat v) = bindE (fit_int 64 (truncate_float fc v)) (\<lambda>n. Inr (of_int n))"
| "cast_int64 fc (SInt64 v) = Inr v"
| "cast_int64 fc (SDouble v) = bindE (fit_int 64 (truncate_double fc v)) (\<lambda>n. Inr (of_int n))"

fun cast_float :: "float_casts \<Rightarrow> scalar \<Rightarrow> u32" where
  "cast_float fc (SBool v) = (if v then 0x3F800000 else 0)"
| "cast_float fc (SInt32 v) = float_of_int fc (sint v)"
| "cast_float fc (SFloat v) = v"
| "cast_float fc (SInt64 v) = float_of_int fc (sint v)"
| "cast_float fc (SDouble v) = float_of_double fc v"

fun cast_double :: "float_casts \<Rightarrow> scalar \<Rightarrow> u64" where
  "cast_double fc (SBool v) = (if v then 0x3FF0000000000000 else 0)"
| "cast_double fc (SInt32 v) = double_of_int fc (sint v)"
| "cast_double fc (SFloat v) = double_of_float fc v"
| "cast_double fc (SInt64 v) = double_of_int fc (sint v)"
| "cast_double fc (SDouble v) = v"

text \<open>One argument; \<open>None\<close> is a field whose native type is not a scalar, for which the cast does
  not compile.\<close>

fun write_field_at :: "float_casts \<Rightarrow> ty \<Rightarrow> scalar \<Rightarrow> (heap \<Rightarrow> ptr \<Rightarrow> heap res) option" where
  "write_field_at fc Boolean a = Some (\<lambda>h p. boolean_assign h p (cast_bool a))"
| "write_field_at fc Int32 a = Some (\<lambda>h p. bindE (cast_int32 fc a) (int32_assign h p))"
| "write_field_at fc Float32 a = Some (\<lambda>h p. float32_assign h p (cast_float fc a))"
| "write_field_at fc Int64 a = Some (\<lambda>h p. bindE (cast_int64 fc a) (int64_assign h p))"
| "write_field_at fc Float64 a = Some (\<lambda>h p. float64_assign h p (cast_double fc a))"
| "write_field_at fc _ a = None"

text \<open>The arguments from index \<open>i\<close> on, written from left to right; \<open>None\<close> when one of them does
  not compile, which includes more arguments than fields.\<close>

fun write_fields ::
    "float_casts \<Rightarrow> member list \<Rightarrow> nat \<Rightarrow> scalar list \<Rightarrow> (heap \<Rightarrow> ptr \<Rightarrow> heap res) option" where
  "write_fields fc fs i [] = Some (\<lambda>h item. Inr h)"
| "write_fields fc fs i (a # args) =
     (case type_at i fs of None \<Rightarrow> None
      | Some t \<Rightarrow> (case write_field_at fc t a of None \<Rightarrow> None
        | Some write \<Rightarrow> (case write_fields fc fs (i + 1) args of None \<Rightarrow> None
          | Some rest \<Rightarrow> Some (\<lambda>h item.
              bindE (write h (padd item (unat (field_offset i fs)))) (\<lambda>h1. rest h1 item)))))"

definition array_emplace_back_fields ::
    "float_casts \<Rightarrow> member list \<Rightarrow> scalar list \<Rightarrow> (heap \<Rightarrow> ptr \<Rightarrow> heap res) option" where
  "array_emplace_back_fields fc fs args =
     (if length args \<le> 1 \<or> \<not> all_names_unique fs then None
      else case write_fields fc fs 0 args of None \<Rightarrow> None
      | Some write \<Rightarrow> Some (\<lambda>h ptr.
          bindE (array_emplace_back (Record fs) h ptr) (\<lambda>(item, h1). write h1 item)))"

text \<open>A call compiles exactly when it passes two or more arguments, no more than there are fields,
  and each of these fields is a scalar.\<close>

lemma write_field_at_compiles:
  "write_field_at fc t a \<noteq> None \<longleftrightarrow> t \<in> {Boolean, Int32, Float32, Int64, Float64}"
  by (cases t) simp_all

lemma write_fields_compiles:
  "write_fields fc fs i args \<noteq> None \<longleftrightarrow> (\<forall>j < length args. i + j < length fs \<and>
     member_type (fs ! (i + j)) \<in> {Boolean, Int32, Float32, Int64, Float64})"
proof (induction args arbitrary: i)
  case (Cons a args)
  have "write_fields fc fs i (a # args) \<noteq> None \<longleftrightarrow> i < length fs \<and>
      write_field_at fc (member_type (fs ! i)) a \<noteq> None \<and> write_fields fc fs (i + 1) args \<noteq> None"
    by (auto simp: type_at_nth split: option.splits)
  also have "\<dots> \<longleftrightarrow> (\<forall>j < length (a # args). i + j < length fs \<and>
      member_type (fs ! (i + j)) \<in> {Boolean, Int32, Float32, Int64, Float64})"
    unfolding Cons.IH write_field_at_compiles list.size by (simp add: All_less_Suc2 conj_ac)
  finally show ?case .
qed simp

definition array_reserve :: "ty \<Rightarrow> heap \<Rightarrow> ptr \<Rightarrow> u32 \<Rightarrow> heap res" where
  "array_reserve t h ptr new_cap = msm_array_reserve h ptr new_cap (item_size t)"

definition array_clear :: "heap \<Rightarrow> ptr \<Rightarrow> heap res" where
  "array_clear h ptr = msm_array_clear h ptr"

definition array_destroy :: "heap \<Rightarrow> ptr \<Rightarrow> heap res" where
  "array_destroy h ptr =
     bindE (load_ptr h (padd ptr 8)) (\<lambda>buf.
       if buf \<noteq> Null then bindE (free h buf) (\<lambda>h1. store_ptr h1 (padd ptr 8) Null) else Inr h)"

text \<open>Iterators: a base and an index; two are compared by their index alone.\<close>

record array_iterator =
  base :: ptr
  index :: u64

definition array_begin :: "heap \<Rightarrow> ptr \<Rightarrow> array_iterator res" where
  "array_begin h ptr =
     bindE (load_ptr h (padd ptr 8)) (\<lambda>buf.
       Inr \<lparr>base = (if buf \<noteq> Null then padd buf 8 else Null), index = 0\<rparr>)"

definition array_end :: "heap \<Rightarrow> ptr \<Rightarrow> array_iterator res" where
  "array_end h ptr =
     bindE (load_ptr h (padd ptr 8)) (\<lambda>buf.
     bindE (array_size h ptr) (\<lambda>n.
       Inr \<lparr>base = (if buf \<noteq> Null then padd buf 8 else Null), index = n\<rparr>))"

definition iterator_deref :: "ty \<Rightarrow> array_iterator \<Rightarrow> ptr" where
  "iterator_deref t it = padd (base it) (unat (index it * ucast (item_size t)))"

definition iterator_next :: "array_iterator \<Rightarrow> array_iterator" where
  "iterator_next it = it\<lparr>index := index it + 1\<rparr>"

definition iterator_differs :: "array_iterator \<Rightarrow> array_iterator \<Rightarrow> bool" where
  "iterator_differs it other = (index it \<noteq> index other)"

section \<open>The object type and its proxy\<close>

record object_proxy =
  obj_ptr :: ptr
  field_name :: cstr

definition object_index :: "ptr \<Rightarrow> cstr \<Rightarrow> object_proxy" where
  "object_index ptr name = \<lparr>obj_ptr = ptr, field_name = name\<rparr>"

text \<open>The assignments ignore the status.\<close>

definition drop_status :: "(int \<times> heap) res \<Rightarrow> heap res" where
  "drop_status r = bindE r (\<lambda>(status, h). Inr h)"

definition proxy_assign_int32 :: "heap \<Rightarrow> object_proxy \<Rightarrow> u32 \<Rightarrow> heap res" where
  "proxy_assign_int32 h p v = drop_status (msm_object_set_int32 h (obj_ptr p) (field_name p) v)"

definition proxy_assign_int64 :: "heap \<Rightarrow> object_proxy \<Rightarrow> u64 \<Rightarrow> heap res" where
  "proxy_assign_int64 h p v = drop_status (msm_object_set_int64 h (obj_ptr p) (field_name p) v)"

definition proxy_assign_float64 :: "heap \<Rightarrow> object_proxy \<Rightarrow> u64 \<Rightarrow> heap res" where
  "proxy_assign_float64 h p v = drop_status (msm_object_set_float64 h (obj_ptr p) (field_name p) v)"

definition proxy_assign_bool :: "heap \<Rightarrow> object_proxy \<Rightarrow> bool \<Rightarrow> heap res" where
  "proxy_assign_bool h p v =
     drop_status (msm_object_set_bool h (obj_ptr p) (field_name p) (if v then 1 else 0))"

definition proxy_assign_string :: "heap \<Rightarrow> object_proxy \<Rightarrow> cstr \<Rightarrow> heap res" where
  "proxy_assign_string h p v =
     (let len = (case v of None \<Rightarrow> 0 | Some bs \<Rightarrow> of_nat (c_strlen bs))
      in drop_status (msm_object_set_string h (obj_ptr p) (field_name p) v len))"

definition proxy_as_int32 :: "heap \<Rightarrow> object_proxy \<Rightarrow> u32 res" where
  "proxy_as_int32 h p = msm_object_get_int32 h (obj_ptr p) (field_name p)"

definition proxy_as_int64 :: "heap \<Rightarrow> object_proxy \<Rightarrow> u64 res" where
  "proxy_as_int64 h p = msm_object_get_int64 h (obj_ptr p) (field_name p)"

definition proxy_as_float64 :: "heap \<Rightarrow> object_proxy \<Rightarrow> u64 res" where
  "proxy_as_float64 h p = msm_object_get_float64 h (obj_ptr p) (field_name p)"

definition proxy_as_bool :: "heap \<Rightarrow> object_proxy \<Rightarrow> bool res" where
  "proxy_as_bool h p = bindE (msm_object_get_bool h (obj_ptr p) (field_name p)) (\<lambda>v. Inr (v \<noteq> 0))"

definition proxy_as_string :: "heap \<Rightarrow> object_proxy \<Rightarrow> cstr_ref res" where
  "proxy_as_string h p = msm_object_get_string h (obj_ptr p) (field_name p)"

text \<open>The implicit conversions read like the explicit getters.\<close>

definition proxy_to_int32 :: "heap \<Rightarrow> object_proxy \<Rightarrow> u32 res" where
  "proxy_to_int32 h p = msm_object_get_int32 h (obj_ptr p) (field_name p)"

definition proxy_to_int64 :: "heap \<Rightarrow> object_proxy \<Rightarrow> u64 res" where
  "proxy_to_int64 h p = msm_object_get_int64 h (obj_ptr p) (field_name p)"

definition proxy_to_float64 :: "heap \<Rightarrow> object_proxy \<Rightarrow> u64 res" where
  "proxy_to_float64 h p = msm_object_get_float64 h (obj_ptr p) (field_name p)"

definition proxy_to_bool :: "heap \<Rightarrow> object_proxy \<Rightarrow> bool res" where
  "proxy_to_bool h p = bindE (msm_object_get_bool h (obj_ptr p) (field_name p)) (\<lambda>v. Inr (v \<noteq> 0))"

definition proxy_to_string :: "heap \<Rightarrow> object_proxy \<Rightarrow> cstr_ref res" where
  "proxy_to_string h p = msm_object_get_string h (obj_ptr p) (field_name p)"

definition proxy_type_id :: "heap \<Rightarrow> object_proxy \<Rightarrow> u16 res" where
  "proxy_type_id h p = msm_object_get_type h (obj_ptr p) (field_name p)"

definition proxy_exists :: "heap \<Rightarrow> object_proxy \<Rightarrow> bool res" where
  "proxy_exists h p = bindE (msm_object_has_field h (obj_ptr p) (field_name p)) (\<lambda>r. Inr (r \<noteq> 0))"

definition proxy_index :: "heap \<Rightarrow> object_proxy \<Rightarrow> cstr \<Rightarrow> (object_proxy \<times> heap) res" where
  "proxy_index h p nested_name =
     bindE (msm_object_ensure_object h (obj_ptr p) (field_name p)) (\<lambda>(nested_slot, h1).
       Inr (\<lparr>obj_ptr = nested_slot, field_name = nested_name\<rparr>, h1))"

definition object_remove :: "heap \<Rightarrow> ptr \<Rightarrow> cstr \<Rightarrow> (bool \<times> heap) res" where
  "object_remove h ptr name = bindE (msm_object_remove h ptr name) (\<lambda>(r, h1). Inr (r = 0, h1))"

definition object_field_count :: "heap \<Rightarrow> ptr \<Rightarrow> u32 res" where
  "object_field_count h ptr = msm_object_field_count h ptr"

definition object_has :: "heap \<Rightarrow> ptr \<Rightarrow> cstr \<Rightarrow> bool res" where
  "object_has h ptr name = bindE (msm_object_has_field h ptr name) (\<lambda>r. Inr (r \<noteq> 0))"

section \<open>The array functions of the C interface for int32\<close>

definition msm_array_push_int32 :: "heap \<Rightarrow> ptr \<Rightarrow> u32 \<Rightarrow> heap res" where
  "msm_array_push_int32 h array_slot value =
     (if array_slot = Null then Inr h else array_push_back Int32 int32_assign h array_slot value)"

definition msm_array_get_int32 :: "heap \<Rightarrow> ptr \<Rightarrow> u32 \<Rightarrow> u32 res" where
  "msm_array_get_int32 h array_slot i =
     (if array_slot = Null then Inr 0
      else bindE (array_index Int32 h array_slot (ucast i)) (\<lambda>item. int32_read h item))"

section \<open>Segments\<close>

text \<open>\<open>None\<close> is the exception \<^verbatim>\<open>std::runtime_error\<close>. Its message is built from the name, which is
  undefined for a null pointer.\<close>

definition throw_failed :: "cstr \<Rightarrow> 'a \<Rightarrow> ('b option \<times> 'a) res" where
  "throw_failed name s = (case name of None \<Rightarrow> Inl (Fault NullDeref) | Some nm \<Rightarrow> Inr (None, s))"

definition segment_create :: "ty \<Rightarrow> msm_state \<Rightarrow> cstr \<Rightarrow> (ptr option \<times> msm_state) res" where
  "segment_create t s name =
     (let n = slot_size t in
      bindE (msm_alloc s name n (Some (deallocate t))) (\<lambda>(base, s1).
        if base = Null then throw_failed name s1 else Inr (Some base, s1)))"

definition segment_open :: "msm_state \<Rightarrow> cstr \<Rightarrow> (ptr option \<times> msm_state) res" where
  "segment_open s name =
     (let base = msm_get s name in if base = Null then throw_failed name s else Inr (Some base, s))"

definition segment_close :: "msm_state \<Rightarrow> cstr \<Rightarrow> msm_state res" where
  "segment_close s name = msm_free s name"

definition segment_get_base :: "msm_state \<Rightarrow> cstr \<Rightarrow> ptr" where
  "segment_get_base s name = msm_get s name"

end
