(* ===== verification/Msm_Dealloc.thy ===== *)
theory Msm_Dealloc
  imports Msm_Types Msm_Object_Update
begin

text \<open>
  What the \<open>deallocate\<close> function of a type does: \<open>reaches t h p B\<close> says that the slot at \<open>p\<close> is a
  well-formed value of type \<open>t\<close> and that \<open>B\<close> are the heap blocks that its \<open>deallocate\<close> comes
  to, and the lemmas show that it frees exactly these blocks and touches nothing else outside the
  slot. For an object these are its entries buffer and the values of its fields, but not what a
  nested object owns in turn; all that a value owns is \<open>owned\<close> of \<open>Msm_Ownership\<close>.
\<close>

section \<open>What deallocation reaches\<close>

text \<open>The nesting depth of a type; its recursion is the one all proofs about types follow.\<close>

fun nesting :: "ty \<Rightarrow> nat" and fields_nesting :: "member list \<Rightarrow> nat" where
  "nesting Boolean = 0"
| "nesting Int32 = 0"
| "nesting Float32 = 0"
| "nesting Int64 = 0"
| "nesting Float64 = 0"
| "nesting String = 0"
| "nesting (Array t) = Suc (nesting t)"
| "nesting Object = 0"
| "nesting (Record fs) = Suc (fields_nesting fs)"
| "fields_nesting [] = 0"
| "fields_nesting (Member n t # fs) = max (nesting t) (fields_nesting fs)"

lemmas ty_fields_induct = nesting_fields_nesting.induct

fun reaches :: "ty \<Rightarrow> heap \<Rightarrow> ptr \<Rightarrow> nat list \<Rightarrow> bool"
  and fields_reach :: "member list \<Rightarrow> nat \<Rightarrow> heap \<Rightarrow> ptr \<Rightarrow> nat list \<Rightarrow> bool" where
  "reaches Boolean h p B \<longleftrightarrow> B = []"
| "reaches Int32 h p B \<longleftrightarrow> B = []"
| "reaches Float32 h p B \<longleftrightarrow> B = []"
| "reaches Int64 h p B \<longleftrightarrow> B = []"
| "reaches Float64 h p B \<longleftrightarrow> B = []"
| "reaches String h p B \<longleftrightarrow> slot_holds h p Null \<and> B = [] \<or>
     (\<exists>b. slot_holds h p (Ptr b 0) \<and> blocks h b \<noteq> None \<and> B = [b])"
| "reaches (Array t) h p B \<longleftrightarrow> slot_holds h p Null \<and> B = [] \<or>
     (\<exists>b n cap data Bs. slot_holds h p (Ptr b 0) \<and> blocks h b = Some (counted n cap data) \<and>
        unat n * extent t \<le> length data \<and> unat n * extent t < 4294967296 \<and>
        length Bs = unat n \<and> B = b # concat Bs \<and>
        (\<forall>i < unat n. reaches t h (Ptr b (8 + i * extent t)) (Bs ! i)))"
| "reaches Object h p B \<longleftrightarrow> slot_holds h p Null \<and> B = [] \<or>
     (\<exists>b cap fs. object_rep h p b cap fs \<and> B = b # concat (map footprint fs) \<and>
        24 * length fs < 4294967296)"
| "reaches (Record fs) h p B \<longleftrightarrow> fields_reach fs 8 h p B"
| "fields_reach [] k h p B \<longleftrightarrow> B = []"
| "fields_reach (Member n t # fs) k h p B \<longleftrightarrow>
     (\<exists>B1 B2. B = B1 @ B2 \<and> reaches t h (padd p k) B1 \<and> fields_reach fs (k + extent t) h p B2)"

lemma reaches_ArrayI:
  assumes "slot_holds h p (Ptr b 0)" and "blocks h b = Some (counted n cap data)"
    and "unat n * extent t \<le> length data" and "unat n * extent t < 4294967296"
    and "length Bs = unat n" and "\<And>i. i < unat n \<Longrightarrow> reaches t h (Ptr b (8 + i * extent t)) (Bs ! i)"
  shows "reaches (Array t) h p (b # concat Bs)"
  unfolding reaches.simps using assms by blast

section \<open>Frames\<close>

text \<open>\<open>same_on h h' p n B\<close>: the \<open>n\<close> bytes at \<open>p\<close> are the same in both heaps and so are
  the blocks \<open>B\<close>.\<close>

definition same_on :: "heap \<Rightarrow> heap \<Rightarrow> ptr \<Rightarrow> nat \<Rightarrow> nat list \<Rightarrow> bool" where
  "same_on h h' p n B \<longleftrightarrow>
     (case p of Null \<Rightarrow> False
      | Ptr b k \<Rightarrow> \<exists>cs cs'. blocks h b = Some cs \<and> blocks h' b = Some cs' \<and> length cs' = length cs \<and>
          k + n \<le> length cs \<and> piece cs' k n = piece cs k n) \<and>
     (\<forall>c \<in> set B. blocks h' c = blocks h c)"

lemma piece_sub:
  assumes "piece xs k n = piece ys k n" and "j + m \<le> n" and "k + n \<le> length xs" and "k + n \<le> length ys"
  shows "piece xs (k + j) m = piece ys (k + j) m"
  using assms piece_piece [OF assms(2,3)] piece_piece [OF assms(2,4)] by metis

lemma same_on_sub:
  assumes "same_on h h' p n B" and "j + m \<le> n" and "set C \<subseteq> set B"
  shows "same_on h h' (padd p j) m C"
proof (cases p)
  case Null
  then show ?thesis using assms(1) by (simp add: same_on_def)
next
  case (Ptr b k)
  then obtain cs cs' where "blocks h b = Some cs" "blocks h' b = Some cs'" "length cs' = length cs"
      "k + n \<le> length cs" "piece cs' k n = piece cs k n"
    using assms(1) by (auto simp: same_on_def)
  then show ?thesis
    using Ptr assms piece_sub [of cs' k n cs j m] by (auto simp: same_on_def)
qed

lemma same_on_eq: "same_on h h' p n B \<Longrightarrow> c \<in> set B \<Longrightarrow> blocks h' c = blocks h c"
  by (simp add: same_on_def)

lemma same_on_slot:
  assumes "same_on h h' p 16 B" and "slot_holds h p q"
  shows "slot_holds h' p q"
proof -
  obtain b k cs where c: "p = Ptr b k" "k mod 8 = 0" "blocks h b = Some cs" "k + 16 \<le> length cs"
      "piece cs (k + 8) 8 = ptr_cells q"
    using assms(2) by (rule slot_holdsE)
  obtain cs' where c': "blocks h' b = Some cs'" "length cs' = length cs" "piece cs' k 16 = piece cs k 16"
    using assms(1) c(1,3) by (auto simp: same_on_def)
  have "piece cs' (k + 8) 8 = piece cs (k + 8) 8"
    using c(4) c'(2) by (intro piece_sub [OF c'(3)]) simp_all
  then show ?thesis using c c' by (simp add: slot_holds_def)
qed

lemma same_on_block: "blocks h' b = blocks h b \<Longrightarrow> blocks h b = Some cs \<Longrightarrow> k + n \<le> length cs \<Longrightarrow>
  \<forall>c \<in> set B. blocks h' c = blocks h c \<Longrightarrow> same_on h h' (Ptr b k) n B"
  by (simp add: same_on_def)

lemma object_rep_same:
  assumes "object_rep h p b cap fs" and "same_on h h' p 16 (b # concat (map footprint fs))"
  shows "object_rep h' p b cap fs"
proof -
  obtain data where d: "slot_holds h p (Ptr b 0)"
      "blocks h b = Some (counted (of_nat (length fs)) cap data)" "length data = 24 * unat cap"
      "entries_in data fs" "length fs \<le> unat cap" "distinct (map fhash fs)"
      "distinct (blk p # b # concat (map footprint fs))" "\<forall>f \<in> set fs. field_at h f"
    using assms(1) by (rule object_repE)
  have eq: "blocks h' c = blocks h c" if "c \<in> set (b # concat (map footprint fs))" for c
    using assms(2) that by (rule same_on_eq)
  show ?thesis
  proof (rule object_repI)
    show "slot_holds h' p (Ptr b 0)" by (rule same_on_slot [OF assms(2) d(1)])
    show "blocks h' b = Some (counted (of_nat (length fs)) cap data)" using d(2) eq [of b] by simp
    show "field_at h' f" if "f \<in> set fs" for f
    proof -
      have "value_at h' (fblock f) (fbuf f) (fval f) = value_at h (fblock f) (fbuf f) (fval f)"
        by (rule value_at_cong) (use that eq in \<open>auto simp: footprint_def\<close>)
      then show ?thesis using d(8) that by (simp add: field_at_def)
    qed
  qed (use d in simp_all)
qed

lemma set_nth_concat: "i < length Bs \<Longrightarrow> c \<in> set (Bs ! i) \<Longrightarrow> c \<in> set (concat Bs)"
  by (auto intro: nth_mem)

lemma element_end:
  assumes "(i :: nat) < n"
  shows "i * s + s \<le> n * s"
proof -
  have "(i + 1) * s \<le> n * s" using assms by (intro mult_right_mono) auto
  then show ?thesis by (simp add: add.commute)
qed

lemma array_reaches_same:
  assumes IH: "\<And>p B. reaches t h p B \<Longrightarrow> same_on h h' p (extent t) B \<Longrightarrow> reaches t h' p B"
    and hold: "reaches (Array t) h p B" and same: "same_on h h' p (extent (Array t)) B"
  shows "reaches (Array t) h' p B"
proof -
  from hold consider "slot_holds h p Null" "B = []"
    | b n cap data Bs where "slot_holds h p (Ptr b 0)" "blocks h b = Some (counted n cap data)"
      "unat n * extent t \<le> length data" "unat n * extent t < 4294967296"
      "length Bs = unat n" "B = b # concat Bs"
      "\<forall>i < unat n. reaches t h (Ptr b (8 + i * extent t)) (Bs ! i)"
    by auto
  then show ?thesis
  proof cases
    case 1
    then show ?thesis using same_on_slot same by simp
  next
    case (2 b n cap data Bs)
    have eq: "blocks h' c = blocks h c" if "c \<in> set B" for c
      using same that by (rule same_on_eq)
    have b: "blocks h' b = Some (counted n cap data)" using eq [of b] 2(2,6) by simp
    have "reaches t h' (Ptr b (8 + i * extent t)) (Bs ! i)" if "i < unat n" for i
    proof (rule IH)
      show "reaches t h (Ptr b (8 + i * extent t)) (Bs ! i)" using 2(7) that by simp
      have "8 + i * extent t + extent t \<le> length (counted n cap data)"
        using element_end [OF that, of "extent t"] 2(3) by simp
      then show "same_on h h' (Ptr b (8 + i * extent t)) (extent t) (Bs ! i)"
        using b 2(2,5,6) that eq set_nth_concat [of i Bs]
        by (intro same_on_block [where cs = "counted n cap data"]) (simp_all add: eq set_nth_concat)
    qed
    moreover have "slot_holds h' p (Ptr b 0)" using same_on_slot same 2(1) by simp
    ultimately show ?thesis unfolding 2(6) using b 2(3,4,5) by (intro reaches_ArrayI)
  qed
qed

lemma reaches_same:
  "reaches t h p B \<Longrightarrow> same_on h h' p (extent t) B \<Longrightarrow> reaches t h' p B"
  and fields_reach_same:
  "fields_reach fs k h p B \<Longrightarrow> same_on h h' (padd p k) (fields_extent fs) B \<Longrightarrow> fields_reach fs k h' p B"
proof (induction t and fs arbitrary: p B and k p B rule: ty_fields_induct)
  case 6
  from "6.prems"(1) consider "slot_holds h p Null" "B = []"
    | b where "slot_holds h p (Ptr b 0)" "blocks h b \<noteq> None" "B = [b]" by auto
  then show ?case
  proof cases
    case 1
    then show ?thesis using same_on_slot "6.prems"(2) by simp
  next
    case (2 b)
    then have "blocks h' b = blocks h b" using same_on_eq [OF "6.prems"(2)] by simp
    then show ?thesis using same_on_slot "6.prems"(2) 2 by auto
  qed
next
  case (7 t)
  show ?case by (rule array_reaches_same [OF "7.IH" "7.prems"])
next
  case 8
  from "8.prems"(1) consider "slot_holds h p Null" "B = []"
    | b cap fs where "object_rep h p b cap fs" "B = b # concat (map footprint fs)"
      "24 * length fs < 4294967296" by auto
  then show ?case
  proof cases
    case 1
    then show ?thesis using same_on_slot "8.prems"(2) by simp
  next
    case (2 b cap fs)
    then have "object_rep h' p b cap fs" using object_rep_same "8.prems"(2) by simp
    then show ?thesis using 2 by auto
  qed
next
  case (9 fs)
  then show ?case
    using "9.IH" "9.prems"(1) same_on_sub [OF "9.prems"(2), of 8 "fields_extent fs" B] by simp
next
  case (11 n t fs)
  then obtain B1 B2 where B: "B = B1 @ B2" "reaches t h (padd p k) B1" "fields_reach fs (k + extent t) h p B2"
    by auto
  have "same_on h h' (padd p k) (extent t) B1"
    using same_on_sub [OF "11.prems"(2), of 0 "extent t" B1] B(1) by simp
  moreover have "same_on h h' (padd p (k + extent t)) (fields_extent fs) B2"
    using same_on_sub [OF "11.prems"(2), of "extent t" "fields_extent fs" B2] B(1) by simp
  ultimately have "reaches t h' (padd p k) B1" "fields_reach fs (k + extent t) h' p B2"
    using "11.IH" B(2,3) by blast+
  then show ?case unfolding fields_reach.simps B(1) by blast
qed simp_all

section \<open>What deallocating does\<close>

text \<open>\<open>releases h h' b k n B\<close>: the blocks \<open>B\<close> are freed, block \<open>b\<close> is changed in its
  bytes \<open>k\<close> to \<open>k + n\<close> at most, and nothing else.\<close>

definition releases :: "heap \<Rightarrow> heap \<Rightarrow> nat \<Rightarrow> nat \<Rightarrow> nat \<Rightarrow> nat list \<Rightarrow> bool" where
  "releases h h' b k n B \<longleftrightarrow>
     (\<forall>c \<in> set B. blocks h' c = None) \<and>
     (\<forall>c. c \<notin> set B \<longrightarrow> c \<noteq> b \<longrightarrow> blocks h' c = blocks h c) \<and>
     (\<exists>cs cs'. blocks h b = Some cs \<and> blocks h' b = Some cs' \<and> length cs' = length cs \<and>
        (\<forall>j m. j + m \<le> length cs \<longrightarrow> j + m \<le> k \<or> k + n \<le> j \<longrightarrow> piece cs' j m = piece cs j m)) \<and>
     next_block h' = next_block h \<and> oom h' = oom h"

lemma releases_refl: "blocks h b = Some cs \<Longrightarrow> releases h h b k n []"
  by (simp add: releases_def)

lemma releases_other: "releases h h' b k n B \<Longrightarrow> c \<notin> set B \<Longrightarrow> c \<noteq> b \<Longrightarrow> blocks h' c = blocks h c"
  by (simp add: releases_def)

lemma releases_wf: "releases h h' b k n B \<Longrightarrow> heap_wf h \<Longrightarrow> heap_wf h'"
  unfolding heap_wf_def releases_def by (metis option.distinct(1))

lemma releases_seq:
  assumes "releases h h1 b k n B" and "releases h1 h2 b (k + n) m C" and "b \<notin> set B"
    and "set B \<inter> set C = {}"
  shows "releases h h2 b k (n + m) (B @ C)"
proof -
  obtain cs cs1 where 1: "blocks h b = Some cs" "blocks h1 b = Some cs1" "length cs1 = length cs"
      "\<forall>j l. j + l \<le> length cs \<longrightarrow> j + l \<le> k \<or> k + n \<le> j \<longrightarrow> piece cs1 j l = piece cs j l"
    using assms(1) by (auto simp: releases_def)
  obtain cs2 where 2: "blocks h2 b = Some cs2" "length cs2 = length cs"
      "\<forall>j l. j + l \<le> length cs \<longrightarrow> j + l \<le> k + n \<or> k + n + m \<le> j \<longrightarrow> piece cs2 j l = piece cs1 j l"
    using assms(2) 1(2,3) by (auto simp: releases_def)
  have "blocks h2 c = None" if "c \<in> set (B @ C)" for c
  proof (cases "c \<in> set C")
    case True
    then show ?thesis using assms(2) by (simp add: releases_def)
  next
    case False
    then have "c \<in> set B" using that by simp
    then have "blocks h1 c = None" "c \<noteq> b" using assms(1,3) by (auto simp: releases_def)
    then show ?thesis using assms(2) False by (simp add: releases_def)
  qed
  moreover have "blocks h2 c = blocks h c" if "c \<notin> set (B @ C)" "c \<noteq> b" for c
    using that releases_other [OF assms(1)] releases_other [OF assms(2)] by simp
  moreover have "piece cs2 j l = piece cs j l"
    if "j + l \<le> length cs" "j + l \<le> k \<or> k + (n + m) \<le> j" for j l
  proof -
    have "j + l \<le> k + n \<or> k + n + m \<le> j" "j + l \<le> k \<or> k + n \<le> j" using that(2) by linarith+
    then have "piece cs2 j l = piece cs1 j l" "piece cs1 j l = piece cs j l"
      using 1(4) 2(3) that(1) by blast+
    then show ?thesis by simp
  qed
  moreover have "next_block h2 = next_block h" "oom h2 = oom h"
    using assms(1,2) by (simp_all add: releases_def)
  ultimately show ?thesis
    unfolding releases_def using 1(1) 2(1,2) by blast
qed

lemma releases_same_on:
  assumes "releases h h' b k n B" and "\<exists>cs. blocks h c = Some cs \<and> j + m \<le> length cs"
    and "c = b \<longrightarrow> j + m \<le> k \<or> k + n \<le> j" and "c \<notin> set B" and "b \<notin> set C" and "set B \<inter> set C = {}"
  shows "same_on h h' (Ptr c j) m C"
proof -
  have C: "blocks h' d = blocks h d" if "d \<in> set C" for d
    using that assms(5,6) by (intro releases_other [OF assms(1)]) auto
  obtain cs where cs: "blocks h c = Some cs" "j + m \<le> length cs" using assms(2) by blast
  show ?thesis
  proof (cases "c = b")
    case True
    then show ?thesis using assms(1,3) cs C by (auto simp: same_on_def releases_def)
  next
    case False
    then have "blocks h' c = blocks h c" by (intro releases_other [OF assms(1)] assms(4))
    then show ?thesis using cs C by (simp add: same_on_def)
  qed
qed

text \<open>The last steps of every \<open>deallocate\<close>: free the buffer, then clear the slot.\<close>

lemma free_and_clear:
  assumes "slot_holds h p (Ptr b 0)" and "blocks h b \<noteq> None" and "b \<noteq> blk p"
  obtains h' where "free h (Ptr b 0) = Inr (drop_block b h)"
    and "store_ptr (drop_block b h) (padd p 8) Null = Inr h'"
    and "releases h h' (blk p) (off p) 16 [b]"
proof -
  obtain c k cs where p: "p = Ptr c k" "k mod 8 = 0" "blocks h c = Some cs" "k + 16 \<le> length cs"
    using assms(1) by (rule slot_holdsE)
  let ?h' = "put Plain c (k + 8) (ptr_cells Null) (drop_block b h)"
  have "store_ptr (drop_block b h) (padd p 8) Null = Inr ?h'"
    using p assms(3) by (simp add: store_ptr_def)
  moreover have "releases h ?h' (blk p) (off p) 16 [b]"
  proof -
    have "piece (patch cs (k + 8) (ptr_cells Null)) j m = piece cs j m"
      if "j + m \<le> length cs" "j + m \<le> k \<or> k + 16 \<le> j" for j m
      using that p(4) by (intro piece_patch_disjoint) auto
    then show ?thesis using p assms(3) by (auto simp: releases_def blocks_put)
  qed
  ultimately show ?thesis using assms(2) by (intro that) simp_all
qed

lemma releases_buffer:
  assumes "releases h h1 b k n B" and "releases h1 h2 c j m [b]" and "c \<noteq> b" and "c \<notin> set B"
    and "b \<notin> set B"
  shows "releases h h2 c j m (b # B)"
proof -
  obtain cs cs2 where c: "blocks h1 c = Some cs" "blocks h2 c = Some cs2" "length cs2 = length cs"
      "\<forall>i l. i + l \<le> length cs \<longrightarrow> i + l \<le> j \<or> j + m \<le> i \<longrightarrow> piece cs2 i l = piece cs i l"
    using assms(2) by (auto simp: releases_def)
  have "blocks h c = Some cs" using releases_other [OF assms(1,4,3)] c(1) by simp
  moreover have "blocks h2 d = None" if "d \<in> set (b # B)" for d
  proof (cases "d = b")
    case True
    then show ?thesis using assms(2) by (simp add: releases_def)
  next
    case False
    then have "d \<in> set B" using that by simp
    then have "blocks h1 d = None" "d \<noteq> c" using assms(1,4) by (auto simp: releases_def)
    then show ?thesis using releases_other [OF assms(2), of d] False by simp
  qed
  moreover have "blocks h2 d = blocks h d" if "d \<notin> set (b # B)" "d \<noteq> c" for d
    using that releases_other [OF assms(1), of d] releases_other [OF assms(2), of d] by simp
  moreover have "next_block h2 = next_block h" "oom h2 = oom h"
    using assms(1,2) by (simp_all add: releases_def)
  ultimately show ?thesis unfolding releases_def using c(2-4) by blast
qed

subsection \<open>Strings\<close>

lemma load_slot_live:
  assumes "slot_holds h p q"
  obtains b k cs where "p = Ptr b k" and "blocks h b = Some cs" and "k + 16 \<le> length cs"
  using assms by (auto elim: slot_holdsE)

lemma string_deallocate_runs:
  assumes "reaches String h p B" and "distinct (blk p # B)"
  shows "\<exists>h'. string_deallocate h p = Inr h' \<and> releases h h' (blk p) (off p) 16 B"
proof -
  consider "slot_holds h p Null" "B = []"
    | b where "slot_holds h p (Ptr b 0)" "blocks h b \<noteq> None" "B = [b]"
    using assms(1) by auto
  then show ?thesis
  proof cases
    case 1
    then obtain c k cs where "p = Ptr c k" "blocks h c = Some cs" by (auto elim: slot_holdsE)
    then show ?thesis
      using 1 releases_refl load_slot_plain [OF 1(1)] by (simp add: string_deallocate_def)
  next
    case (2 b)
    then have "p \<noteq> Null" "b \<noteq> blk p" using assms(2) by auto
    from 2(1,2) this(2) obtain h' where "free h (Ptr b 0) = Inr (drop_block b h)"
        "store_ptr (drop_block b h) (padd p 8) Null = Inr h'" "releases h h' (blk p) (off p) 16 [b]"
      by (rule free_and_clear)
    then show ?thesis
      using 2 \<open>p \<noteq> Null\<close> by (simp add: string_deallocate_def load_slot_plain)
  qed
qed

subsection \<open>Objects\<close>

lemma releases_drop: "blocks h b = Some cs \<Longrightarrow> c \<noteq> b \<Longrightarrow> releases h (drop_block c h) b k n [c]"
  by (simp add: releases_def)

lemma releases_nothing:
  assumes "releases h h' b 0 0 B" and "blocks h b = Some cs"
  shows "blocks h' b = Some cs"
proof -
  obtain cs' where cs': "blocks h' b = Some cs'" "length cs' = length cs"
      "\<forall>j m. j + m \<le> length cs \<longrightarrow> j + m \<le> 0 \<or> 0 + 0 \<le> j \<longrightarrow> piece cs' j m = piece cs j m"
    using assms unfolding releases_def by auto
  from cs'(3) have "piece cs' 0 (length cs) = piece cs 0 (length cs)" by simp
  then show ?thesis using cs'(1,2) by simp
qed

lemma load_value_ptr: "value_cells h vb n k (ptr_cells q) \<Longrightarrow> load_ptr h (Ptr vb k) = Inr q"
  by (auto simp: value_cells_def load_ptr_def)

lemma entry_release:
  assumes "field_at h f" and "blocks h b = Some cs" and "distinct (b # footprint f)"
  shows "\<exists>h1. bindE (if value_type (fval f) = 6
      then bindE (load_ptr h (padd (Ptr (fblock f) 0) 8)) (\<lambda>q. if q \<noteq> Null then free h q else Inr h)
      else Inr h) (\<lambda>h1. free h1 (Ptr (fblock f) 0)) = Inr h1 \<and> releases h h1 b k 0 (footprint f)"
proof -
  let ?vb = "fblock f"
  have v: "value_at h ?vb (fbuf f) (fval f)" using assms(1) by (simp add: field_at_def)
  have live: "blocks h ?vb \<noteq> None" using value_at_live [OF v] by (simp add: value_blocks_def)
  have vb: "?vb \<noteq> b" using assms(3) by (auto simp: footprint_def value_blocks_def)
  show ?thesis
  proof (cases "fbuf f")
    case None
    then have fp: "footprint f = [?vb]" by (simp add: footprint_def value_blocks_def)
    have "releases h (drop_block ?vb h) b k 0 [?vb]" by (rule releases_drop [OF assms(2) vb])
    moreover have "load_ptr h (Ptr ?vb 8) = Inr Null" if "value_type (fval f) = 6"
      using v None that by (cases "fval f") (auto simp: type_ids load_value_ptr)
    ultimately show ?thesis using live by (auto simp: fp)
  next
    case (Some c)
    then obtain s where s: "fval f = VString s" using v by (cases "fval f") auto
    have q: "value_cells h ?vb 24 8 (ptr_cells (Ptr c 0))" "string_rep h (Ptr ?vb 0) c s"
      using v Some s by simp_all
    then have c: "blocks h c \<noteq> None" "c \<noteq> ?vb" by (auto simp: string_rep_def)
    have fp: "footprint f = [?vb, c]" using Some by (simp add: footprint_def value_blocks_def)
    have cb: "c \<noteq> b" using assms(3) fp by auto
    have r1: "releases h (drop_block c h) b k 0 [c]" by (rule releases_drop [OF assms(2) cb])
    have r2: "releases (drop_block c h) (drop_block ?vb (drop_block c h)) b (k + 0) 0 [?vb]"
      using assms(2) cb vb by (intro releases_drop [where cs = cs]) simp_all
    have "releases h (drop_block ?vb (drop_block c h)) b k (0 + 0) ([c] @ [?vb])"
      using r1 r2 c(2) cb by (intro releases_seq) auto
    then have "releases h (drop_block ?vb (drop_block c h)) b k 0 (footprint f)"
      by (auto simp: releases_def fp)
    moreover have "load_ptr h (Ptr ?vb 8) = Inr (Ptr c 0)" by (rule load_value_ptr [OF q(1)])
    ultimately show ?thesis using s live c by (auto simp: type_ids)
  qed
qed

lemma unat_u32_24: "24 * unat (i :: u32) < 4294967296 \<Longrightarrow> unat (i * 24) = 24 * unat i"
  by (simp add: unat_word_ariths mult.commute)

lemma object_entries_run:
  assumes "blocks h b = Some (counted n cap data)" and "entries_in data fs"
    and "24 * length fs \<le> length data" and "24 * length fs < 4294967296" and "unat i + r = length fs"
    and "\<forall>f \<in> set (drop (unat i) fs). field_at h f"
    and "distinct (b # concat (map footprint (drop (unat i) fs)))"
  shows "\<exists>h'. object_deallocate_entries (Ptr b 8) i r h = Inr h' \<and>
    releases h h' b 0 0 (concat (map footprint (drop (unat i) fs)))"
  using assms(1,5,6,7)
proof (induction r arbitrary: i h)
  case 0
  then show ?case using releases_refl by simp
next
  case (Suc r)
  let ?i = "unat i" and ?f = "fs ! unat i"
  have i: "?i < length fs" using Suc.prems(2) by simp
  have d: "drop ?i fs = ?f # drop (?i + 1) fs" using i by (simp add: Cons_nth_drop_Suc)
  have u: "unat (i + 1) = ?i + 1"
    using unat_plus_1_u32 [of i] i assms(4) by simp
  have off: "unat (i * 24) = 24 * ?i" using i assms(4) by (intro unat_u32_24) simp
  have l: "24 * ?i + 24 \<le> length data" using i assms(3) by linarith
  have ent: "entry_in data ?i ?f" using assms(2) i by (simp add: entries_in_def)
  note loads = entry_loads(2,4) [OF Suc.prems(1) l ent, unfolded entry_type_id_def entry_value_ptr_def]
  have fa: "field_at h ?f" and db: "distinct (b # footprint ?f)"
    using Suc.prems(3,4) by (auto simp: d)
  obtain h1 where h1: "bindE (if value_type (fval ?f) = 6
      then bindE (load_ptr h (padd (Ptr (fblock ?f) 0) 8)) (\<lambda>q. if q \<noteq> Null then free h q else Inr h)
      else Inr h) (\<lambda>h1. free h1 (Ptr (fblock ?f) 0)) = Inr h1"
    and r1: "releases h h1 b 0 0 (footprint ?f)"
    using entry_release [OF fa Suc.prems(1) db] by blast
  have b1: "blocks h1 b = Some (counted n cap data)"
    by (rule releases_nothing [OF r1 Suc.prems(1)])
  have fr: "field_at h1 g" if g: "g \<in> set (drop (unat (i + 1)) fs)" for g
  proof -
    have "field_at h g" using Suc.prems(3) g by (simp add: d u)
    moreover have "blocks h1 c = blocks h c" if "c \<in> set (value_blocks (fblock g) (fbuf g))" for c
    proof (rule releases_other [OF r1])
      have c: "c \<in> set (footprint g)" using that by (simp add: footprint_def)
      show "c \<notin> set (footprint ?f)" "c \<noteq> b"
        using Suc.prems(4) c g by (auto simp: d u)
    qed
    ultimately show ?thesis using value_at_cong [of "fblock g" "fbuf g" h1 h] by (simp add: field_at_def)
  qed
  have "distinct (b # concat (map footprint (drop (unat (i + 1)) fs)))"
    using Suc.prems(4) by (simp add: d u)
  then obtain h2 where h2: "object_deallocate_entries (Ptr b 8) (i + 1) r h1 = Inr h2"
      "releases h1 h2 b 0 0 (concat (map footprint (drop (unat (i + 1)) fs)))"
    using Suc.IH [OF b1, of "i + 1"] Suc.prems(2) fr by (auto simp: u)
  have "object_deallocate_entries (Ptr b 8) i (Suc r) h = Inr h2"
    using loads h1 h2(1) by (simp add: off del: free.simps split del: if_split)
  moreover have "releases h h2 b 0 (0 + 0)
      (footprint ?f @ concat (map footprint (drop (unat (i + 1)) fs)))"
    using r1 h2(2) Suc.prems(4) by (intro releases_seq) (auto simp: d u)
  ultimately show ?case by (simp add: d u)
qed

lemma object_deallocate_runs:
  assumes "reaches Object h p B" and "distinct (blk p # B)"
  shows "\<exists>h'. object_deallocate h p = Inr h' \<and> releases h h' (blk p) (off p) 16 B"
proof -
  consider "slot_holds h p Null" "B = []"
    | b cap fs where "object_rep h p b cap fs" "B = b # concat (map footprint fs)"
      "24 * length fs < 4294967296"
    using assms(1) by auto
  then show ?thesis
  proof cases
    case 1
    then obtain c k cs where "p = Ptr c k" "blocks h c = Some cs" by (auto elim: slot_holdsE)
    then show ?thesis
      using 1 releases_refl load_slot_plain [OF 1(1)] by (simp add: object_deallocate_def)
  next
    case (2 b cap fs)
    obtain data where d: "slot_holds h p (Ptr b 0)" "p \<noteq> Null"
        "blocks h b = Some (counted (of_nat (length fs)) cap data)" "length data = 24 * unat cap"
        "entries_in data fs" "length fs \<le> unat cap" "unat (of_nat (length fs) :: u32) = length fs"
        "\<forall>f \<in> set fs. field_at h f"
      using 2(1) by (rule object_repE)
    have dist: "distinct (b # concat (map footprint fs))" "blk p \<noteq> b"
        "blk p \<notin> set (concat (map footprint fs))" using assms(2) 2(2) by auto
    obtain h1 where h1: "object_deallocate_entries (Ptr b 8) 0 (length fs) h = Inr h1"
        "releases h h1 b 0 0 (concat (map footprint fs))"
      using object_entries_run [OF d(3,5), of 0 "length fs"] d(4,6,8) 2(3) dist(1) by auto
    have b1: "blocks h1 b \<noteq> None" using releases_nothing [OF h1(2) d(3)] by simp
    have "blocks h1 (blk p) = blocks h (blk p)" using releases_other [OF h1(2)] dist by simp
    then have slot1: "slot_holds h1 p (Ptr b 0)" using d(1) slot_holds_cong by blast
    from slot1 b1 dist(2) [symmetric] obtain h2 where h2: "free h1 (Ptr b 0) = Inr (drop_block b h1)"
        "store_ptr (drop_block b h1) (padd p 8) Null = Inr h2" "releases h1 h2 (blk p) (off p) 16 [b]"
      by (rule free_and_clear)
    have "object_deallocate h p = Inr h2"
      using d(2) h1(1) h2(1,2) load_slot_plain [OF d(1)] d(3,7)
      by (simp add: object_deallocate_def load_u32_def del: free.simps)
    moreover have "releases h h2 (blk p) (off p) 16 B"
      unfolding 2(2) using dist by (intro releases_buffer [OF h1(2) h2(3)]) simp_all
    ultimately show ?thesis by blast
  qed
qed

subsection \<open>Arrays and records\<close>

text \<open>\<open>live p n\<close>: the slot is inside a live block.\<close>

definition live_slot :: "heap \<Rightarrow> ptr \<Rightarrow> nat \<Rightarrow> bool" where
  "live_slot h p n \<longleftrightarrow> p \<noteq> Null \<and> (\<exists>cs. blocks h (blk p) = Some cs \<and> off p + n \<le> length cs)"

text \<open>What is proved of a type by induction: its \<open>deallocate\<close> releases what a value owns.\<close>

definition deallocates :: "ty \<Rightarrow> bool" where
  "deallocates t \<longleftrightarrow> (\<forall>h p B. reaches t h p B \<longrightarrow> live_slot h p (extent t) \<longrightarrow>
     extent t < 18446744073709551616 \<longrightarrow> distinct (blk p # B) \<longrightarrow>
     (\<exists>h'. deallocate t h p = Inr h' \<and> releases h h' (blk p) (off p) (extent t) B))"

lemma deallocatesD:
  assumes "deallocates t" and "reaches t h (Ptr b k) B" and "blocks h b = Some cs"
    and "k + extent t \<le> length cs" and "extent t < 18446744073709551616" and "distinct (b # B)"
  obtains h' where "deallocate t h (Ptr b k) = Inr h'" and "releases h h' b k (extent t) B"
  using assms by (fastforce simp: deallocates_def live_slot_def)

lemma unat_item_offset:
  assumes "unat i * extent t < 4294967296" and "extent t < 4294967296"
  shows "unat (i * item_size t) = unat i * extent t"
  using assms by (simp add: item_size_extent unat_word_ariths unat_of_nat)

lemma array_items_run:
  assumes t: "deallocates t"
    and N: "length Bs * extent t < 4294967296" "length Bs < 4294967296" "extent t < 4294967296"
    and "blocks h b = Some cs" and "8 + length Bs * extent t \<le> length cs" and "unat i + r = length Bs"
    and "\<forall>j. unat i \<le> j \<longrightarrow> j < length Bs \<longrightarrow> reaches t h (Ptr b (8 + j * extent t)) (Bs ! j)"
    and "distinct (b # concat (drop (unat i) Bs))"
  shows "\<exists>h'. array_deallocate_items (deallocate t) (item_size t) (Ptr b 8) i r h = Inr h' \<and>
    releases h h' b (8 + unat i * extent t) (r * extent t) (concat (drop (unat i) Bs))"
  using assms(5-)
proof (induction r arbitrary: i h cs)
  case 0
  then show ?case using releases_refl by simp
next
  case (Suc r)
  let ?i = "unat i" and ?s = "extent t" and ?N = "length Bs"
  have i: "?i < ?N" using Suc.prems(3) by simp
  have u: "unat (i + 1) = ?i + 1" using unat_plus_1_u32 [of i] i N(2) by simp
  have d: "drop ?i Bs = Bs ! ?i # drop (?i + 1) Bs" using i by (simp add: Cons_nth_drop_Suc)
  have e: "?i * ?s + ?s \<le> ?N * ?s" by (rule element_end [OF i])
  have off: "unat (i * item_size t) = ?i * ?s" using e N by (intro unat_item_offset) linarith+
  have di: "distinct (b # Bs ! ?i)" using Suc.prems(5) by (simp add: d)
  have hi: "reaches t h (Ptr b (8 + ?i * ?s)) (Bs ! ?i)" using Suc.prems(4) i by simp
  have li: "8 + ?i * ?s + ?s \<le> length cs" using Suc.prems(2) e by linarith
  obtain h1 where h1: "deallocate t h (Ptr b (8 + ?i * ?s)) = Inr h1"
      and r1: "releases h h1 b (8 + ?i * ?s) ?s (Bs ! ?i)"
    using deallocatesD [OF t hi Suc.prems(1) li _ di] N(3) by auto
  obtain cs1 where cs1: "blocks h1 b = Some cs1" "length cs1 = length cs"
    using r1 Suc.prems(1) by (auto simp: releases_def)
  have rest: "reaches t h1 (Ptr b (8 + j * ?s)) (Bs ! j)" if j: "unat (i + 1) \<le> j" "j < ?N" for j
  proof (rule reaches_same)
    show "reaches t h (Ptr b (8 + j * ?s)) (Bs ! j)" using Suc.prems(4) j u by simp
    have ej: "j * ?s + ?s \<le> ?N * ?s" by (rule element_end [OF j(2)])
    have ij: "?i * ?s + ?s \<le> j * ?s" using j(1) u by (intro element_end) simp
    have m: "j - (?i + 1) < length (drop (?i + 1) Bs)" using j u by simp
    have "set (Bs ! j) \<subseteq> set (concat (drop (?i + 1) Bs))"
      using set_nth_concat [OF m] j u by (auto simp: nth_drop)
    then have dj: "b \<notin> set (Bs ! j)" "set (Bs ! ?i) \<inter> set (Bs ! j) = {}"
      using Suc.prems(5) by (auto simp: d)
    show "same_on h h1 (Ptr b (8 + j * ?s)) ?s (Bs ! j)"
      using Suc.prems(1,2) ej ij dj di by (intro releases_same_on [OF r1]) auto
  qed
  obtain h2 where h2: "array_deallocate_items (deallocate t) (item_size t) (Ptr b 8) (i + 1) r h1 = Inr h2"
      "releases h1 h2 b (8 + unat (i + 1) * ?s) (r * ?s) (concat (drop (unat (i + 1)) Bs))"
    using Suc.IH [OF cs1(1), of "i + 1"] Suc.prems(2,3,5) cs1(2) rest by (auto simp: u d)
  have "releases h h2 b (8 + ?i * ?s) (?s + r * ?s) (Bs ! ?i @ concat (drop (?i + 1) Bs))"
  proof (rule releases_seq [OF r1])
    show "releases h1 h2 b (8 + ?i * ?s + ?s) (r * ?s) (concat (drop (?i + 1) Bs))"
      using h2(2) unfolding u by (simp add: algebra_simps)
  qed (use Suc.prems(5) in \<open>auto simp: d\<close>)
  moreover have "array_deallocate_items (deallocate t) (item_size t) (Ptr b 8) i (Suc r) h = Inr h2"
    using h1 h2(1) by (simp add: off)
  ultimately show ?case by (simp add: d)
qed

lemma array_deallocates:
  assumes t: "deallocates t"
  shows "deallocates (Array t)"
  unfolding deallocates_def
proof (intro allI impI)
  fix h p B
  assume hold: "reaches (Array t) h p B" and dist: "distinct (blk p # B)"
  consider "slot_holds h p Null" "B = []"
    | b n cap data Bs where "slot_holds h p (Ptr b 0)" "blocks h b = Some (counted n cap data)"
      "unat n * extent t \<le> length data" "unat n * extent t < 4294967296"
      "length Bs = unat n" "B = b # concat Bs"
      "\<forall>i < unat n. reaches t h (Ptr b (8 + i * extent t)) (Bs ! i)"
    using hold by auto
  then show "\<exists>h'. deallocate (Array t) h p = Inr h' \<and> releases h h' (blk p) (off p) (extent (Array t)) B"
  proof cases
    case 1
    then obtain c k cs where "p = Ptr c k" "blocks h c = Some cs" by (auto elim: slot_holdsE)
    then show ?thesis
      using 1 releases_refl load_slot_plain [OF 1(1)] by (simp add: array_deallocate_def)
  next
    case (2 b n cap data Bs)
    have pb: "b \<noteq> blk p" "blk p \<notin> set (concat Bs)" "distinct (b # concat Bs)" "p \<noteq> Null"
      using dist 2(1,6) by auto
    obtain h1 where h1: "array_deallocate_items (deallocate t) (item_size t) (Ptr b 8) 0 (unat n) h = Inr h1"
        "releases h h1 b 8 (unat n * extent t) (concat Bs)"
    proof (cases "extent t < 4294967296")
      case True
      have "\<exists>h1. array_deallocate_items (deallocate t) (item_size t) (Ptr b 8) 0 (unat n) h = Inr h1 \<and>
          releases h h1 b (8 + unat (0 :: u32) * extent t) (unat n * extent t)
            (concat (drop (unat (0 :: u32)) Bs))"
        using t 2 True pb(3) unat_u32_less [of n]
        by (intro array_items_run [where cs = "counted n cap data"]) simp_all
      then show ?thesis using that by auto
    next
      case False
      have "unat n = 0"
      proof (rule ccontr)
        assume "unat n \<noteq> 0"
        then have "1 * extent t \<le> unat n * extent t" by (intro mult_right_mono) linarith+
        then show False using False 2(4) by linarith
      qed
      then show ?thesis
        using that [of h] 2(5) releases_refl [OF 2(2)] by simp
    qed
    have b1: "blocks h1 b \<noteq> None" using h1(2) by (auto simp: releases_def)
    have "blocks h1 (blk p) = blocks h (blk p)" using releases_other [OF h1(2)] pb by simp
    then have slot1: "slot_holds h1 p (Ptr b 0)" using 2(1) slot_holds_cong by blast
    from slot1 b1 pb(1) obtain h2 where h2: "free h1 (Ptr b 0) = Inr (drop_block b h1)"
        "store_ptr (drop_block b h1) (padd p 8) Null = Inr h2" "releases h1 h2 (blk p) (off p) 16 [b]"
      by (rule free_and_clear)
    have "deallocate (Array t) h p = Inr h2"
      using pb(4) h1(1) h2(1,2) load_slot_plain [OF 2(1)] 2(2)
      by (simp add: array_deallocate_def load_u32_def del: free.simps)
    moreover have "releases h h2 (blk p) (off p) 16 B"
      unfolding 2(6) using pb by (intro releases_buffer [OF h1(2) h2(3)]) simp_all
    ultimately show ?thesis by simp
  qed
qed

lemma releases_live_slot:
  assumes "releases h h' b k n B" and "live_slot h q m" and "blk q \<notin> set B"
  shows "live_slot h' q m"
  using assms by (cases "blk q = b") (auto simp: live_slot_def releases_def)

lemma scalar_deallocates:
  assumes "deallocate t = (\<lambda>h slot. Inr h)" and "\<And>h p B. reaches t h p B \<Longrightarrow> B = []"
  shows "deallocates t"
  unfolding deallocates_def using assms releases_refl by (fastforce simp: live_slot_def)

lemma record_deallocates:
  assumes IH: "\<And>k h p B. fields_reach fs k h p B \<Longrightarrow> live_slot h (padd p k) (fields_extent fs) \<Longrightarrow>
    k + fields_extent fs < 18446744073709551616 \<Longrightarrow> distinct (blk p # B) \<Longrightarrow>
    \<exists>h'. deallocate_fields fs (of_nat k) h p = Inr h' \<and> releases h h' (blk p) (off p + k) (fields_extent fs) B"
  shows "deallocates (Record fs)"
  unfolding deallocates_def
proof (intro allI impI)
  fix h p B
  assume *: "reaches (Record fs) h p B" "live_slot h p (extent (Record fs))"
    "extent (Record fs) < 18446744073709551616" "distinct (blk p # B)"
  have p: "p \<noteq> Null" using *(2) by (simp add: live_slot_def)
  have "live_slot h (padd p 8) (fields_extent fs)"
    using *(2) by (cases p) (auto simp: live_slot_def)
  then obtain h' where h': "deallocate_fields fs header_size h p = Inr h'"
      "releases h h' (blk p) (off p + 8) (fields_extent fs) B"
    using IH [of 8 h p B] * by (auto simp: header_size_def)
  have "releases h h' (blk p) (off p) (extent (Record fs)) B"
    using h'(2) by (auto simp: releases_def)
  then show "\<exists>h'. deallocate (Record fs) h p = Inr h' \<and>
      releases h h' (blk p) (off p) (extent (Record fs)) B"
    using h'(1) p by auto
qed

lemma member_deallocates:
  assumes t: "deallocates t"
    and fs: "\<And>k h p B. fields_reach fs k h p B \<Longrightarrow> live_slot h (padd p k) (fields_extent fs) \<Longrightarrow>
      k + fields_extent fs < 18446744073709551616 \<Longrightarrow> distinct (blk p # B) \<Longrightarrow>
      \<exists>h'. deallocate_fields fs (of_nat k) h p = Inr h' \<and> releases h h' (blk p) (off p + k) (fields_extent fs) B"
    and hold: "fields_reach (Member n t # fs) k h p B"
    and live: "live_slot h (padd p k) (fields_extent (Member n t # fs))"
    and bound: "k + fields_extent (Member n t # fs) < 18446744073709551616" and dist: "distinct (blk p # B)"
  shows "\<exists>h'. deallocate_fields (Member n t # fs) (of_nat k) h p = Inr h' \<and>
    releases h h' (blk p) (off p + k) (fields_extent (Member n t # fs)) B"
proof -
  from hold obtain B1 B2 where B: "B = B1 @ B2" "reaches t h (padd p k) B1"
      "fields_reach fs (k + extent t) h p B2" by auto
  obtain b j cs where p: "p = Ptr b j" "blocks h b = Some cs"
      "j + k + (extent t + fields_extent fs) \<le> length cs"
    using live by (cases p) (auto simp: live_slot_def)
  have d1: "distinct (b # B1)" and d2: "distinct (b # B2)" and d12: "set B1 \<inter> set B2 = {}"
    using dist B(1) p(1) by auto
  obtain h1 where h1: "deallocate t h (Ptr b (j + k)) = Inr h1"
      and r1: "releases h h1 b (j + k) (extent t) B1"
  proof (rule deallocatesD [OF t _ p(2) _ _ d1])
    show "reaches t h (Ptr b (j + k)) B1" using B(2) p(1) by simp
    show "j + k + extent t \<le> length cs" using p(3) by linarith
    show "extent t < 18446744073709551616" using bound by simp
  qed
  have "same_on h h1 (Ptr b (j + k + extent t)) (fields_extent fs) B2"
    using p d1 d2 d12 by (intro releases_same_on [OF r1]) auto
  then have hold1: "fields_reach fs (k + extent t) h1 p B2"
    using p(1) by (intro fields_reach_same [OF B(3)]) (simp add: add.assoc)
  have "live_slot h (padd p (k + extent t)) (fields_extent fs)"
    using p by (simp add: live_slot_def)
  then have live1: "live_slot h1 (padd p (k + extent t)) (fields_extent fs)"
    using d1 p(1) by (intro releases_live_slot [OF r1]) simp_all
  obtain h2 where h2: "deallocate_fields fs (of_nat (k + extent t)) h1 p = Inr h2"
      and r2: "releases h1 h2 (blk p) (off p + (k + extent t)) (fields_extent fs) B2"
    using fs [OF hold1 live1] bound d2 p(1) by auto
  have "releases h h2 b (j + k) (extent t + fields_extent fs) (B1 @ B2)"
  proof (rule releases_seq [OF r1 _ _ d12])
    show "releases h1 h2 b (j + k + extent t) (fields_extent fs) B2"
      using r2 p(1) by (simp add: add.assoc)
  qed (use d1 in simp)
  moreover have "unat (of_nat k :: u64) = k" using bound by (simp add: unat_of_nat)
  then have "deallocate_fields (Member n t # fs) (of_nat k) h p = Inr h2"
    using h1 h2 p(1) by (simp add: slot_size_extent)
  ultimately show ?thesis using p(1) B(1) by auto
qed

lemma all_deallocate: "deallocates t"
  and fields_deallocate: "fields_reach fs k h p B \<Longrightarrow> live_slot h (padd p k) (fields_extent fs) \<Longrightarrow>
    k + fields_extent fs < 18446744073709551616 \<Longrightarrow> distinct (blk p # B) \<Longrightarrow>
    \<exists>h'. deallocate_fields fs (of_nat k) h p = Inr h' \<and> releases h h' (blk p) (off p + k) (fields_extent fs) B"
proof (induction t and fs arbitrary: and k h p B rule: ty_fields_induct)
  case 6
  then show ?case
    using string_deallocate_runs by (simp add: deallocates_def del: reaches.simps)
next
  case (7 t)
  then show ?case by (rule array_deallocates)
next
  case 8
  then show ?case
    using object_deallocate_runs by (simp add: deallocates_def del: reaches.simps)
next
  case (9 fs)
  then show ?case by (rule record_deallocates)
next
  case 10
  then show ?case using releases_refl by (auto simp: live_slot_def)
next
  case (11 n t fs)
  show ?case by (rule member_deallocates [OF "11.IH" "11.prems"])
qed (rule scalar_deallocates; simp)+

section \<open>Zeroed memory\<close>

text \<open>A zeroed slot is a well-formed value of every type: null pointers everywhere, nothing owned.\<close>

lemma slot_holds_zero:
  "blocks h b = Some cs \<Longrightarrow> k + 16 \<le> length cs \<Longrightarrow> k mod 8 = 0 \<Longrightarrow> set cs \<subseteq> {Byte 0} \<Longrightarrow>
   slot_holds h (Ptr b k) Null"
proof (rule slot_holdsI)
  assume *: "k + 16 \<le> length cs" "set cs \<subseteq> {Byte 0}"
  have "set (piece cs (k + 8) 8) \<subseteq> {Byte 0}"
    using *(2) by (auto simp: piece_def dest!: in_set_takeD in_set_dropD)
  then have "piece cs (k + 8) 8 = replicate (length (piece cs (k + 8) 8)) (Byte 0)"
    by (intro replicate_eqI) auto
  then show "piece cs (k + 8) 8 = ptr_cells Null" using *(1) by (simp add: ptr_cells.simps)
qed

end
