(* ===== verification/Msm_Ownership.thy ===== *)
theory Msm_Ownership
  imports Msm_Dealloc
begin

text \<open>
  What a value owns: every block that is reachable from its slot, the buffers of nested objects
  included. \<open>owns\<close> is the ownership of a field of an object, \<open>owned t n h p B L\<close> that of a value of
  type \<open>t\<close>, split into the blocks \<open>B\<close> that its \<open>deallocate\<close> reaches and the blocks \<open>L\<close> that it
  does not.
\<close>

section \<open>What a field owns, nested objects included\<close>

text \<open>\<open>owns n h f B\<close>: the field \<open>f\<close> is well formed down to a depth of \<open>n\<close> objects at most, and
  owns the blocks \<open>B\<close>: its value, and the character buffer of a string or the entries buffer of an
  object with all that its fields own.\<close>

fun owns :: "nat \<Rightarrow> heap \<Rightarrow> obj_field \<Rightarrow> nat list \<Rightarrow> bool" where
  "owns 0 h f B \<longleftrightarrow> False"
| "owns (Suc n) h f B \<longleftrightarrow> field_at h f \<and>
     (case fval f of
        VObject q \<Rightarrow>
          q = Null \<and> B = [fblock f] \<or>
          (\<exists>b cap fs Bs. q = Ptr b 0 \<and> object_rep h (Ptr (fblock f) 0) b cap fs \<and>
             length Bs = length fs \<and> (\<forall>i < length fs. owns n h (fs ! i) (Bs ! i)) \<and>
             B = fblock f # b # concat Bs)
      | _ \<Rightarrow> B = footprint f)"

lemma owns_field: "owns n h f B \<Longrightarrow> field_at h f"
  by (cases n) auto

lemma owns_nested:
  "fval f = VObject (Ptr b 0) \<Longrightarrow> owns (Suc n) h f B \<longleftrightarrow> field_at h f \<and>
     (\<exists>cap fs Bs. object_rep h (Ptr (fblock f) 0) b cap fs \<and> length Bs = length fs \<and>
        (\<forall>i < length fs. owns n h (fs ! i) (Bs ! i)) \<and> B = fblock f # b # concat Bs)"
  by auto

text \<open>A field owns its footprint alone, or it is a nested object.\<close>

lemma owns_cases:
  assumes "owns n h f B"
  obtains (plain) m where "n = Suc m" and "field_at h f" and "B = footprint f"
      and "\<And>q. fval f = VObject q \<Longrightarrow> q = Null"
    | (nested) m b cap fs Bs where "n = Suc m" and "field_at h f" and "fval f = VObject (Ptr b 0)"
      and "object_rep h (Ptr (fblock f) 0) b cap fs" and "length Bs = length fs"
      and "\<And>i. i < length fs \<Longrightarrow> owns m h (fs ! i) (Bs ! i)" and "B = fblock f # b # concat Bs"
proof -
  obtain m where m: "n = Suc m" using assms by (cases n) simp_all
  have f: "field_at h f" by (rule owns_field [OF assms])
  show ?thesis
  proof (cases "\<exists>q. fval f = VObject q \<and> q \<noteq> Null")
    case True
    then obtain b where b: "fval f = VObject (Ptr b 0)" using assms m by auto
    then show ?thesis using assms m f by (auto simp: owns_nested simp del: owns.simps intro: nested)
  next
    case False
    then have "B = footprint f"
    proof (cases "fval f")
      case (VObject q)
      then have "fbuf f = None" using f by (simp add: field_at_def)
      then show ?thesis using False assms m VObject by (auto simp: footprint_def value_blocks_def)
    qed (use assms m in simp_all)
    then show ?thesis using m f False by (intro plain) auto
  qed
qed

lemma owns_plainI:
  assumes "field_at h f" and "\<And>q. fval f = VObject q \<Longrightarrow> q = Null"
  shows "owns (Suc n) h f (footprint f)"
proof (cases "fval f")
  case (VObject q)
  then have "fbuf f = None" using assms(1) by (simp add: field_at_def)
  then show ?thesis using VObject assms by (simp add: footprint_def value_blocks_def)
qed (use assms(1) in simp_all)

lemma owns_nestedI:
  assumes "field_at h f" and "fval f = VObject (Ptr b 0)"
    and "object_rep h (Ptr (fblock f) 0) b cap fs" and "length Bs = length fs"
    and "\<And>i. i < length fs \<Longrightarrow> owns n h (fs ! i) (Bs ! i)"
  shows "owns (Suc n) h f (fblock f # b # concat Bs)"
  unfolding owns_nested [OF assms(2)] using assms by blast

lemma owns_footprint:
  assumes "owns n h f B"
  shows "set (footprint f) \<subseteq> set B"
  using assms
proof (cases rule: owns_cases)
  case nested
  then show ?thesis by (auto simp: field_at_def footprint_def value_blocks_def)
qed simp

lemma owns_Suc: "owns n h f B \<Longrightarrow> owns (Suc n) h f B"
proof (induction n arbitrary: f B)
  case (Suc n)
  from Suc.prems show ?case
  proof (cases rule: owns_cases)
    case plain
    then show ?thesis by (simp add: owns_plainI del: owns.simps)
  next
    case nested
    then show ?thesis using Suc.IH by (auto intro!: owns_nestedI simp del: owns.simps)
  qed
qed simp

lemma owns_mono: "n \<le> m \<Longrightarrow> owns n h f B \<Longrightarrow> owns m h f B"
  by (induction m rule: dec_induct) (auto intro: owns_Suc simp del: owns.simps)

text \<open>What a field owns depends on these blocks alone.\<close>

lemma footprints_owned:
  assumes "length Bs = length fs" and "\<And>i. i < length fs \<Longrightarrow> set (footprint (fs ! i)) \<subseteq> set (Bs ! i)"
  shows "set (concat (map footprint fs)) \<subseteq> set (concat Bs)"
proof
  fix c assume "c \<in> set (concat (map footprint fs))"
  then obtain f where f: "f \<in> set fs" "c \<in> set (footprint f)" by auto
  then obtain i where i: "i < length fs" "fs ! i = f" by (auto simp: in_set_conv_nth)
  then have "c \<in> set (Bs ! i)" using assms(2) f(2) by blast
  then show "c \<in> set (concat Bs)" using set_nth_concat i(1) assms(1) by metis
qed

lemma owns_cong:
  "owns n h f B \<Longrightarrow> (\<And>c. c \<in> set B \<Longrightarrow> blocks h' c = blocks h c) \<Longrightarrow> owns n h' f B"
proof (induction n arbitrary: f B)
  case (Suc n)
  have "value_at h' (fblock f) (fbuf f) (fval f) = value_at h (fblock f) (fbuf f) (fval f)"
    using owns_footprint [OF Suc.prems(1)] Suc.prems(2) by (intro value_at_cong) (auto simp: footprint_def)
  then have f: "field_at h' f" using owns_field [OF Suc.prems(1)] by (simp add: field_at_def)
  from Suc.prems(1) show ?case
  proof (cases rule: owns_cases)
    case plain
    then show ?thesis using f by (simp add: owns_plainI del: owns.simps)
  next
    case (nested m b cap fs Bs)
    have own: "owns n h (fs ! i) (Bs ! i)" if "i < length fs" for i using nested(1,6) that by simp
    have eq: "blocks h' c = blocks h c" if "c \<in> set (fblock f # b # concat Bs)" for c
      using Suc.prems(2) nested(7) that by simp
    have fp: "set (concat (map footprint fs)) \<subseteq> set (concat Bs)"
      using nested(5) owns_footprint [OF own] by (rule footprints_owned)
    obtain cs where cs: "blocks h (fblock f) = Some cs" "16 \<le> length cs"
      using nested(4) by (auto simp: object_rep_def elim!: slot_holdsE)
    have "same_on h h' (Ptr (fblock f) 0) 16 (b # concat (map footprint fs))"
      using cs eq fp by (intro same_on_block [OF _ cs(1)]) auto
    then have rep: "object_rep h' (Ptr (fblock f) 0) b cap fs" by (rule object_rep_same [OF nested(4)])
    have "owns n h' (fs ! i) (Bs ! i)" if i: "i < length fs" for i
    proof (rule Suc.IH [OF own [OF i]])
      fix c assume "c \<in> set (Bs ! i)"
      then have "c \<in> set (concat Bs)" using set_nth_concat i nested(5) by metis
      then show "blocks h' c = blocks h c" using eq by simp
    qed
    then show ?thesis unfolding nested(7) using f nested(3,5) rep by (intro owns_nestedI)
  qed
qed simp

lemma in_concat_nth: "c \<in> set (concat Bs) \<Longrightarrow> \<exists>i < length Bs. c \<in> set (Bs ! i)"
  by (metis UN_E in_set_conv_nth set_concat)

lemma owns_live: "owns n h f B \<Longrightarrow> c \<in> set B \<Longrightarrow> blocks h c \<noteq> None"
proof (induction n arbitrary: f B)
  case (Suc n)
  from Suc.prems(1) show ?case
  proof (cases rule: owns_cases)
    case plain
    then have "c \<in> set (footprint f)" using Suc.prems(2) by simp
    then show ?thesis
      using plain(2) value_at_live [of h "fblock f" "fbuf f" "fval f"]
      by (auto simp: field_at_def footprint_def)
  next
    case (nested m b cap fs Bs)
    then have "c = fblock f \<or> c = b \<or> c \<in> set (concat Bs)" using Suc.prems(2) by simp
    then consider "c = fblock f" | "c = b" | i where "i < length fs" "c \<in> set (Bs ! i)"
      using nested(5) in_concat_nth [of c Bs] by metis
    then show ?thesis
    proof cases
      case 1
      then show ?thesis using nested(4) by (auto simp: object_rep_def elim!: slot_holdsE)
    next
      case 2
      then show ?thesis using nested(4) by (auto simp: object_rep_def)
    next
      case 3
      then show ?thesis using Suc.IH nested(1,6) by blast
    qed
  qed
qed simp

text \<open>The value of a field and, of a string, its buffer come first among the blocks it owns.\<close>

lemma owns_split:
  assumes "owns n h f B"
  obtains L where "B = footprint f @ L" and "(\<And>q. fval f = VObject q \<Longrightarrow> q = Null) \<Longrightarrow> L = []"
  using assms
proof (cases rule: owns_cases)
  case plain
  then show ?thesis using that [of "[]"] by simp
next
  case (nested m b cap fs Bs)
  then have "footprint f = [fblock f]" by (auto simp: field_at_def footprint_def value_blocks_def)
  then show ?thesis using nested(3,7) by (intro that [of "b # concat Bs"]) auto
qed

section \<open>What a value owns\<close>

fun owned :: "ty \<Rightarrow> nat \<Rightarrow> heap \<Rightarrow> ptr \<Rightarrow> nat list \<Rightarrow> nat list \<Rightarrow> bool"
  and fields_owned :: "member list \<Rightarrow> nat \<Rightarrow> nat \<Rightarrow> heap \<Rightarrow> ptr \<Rightarrow> nat list \<Rightarrow> nat list \<Rightarrow> bool" where
  "owned Boolean n h p B L \<longleftrightarrow> B = [] \<and> L = []"
| "owned Int32 n h p B L \<longleftrightarrow> B = [] \<and> L = []"
| "owned Float32 n h p B L \<longleftrightarrow> B = [] \<and> L = []"
| "owned Int64 n h p B L \<longleftrightarrow> B = [] \<and> L = []"
| "owned Float64 n h p B L \<longleftrightarrow> B = [] \<and> L = []"
| "owned String n h p B L \<longleftrightarrow> L = [] \<and> (slot_holds h p Null \<and> B = [] \<or>
     (\<exists>b. slot_holds h p (Ptr b 0) \<and> blocks h b \<noteq> None \<and> B = [b]))"
| "owned (Array t) n h p B L \<longleftrightarrow> slot_holds h p Null \<and> B = [] \<and> L = [] \<or>
     (\<exists>b k cap data Bs Ls. slot_holds h p (Ptr b 0) \<and> blocks h b = Some (counted k cap data) \<and>
        unat k * extent t \<le> length data \<and> unat k * extent t < 4294967296 \<and>
        length Bs = unat k \<and> length Ls = unat k \<and> B = b # concat Bs \<and> L = concat Ls \<and>
        (\<forall>i < unat k. owned t n h (Ptr b (8 + i * extent t)) (Bs ! i) (Ls ! i)))"
| "owned Object n h p B L \<longleftrightarrow> slot_holds h p Null \<and> B = [] \<and> L = [] \<or>
     (\<exists>b cap fs Ls. object_rep h p b cap fs \<and> 24 * length fs < 4294967296 \<and>
        length Ls = length fs \<and> B = b # concat (map footprint fs) \<and> L = concat Ls \<and>
        (\<forall>i < length fs. owns n h (fs ! i) (footprint (fs ! i) @ Ls ! i)))"
| "owned (Record fs) n h p B L \<longleftrightarrow> fields_owned fs 8 n h p B L"
| "fields_owned [] k n h p B L \<longleftrightarrow> B = [] \<and> L = []"
| "fields_owned (Member nm t # fs) k n h p B L \<longleftrightarrow>
     (\<exists>B1 B2 L1 L2. B = B1 @ B2 \<and> L = L1 @ L2 \<and> owned t n h (padd p k) B1 L1 \<and>
        fields_owned fs (k + extent t) n h p B2 L2)"

lemma owned_ArrayE:
  assumes "owned (Array t) n h p B L"
  obtains "slot_holds h p Null" and "B = []" and "L = []"
  | b k cap data Bs Ls where "slot_holds h p (Ptr b 0)" and "blocks h b = Some (counted k cap data)"
    and "unat k * extent t \<le> length data" and "unat k * extent t < 4294967296"
    and "length Bs = unat k" and "length Ls = unat k" and "B = b # concat Bs" and "L = concat Ls"
    and "\<forall>i < unat k. owned t n h (Ptr b (8 + i * extent t)) (Bs ! i) (Ls ! i)"
  using assms by auto

lemma owned_ObjectE:
  assumes "owned Object n h p B L"
  obtains "slot_holds h p Null" and "B = []" and "L = []"
  | b cap fs Ls where "object_rep h p b cap fs" and "24 * length fs < 4294967296"
    and "length Ls = length fs" and "B = b # concat (map footprint fs)" and "L = concat Ls"
    and "\<forall>i < length fs. owns n h (fs ! i) (footprint (fs ! i) @ Ls ! i)"
  using assms by auto

lemma fields_owned_ConsE:
  assumes "fields_owned (Member nm t # fs) k n h p B L"
  obtains B1 B2 L1 L2 where "B = B1 @ B2" and "L = L1 @ L2" and "owned t n h (padd p k) B1 L1"
    and "fields_owned fs (k + extent t) n h p B2 L2"
  using assms by auto

lemma owned_reaches: "owned t n h p B L \<Longrightarrow> reaches t h p B"
  and fields_owned_reach: "fields_owned fs k n h p B L \<Longrightarrow> fields_reach fs k h p B"
proof (induction t and fs arbitrary: p B L and k p B L rule: ty_fields_induct)
  case (7 t)
  from "7.prems" show ?case
  proof (cases rule: owned_ArrayE)
    case 2
    then show ?thesis using "7.IH" by (auto intro!: reaches_ArrayI simp del: reaches.simps)
  qed simp
next
  case (11 nm t fs)
  from "11.prems" obtain B1 B2 L1 L2 where "B = B1 @ B2" "owned t n h (padd p k) B1 L1"
      "fields_owned fs (k + extent t) n h p B2 L2" by (rule fields_owned_ConsE)
  then show ?case using "11.IH" unfolding fields_reach.simps by blast
qed auto

lemma owned_live: "owned t n h p B L \<Longrightarrow> c \<in> set L \<Longrightarrow> blocks h c \<noteq> None"
  and fields_owned_live: "fields_owned fs k n h p B L \<Longrightarrow> c \<in> set L \<Longrightarrow> blocks h c \<noteq> None"
proof (induction t and fs arbitrary: p B L and k p B L rule: ty_fields_induct)
  case (7 t)
  from "7.prems"(1) show ?case
  proof (cases rule: owned_ArrayE)
    case (2 b k cap data Bs Ls)
    then obtain i where "i < unat k" "c \<in> set (Ls ! i)"
      using "7.prems"(2) in_concat_nth [of c Ls] by auto
    then show ?thesis using "7.IH" 2(9) by blast
  qed (use "7.prems"(2) in simp)
next
  case 8
  from "8.prems"(1) show ?case
  proof (cases rule: owned_ObjectE)
    case (2 b cap fs Ls)
    then obtain i where i: "i < length fs" "c \<in> set (Ls ! i)"
      using "8.prems"(2) in_concat_nth [of c Ls] by auto
    then have "owns n h (fs ! i) (footprint (fs ! i) @ Ls ! i)" using 2(6) by blast
    then show ?thesis using owns_live i(2) by auto
  qed (use "8.prems"(2) in simp)
next
  case (11 nm t fs)
  from "11.prems"(1) obtain B1 B2 L1 L2 where "L = L1 @ L2" "owned t n h (padd p k) B1 L1"
      "fields_owned fs (k + extent t) n h p B2 L2" by (rule fields_owned_ConsE)
  then show ?case using "11.IH" "11.prems"(2) by auto
qed auto

text \<open>A type without objects: everything its values own is reached.\<close>

fun flat :: "ty \<Rightarrow> bool" and fields_flat :: "member list \<Rightarrow> bool" where
  "flat Boolean = True"
| "flat Int32 = True"
| "flat Float32 = True"
| "flat Int64 = True"
| "flat Float64 = True"
| "flat String = True"
| "flat (Array t) = flat t"
| "flat Object = False"
| "flat (Record fs) = fields_flat fs"
| "fields_flat [] = True"
| "fields_flat (Member n t # fs) = (flat t \<and> fields_flat fs)"

lemma flat_owned: "owned t n h p B L \<Longrightarrow> flat t \<Longrightarrow> L = []"
  and flat_fields_owned: "fields_owned fs k n h p B L \<Longrightarrow> fields_flat fs \<Longrightarrow> L = []"
proof (induction t and fs arbitrary: p B L and k p B L rule: ty_fields_induct)
  case (7 t)
  from "7.prems"(1) show ?case
  proof (cases rule: owned_ArrayE)
    case (2 b k cap data Bs Ls)
    have "l = []" if "l \<in> set Ls" for l
    proof -
      obtain i where "i < unat k" "l = Ls ! i" using \<open>l \<in> set Ls\<close> 2(6) by (auto simp: in_set_conv_nth)
      then show ?thesis using "7.IH" 2(9) "7.prems"(2) by auto
    qed
    then show ?thesis unfolding 2(8) concat_eq_Nil_conv by blast
  qed simp
next
  case (11 nm t fs)
  from "11.prems"(1) obtain B1 B2 L1 L2 where "L = L1 @ L2" "owned t n h (padd p k) B1 L1"
      "fields_owned fs (k + extent t) n h p B2 L2" by (rule fields_owned_ConsE)
  moreover have "flat t" "fields_flat fs" using "11.prems"(2) by simp_all
  ultimately show ?case using "11.IH" by blast
qed auto

lemma owned_zero: "blocks h b = Some cs \<Longrightarrow> set cs \<subseteq> {Byte 0} \<Longrightarrow> k mod 8 = 0 \<Longrightarrow>
    k + extent t \<le> length cs \<Longrightarrow> owned t n h (Ptr b k) [] []"
  and fields_owned_zero: "blocks h b = Some cs \<Longrightarrow> set cs \<subseteq> {Byte 0} \<Longrightarrow> (k + j) mod 8 = 0 \<Longrightarrow>
    k + j + fields_extent fs \<le> length cs \<Longrightarrow> fields_owned fs j n h (Ptr b k) [] []"
proof (induction t and fs arbitrary: k and k j rule: ty_fields_induct)
  case (9 fs)
  have "(k + 8) mod 8 = 0" using 9(4) by simp
  then show ?case using 9 by simp
next
  case (11 nm t fs)
  have "(k + (j + extent t)) mod 8 = 0"
  proof -
    have "8 dvd k + j" "8 dvd extent t" using 11(5) extent_mod8 [of t] by presburger+
    then have "8 dvd k + j + extent t" by (rule dvd_add)
    then show ?thesis by (simp add: add.assoc)
  qed
  then show ?case using 11 by simp
qed (simp_all add: slot_holds_zero mod_eq_0_iff_dvd)

end
