(* ===== verification/Msm_Dealloc_Props.thy ===== *)
theory Msm_Dealloc_Props
  imports Msm_Ownership Msm_Registry_Props Msm_Object_Props
begin

text \<open>
  The properties of teardown: what \<open>deallocate\<close> frees for a value of any type, what it leaves
  behind, and the life of a segment from \<open>create\<close> to \<open>close\<close>.
\<close>

section \<open>Deallocating a value\<close>

lemma deallocate_runs:
  assumes "owned t n h p B L" and "live_slot h p (extent t)" and "extent t < 2 ^ 64" and "distinct (blk p # B)"
  obtains h' where "deallocate t h p = Inr h'" and "releases h h' (blk p) (off p) (extent t) B"
proof -
  have "extent t < 18446744073709551616" using assms(3) by simp
  then show ?thesis
    using assms(2,4) owned_reaches [OF assms(1)] all_deallocate [of t] that unfolding deallocates_def by blast
qed

lemma releases_live:
  assumes "releases h h' b k n B" and "b \<notin> set B"
  shows "blocks h' c = None \<longleftrightarrow> c \<in> set B \<or> blocks h c = None"
proof (cases "c = b")
  case True
  then show ?thesis using assms by (auto simp: releases_def)
next
  case False
  then show ?thesis using assms(1) releases_other [OF assms(1), of c] by (auto simp: releases_def)
qed

text \<open>The bytes of the block of the slot that are outside the slot read as before.\<close>

lemma releases_load:
  assumes "releases h h' b k n B" and "j + m \<le> k \<or> k + n \<le> j"
  shows "load_cells h' (Ptr b j) m = load_cells h (Ptr b j) m"
  using assms by (auto simp: releases_def load_cells.simps)

lemma releases_left:
  assumes "releases h h' b k n B" and "owned t d h p B' L" and "distinct (b # B @ L)" and "c \<in> set L"
  shows "blocks h' c = blocks h c" and "blocks h c \<noteq> None"
  using assms(3,4) releases_other [OF assms(1), of c] owned_live [OF assms(2,4)] by auto

text \<open>Claim C12. Deallocating a well-formed value of any type, where \<open>B\<close> and \<open>L\<close> are together all the
  blocks it owns, at any depth of arrays, records and nested objects: the call never faults, frees
  exactly the blocks \<open>B\<close>, each once, and changes no other block and no byte around the slot. What it
  leaves behind are exactly the blocks \<open>L\<close> of nested objects, allocated and as they were; a type
  without objects has none.\<close>

theorem deallocate_frees_exactly:
  assumes "owned t n h p B L" and "live_slot h p (extent t)" and "extent t < 2 ^ 64"
    and "distinct (blk p # B @ L)"
  shows "\<exists>h'. deallocate t h p = Inr h' \<and>
    (\<forall>c. blocks h' c = None \<longleftrightarrow> c \<in> set B \<or> blocks h c = None) \<and>
    (\<forall>c. c \<in> set B \<or> c = blk p \<or> blocks h' c = blocks h c) \<and>
    (\<forall>j m. \<not> (j + m \<le> off p \<or> off p + extent t \<le> j) \<or>
      load_cells h' (Ptr (blk p) j) m = load_cells h (Ptr (blk p) j) m) \<and>
    (\<forall>c \<in> set L. blocks h' c = blocks h c \<and> blocks h c \<noteq> None) \<and>
    (L = [] \<or> \<not> flat t)"
proof -
  have "distinct (blk p # B)" using assms(4) by auto
  with assms(1-3) obtain h' where h': "deallocate t h p = Inr h'" "releases h h' (blk p) (off p) (extent t) B"
    by (rule deallocate_runs)
  have "L = [] \<or> \<not> flat t" using flat_owned [OF assms(1)] by blast
  moreover have "\<forall>c \<in> set L. blocks h' c = blocks h c \<and> blocks h c \<noteq> None"
    using releases_left [OF h'(2) assms(1,4)] by blast
  moreover have "\<forall>c. blocks h' c = None \<longleftrightarrow> c \<in> set B \<or> blocks h c = None"
    using releases_live [OF h'(2)] assms(4) by auto
  moreover have "\<forall>c. c \<in> set B \<or> c = blk p \<or> blocks h' c = blocks h c"
    using releases_other [OF h'(2)] by blast
  ultimately show ?thesis using h'(1) releases_load [OF h'(2)] by blast
qed

text \<open>An object with one field, \<open>"hp"\<close>, that is a nested object with an entries buffer.\<close>

definition nested_heap :: heap where
  "nested_heap =
     \<lparr>blocks = [0 \<mapsto> replicate 8 (Byte 0) @ ptr_cells (Ptr 1 0),
                1 \<mapsto> counted 1 1 (word_cells 8 (field_key hp) @ word_cells 2 type_object @
                      replicate 2 (Byte 0) @ word_cells 4 (24 :: u32) @ ptr_cells (Ptr 2 0)),
                2 \<mapsto> replicate 8 (Byte 0) @ ptr_cells (Ptr 3 0) @ replicate 8 (Byte 0),
                3 \<mapsto> counted 0 4 (replicate 96 (Byte 0))],
      next_block = 4, oom = (\<lambda>_ _. False), trace = []\<rparr>"

lemma nested_heap_rep:
  "object_rep nested_heap (Ptr 0 0) 1 1 [ObjField (field_key hp) 2 None (VObject (Ptr 3 0))]"
proof (rule object_repI)
  let ?fs = "[ObjField (field_key hp) 2 None (VObject (Ptr 3 0))]"
  let ?d = "word_cells 8 (field_key hp) @ word_cells 2 type_object @ replicate 2 (Byte 0) @
    word_cells 4 (24 :: u32) @ ptr_cells (Ptr 2 0)"
  show "slot_holds nested_heap (Ptr 0 0) (Ptr 1 0)"
    by (simp add: nested_heap_def slot_holds_def piece_append_right)
  show "blocks nested_heap 1 = Some (counted (of_nat (length ?fs)) 1 ?d)"
    by (simp add: nested_heap_def)
  show "entries_in ?d ?fs"
    by (simp add: entries_in_def entry_in_def piece_append_left piece_append_right)
  show "field_at nested_heap f" if "f \<in> set ?fs" for f
    using that by (simp add: field_at_def value_cells_def nested_heap_def piece_append_left piece_append_right)
qed (simp_all add: footprint_def value_blocks_def)

text \<open>Its own blocks are 1 and 2, and the nested object's entries buffer is block 3.\<close>

lemma nested_heap_owns: "owns 2 nested_heap (ObjField (field_key hp) 2 None (VObject (Ptr 3 0))) [2, 3]"
proof -
  let ?f = "ObjField (field_key hp) 2 None (VObject (Ptr 3 0))"
  have "object_rep nested_heap (Ptr 2 0) 3 4 []"
  proof (rule object_repI)
    show "slot_holds nested_heap (Ptr 2 0) (Ptr 3 0)"
      by (simp add: nested_heap_def slot_holds_def piece_append_left piece_append_right)
    show "blocks nested_heap 3 = Some (counted (of_nat (length [])) 4 (replicate 96 (Byte 0)))"
      by (simp add: nested_heap_def)
  qed (simp_all add: entries_in_def)
  moreover have "field_at nested_heap ?f" using nested_heap_rep by (simp add: object_rep_def)
  ultimately show ?thesis
    using owns_nestedI [of nested_heap ?f 3 4 "[]" "[]" 1] by (simp add: numeral_2_eq_2 del: owns.simps)
qed

lemma nested_heap_live: "blocks nested_heap 3 \<noteq> None"
  by (simp add: nested_heap_def)

lemma nested_heap_owned: "owned Object 2 nested_heap (Ptr 0 0) [1, 2] [3]"
  unfolding owned.simps
  by (rule disjI2, rule exI [of _ 1], rule exI [of _ 1],
      rule exI [of _ "[ObjField (field_key hp) 2 None (VObject (Ptr 3 0))]"], rule exI [of _ "[[3]]"])
    (use nested_heap_rep nested_heap_owns in \<open>simp add: footprint_def value_blocks_def del: owns.simps\<close>)

lemma pair_heap_owned: "owned (Array Int32) n (pair_heap fails) (Ptr 0 0) [1] []"
proof -
  have b: "blocks (pair_heap fails) 1 = Some (counted 2 2 (replicate 8 (Byte 1) @ replicate 8 (Byte 2)))"
    "slot_holds (pair_heap fails) (Ptr 0 0) (Ptr 1 0)"
    by (simp_all add: pair_heap_def slot_holds_def piece_append_right)
  show ?thesis
    unfolding owned.simps
    by (rule disjI2, rule exI [of _ 1], rule exI [of _ 2], rule exI [of _ 2],
        rule exI [of _ "replicate 8 (Byte 1) @ replicate 8 (Byte 2)"],
        rule exI [of _ "[[], []]"], rule exI [of _ "[[], []]"]) (simp add: b [simplified] nth_Cons')
qed

theorem deallocate_frees_exactly_witness:
  "(\<exists>h'. deallocate (Array Int32) (pair_heap (\<lambda>_ _. False)) (Ptr 0 0) = Inr h' \<and>
      blocks h' 1 = None \<and> blocks h' 0 \<noteq> None) \<and>
   (\<exists>h'. deallocate Object nested_heap (Ptr 0 0) = Inr h' \<and>
      blocks h' 1 = None \<and> blocks h' 2 = None \<and> blocks h' 3 \<noteq> None)"
proof
  have "live_slot (pair_heap (\<lambda>_ _. False)) (Ptr 0 0) (extent (Array Int32))"
    by (simp add: live_slot_def pair_heap_def)
  from deallocate_frees_exactly [OF pair_heap_owned this] obtain h'
    where h': "deallocate (Array Int32) (pair_heap (\<lambda>_ _. False)) (Ptr 0 0) = Inr h'"
      "\<forall>c. blocks h' c = None \<longleftrightarrow> c \<in> set [1] \<or> blocks (pair_heap (\<lambda>_ _. False)) c = None"
    by auto
  then show "\<exists>h'. deallocate (Array Int32) (pair_heap (\<lambda>_ _. False)) (Ptr 0 0) = Inr h' \<and>
      blocks h' 1 = None \<and> blocks h' 0 \<noteq> None"
    by (auto simp: pair_heap_def)
next
  have "live_slot nested_heap (Ptr 0 0) (extent Object)" by (simp add: live_slot_def nested_heap_def)
  from deallocate_frees_exactly [OF nested_heap_owned this] obtain h'
    where "deallocate Object nested_heap (Ptr 0 0) = Inr h'"
      "\<forall>c. blocks h' c = None \<longleftrightarrow> c \<in> {1, 2} \<or> blocks nested_heap c = None"
    by auto
  moreover from this(2) have "blocks h' 1 = None" "blocks h' 2 = None" "blocks h' 3 \<noteq> None"
    using nested_heap_live by simp_all
  ultimately show "\<exists>h'. deallocate Object nested_heap (Ptr 0 0) = Inr h' \<and>
      blocks h' 1 = None \<and> blocks h' 2 = None \<and> blocks h' 3 \<noteq> None" by blast
qed

section \<open>Nested objects\<close>

lemma object_fs_reaches:
  assumes "object_fs h slot cap fs B" and "24 * length fs < 4294967296"
  shows "\<exists>C. reaches Object h slot C \<and> distinct (blk slot # C) \<and> set (blk slot # C) = B"
proof -
  consider "slot_holds h slot Null" "fs = []" "B = {blk slot}"
    | b where "object_rep h slot b cap fs" "B = object_blocks slot b fs"
    using assms(1) by (auto simp: object_fs_def)
  then show ?thesis
  proof cases
    case 1
    then show ?thesis by auto
  next
    case (2 b)
    then have "reaches Object h slot (b # concat (map footprint fs))"
      unfolding reaches.simps using assms(2) by blast
    moreover have "distinct (blk slot # b # concat (map footprint fs))"
      using 2(1) by (simp add: object_rep_def)
    moreover have "set (blk slot # b # concat (map footprint fs)) = B"
      unfolding 2(2) object_blocks_def ..
    ultimately show ?thesis by blast
  qed
qed

text \<open>Claim C35. \<open>object::deallocate\<close> does not descend into nested objects: every block of the outer
  object is freed, the one that reaches the only pointer to the nested object's buffer included, and
  that buffer stays allocated, unreachable.\<close>

theorem object_deallocate_leaks_nested:
  assumes "object_at h slot cap M B" and "M k = Some (VObject (Ptr c 0))" and "c \<notin> B"
    and "blocks h c = Some cs" and "24 * card (dom M) < 4294967296"
  shows "\<exists>h'. object_deallocate h slot = Inr h' \<and> (\<forall>d \<in> B - {blk slot}. blocks h' d = None) \<and>
    blocks h' c = Some cs"
proof -
  obtain fs where fs: "object_fs h slot cap fs B" "M = fields_map fs"
    using assms(1) by (auto simp: object_at_def)
  have "distinct (map fhash fs)" using fs(1) by (auto simp: object_fs_def object_rep_def)
  then have "card (dom M) = length fs"
    unfolding fs(2) dom_fields_map using distinct_card by fastforce
  then obtain C where C: "reaches Object h slot C" "distinct (blk slot # C)" "set (blk slot # C) = B"
    using object_fs_reaches [OF fs(1)] assms(5) by auto
  obtain h' where h': "object_deallocate h slot = Inr h'" "releases h h' (blk slot) (off slot) 16 C"
    using object_deallocate_runs [OF C(1,2)] by blast
  have "c \<notin> set C" "c \<noteq> blk slot" using assms(3) C(3) by auto
  then have "blocks h' c = Some cs" using releases_other [OF h'(2)] assms(4) by simp
  moreover have "\<forall>d \<in> B - {blk slot}. blocks h' d = None"
    using h'(2) C(3) by (auto simp: releases_def)
  ultimately show ?thesis using h'(1) by blast
qed

lemma nested_heap_object:
  "object_at nested_heap (Ptr 0 0) 1 [field_key hp \<mapsto> VObject (Ptr 3 0)] {0, 1, 2}"
  using object_atI [OF nested_heap_rep]
  by (simp add: object_blocks_def footprint_def value_blocks_def fields_map_def)

theorem object_deallocate_leaks_nested_witness:
  "\<exists>h'. object_deallocate nested_heap (Ptr 0 0) = Inr h' \<and> blocks h' 1 = None \<and> blocks h' 2 = None \<and>
     blocks h' 3 \<noteq> None"
proof -
  have "blocks nested_heap 3 = Some (counted 0 4 (replicate 96 (Byte 0)))" by (simp add: nested_heap_def)
  from object_deallocate_leaks_nested [OF nested_heap_object _ _ this, of "field_key hp"] show ?thesis by auto
qed

section \<open>Segments\<close>

text \<open>\<open>segment::create<T>\<close> with a new name returns a fresh region in which a \<open>T\<close> that owns
  nothing can be used at once, for every type \<open>T\<close>, and \<open>segment::open<T>\<close> returns the same view.\<close>

lemma segment_create_open:
  assumes "registry_wf s" and "reg s (name_string nm) = None" and "extent t < 2 ^ 64"
    and "\<not> oom (mem s) (next_block (mem s)) (extent t)"
  shows "\<exists>b s'. segment_create t s (Some nm) = Inr (Some (Ptr b 0), s') \<and>
    blocks (mem s) b = None \<and> owned t 0 (mem s') (Ptr b 0) [] [] \<and> live_slot (mem s') (Ptr b 0) (extent t) \<and>
    segment_open s' (Some nm) = Inr (Some (Ptr b 0), s')"
proof -
  let ?n = "slot_size t" and ?b = "next_block (mem s)"
  have un: "unat ?n = extent t" using assms(3) by (intro unat_slot_size) simp
  then have n0: "?n \<noteq> 0" using extent_pos [of t] by (metis le_zero_eq numeral_eq_iff unat_0 zero_neq_numeral)
  obtain r where r: "msm_alloc_with_schema s (Some nm) ?n 0 (Some (deallocate t)) = r" by blast
  then show ?thesis
  proof (cases rule: alloc_with_schema_cases)
    case (new nm')
    let ?h = "put Plain ?b 0 (replicate (unat ?n) (Byte 0)) (new_block (unat ?n) (mem s))"
    let ?s' = "s\<lparr>mem := ?h, reg := (reg s)(name_string nm \<mapsto> \<lparr>region = Ptr ?b 0, region_size = ?n,
      region_destructor = Some (deallocate t), region_schema = 0\<rparr>)\<rparr>"
    have "segment_create t s (Some nm) = Inr (Some (Ptr ?b 0), ?s')"
      using new r by (simp add: segment_create_def alloc_is_schema_0)
    moreover have "segment_open ?s' (Some nm) = Inr (Some (Ptr ?b 0), ?s')"
      by (simp add: segment_open_def msm_get_def Let_def)
    moreover have blk: "blocks ?h ?b = Some (replicate (extent t) (Byte 0))"
      by (simp add: blocks_put un)
    then have "owned t 0 ?h (Ptr ?b 0) [] []" by (rule owned_zero) auto
    moreover have "live_slot ?h (Ptr ?b 0) (extent t)" using blk by (simp add: live_slot_def)
    moreover have "blocks (mem s) ?b = None" using assms(1) by (simp add: registry_wf_def heap_wf_def)
    ultimately show ?thesis by (intro exI [of _ ?b] exI [of _ ?s']) simp
  qed (use n0 assms(2,4) un in simp_all)
qed

text \<open>Claim C36. \<open>segment::close\<close> of a segment whose root is a well-formed value of its type, where \<open>B\<close>
  and \<open>L\<close> are together all the blocks that value owns: the region and exactly the blocks \<open>B\<close> are
  freed, and the name is free for use again. Everything else stays allocated and as it was: the
  buffers \<open>L\<close> of nested objects, of which a type without objects has none, and every buffer that
  was replaced earlier and that no slot points to any more, which the source says is leaked ``until
  segment teardown''.\<close>

theorem segment_close_correct:
  assumes "registry_wf s" and "reg s (name_string nm) = Some it" and "region it = Ptr b 0"
    and "region_destructor it = Some (deallocate t)" and "unat (region_size it) = extent t"
    and "owned t n (mem s) (Ptr b 0) B L" and "distinct (b # B @ L)"
  shows "\<exists>s'. segment_close s (Some nm) = Inr s' \<and> segment_get_base s' (Some nm) = Null \<and>
    reg s' (name_string nm) = None \<and>
    (\<forall>c. blocks (mem s') c = None \<longleftrightarrow> c \<in> set (b # B) \<or> blocks (mem s) c = None) \<and>
    (\<forall>c. c \<in> set (b # B) \<or> blocks (mem s') c = blocks (mem s) c) \<and>
    (\<forall>c \<in> set L. blocks (mem s') c = blocks (mem s) c \<and> blocks (mem s) c \<noteq> None) \<and>
    (L = [] \<or> \<not> flat t)"
proof -
  have ext: "extent t < 2 ^ 64" using assms(5) unsigned_less [of "region_size it", where ?'a = nat] by simp
  have "live_slot (mem s) (Ptr b 0) (extent t)"
    using registry_wf_root [OF assms(1,2)] assms(3,5) by (auto simp: root_at_def live_slot_def)
  then obtain h1 where h1: "deallocate t (mem s) (Ptr b 0) = Inr h1"
      "releases (mem s) h1 b 0 (extent t) B"
    using deallocate_runs [OF assms(6) _ ext] assms(7) by auto
  have live: "blocks h1 b \<noteq> None" using h1(2) by (auto simp: releases_def)
  let ?s' = "s\<lparr>mem := drop_block b h1, reg := (reg s)(name_string nm := None)\<rparr>"
  have "segment_close s (Some nm) = Inr ?s'"
    using assms(2,3,4) h1(1) live by (simp add: segment_close_def msm_free_def)
  moreover have "segment_get_base ?s' (Some nm) = Null"
    by (simp add: segment_get_base_def msm_get_def)
  moreover have "\<forall>c. blocks (mem ?s') c = None \<longleftrightarrow> c \<in> set (b # B) \<or> blocks (mem s) c = None"
    using releases_live [OF h1(2)] assms(7) by auto
  moreover have other: "\<forall>c. c \<in> set (b # B) \<or> blocks (mem ?s') c = blocks (mem s) c"
    using releases_other [OF h1(2)] by auto
  moreover have "\<forall>c \<in> set L. blocks (mem ?s') c = blocks (mem s) c \<and> blocks (mem s) c \<noteq> None"
    using releases_left [OF h1(2) assms(6,7)] assms(7) by auto
  moreover have "L = [] \<or> \<not> flat t" using flat_owned [OF assms(6)] by blast
  ultimately show ?thesis by (intro exI [of _ ?s']) simp
qed

text \<open>A segment with the object of \<open>nested_heap\<close> as its root.\<close>

definition object_region :: reg_entry where
  "object_region =
     \<lparr>region = Ptr 0 0, region_size = 16, region_destructor = Some (deallocate Object), region_schema = 0\<rparr>"

definition object_state :: msm_state where
  "object_state = \<lparr>mem = nested_heap, reg = [[103] \<mapsto> object_region]\<rparr>"

lemma object_state_wf: "registry_wf object_state"
proof (rule registry_wfI)
  show "heap_wf (mem object_state)" by (simp add: object_state_def nested_heap_def heap_wf_def)
  show "root_at (mem object_state) it" if "it \<in> ran (reg object_state)" for it
    using that by (simp add: object_state_def object_region_def root_at_def nested_heap_def)
qed (auto simp: object_state_def split: if_splits)

lemma string_state_owned: "owned String 0 (mem string_state) (Ptr 0 0) [1] []"
  using greeting_heap_rep by (auto simp: string_state_def string_rep_def)

theorem segment_close_correct_witness:
  "(\<exists>s'. segment_close string_state (Some [103]) = Inr s' \<and> blocks (mem s') 0 = None \<and>
      blocks (mem s') 1 = None) \<and>
   (\<exists>s'. segment_close object_state (Some [103]) = Inr s' \<and> blocks (mem s') 0 = None \<and>
      blocks (mem s') 1 = None \<and> blocks (mem s') 2 = None \<and> blocks (mem s') 3 \<noteq> None)"
proof
  have "reg string_state (name_string [103]) = Some string_region"
    by (simp add: string_state_def name_string_def)
  from segment_close_correct [OF string_state_wf this _ _ _ string_state_owned]
  show "\<exists>s'. segment_close string_state (Some [103]) = Inr s' \<and> blocks (mem s') 0 = None \<and>
      blocks (mem s') 1 = None" by (auto simp: string_region_def)
next
  have "reg object_state (name_string [103]) = Some object_region"
    by (simp add: object_state_def name_string_def)
  moreover have "owned Object 2 (mem object_state) (Ptr 0 0) [1, 2] [3]"
    using nested_heap_owned by (simp add: object_state_def)
  ultimately obtain s' where "segment_close object_state (Some [103]) = Inr s'"
      "\<forall>c. blocks (mem s') c = None \<longleftrightarrow> c \<in> set [0, 1, 2] \<or> blocks (mem object_state) c = None"
    using segment_close_correct [OF object_state_wf, of "[103]" object_region 0 Object 2 "[1, 2]" "[3]"]
    by (auto simp: object_region_def simp del: owned.simps)
  moreover from this(2) have "blocks (mem s') 0 = None" "blocks (mem s') 1 = None" "blocks (mem s') 2 = None"
      "blocks (mem s') 3 \<noteq> None"
    using nested_heap_live by (simp_all add: object_state_def)
  ultimately show "\<exists>s'. segment_close object_state (Some [103]) = Inr s' \<and> blocks (mem s') 0 = None \<and>
      blocks (mem s') 1 = None \<and> blocks (mem s') 2 = None \<and> blocks (mem s') 3 \<noteq> None" by blast
qed

end
