(* ===== verification/Msm_Entry_Dealloc.thy ===== *)
theory Msm_Entry_Dealloc
  imports Msm_Dealloc_Props
begin

text \<open>
  \<open>object_deallocate_entry_value\<close> of \<^verbatim>\<open>msm_allocator.cpp\<close>, the recursive teardown of one entry
  of an object. No other function of the library calls it: \<^verbatim>\<open>object::deallocate\<close> has a loop of
  its own, which does not descend into nested objects (\<open>object_deallocate_leaks_nested\<close>). Here it
  is shown to be the teardown that frees a field completely, at any depth of nesting.
\<close>

section \<open>The function\<close>

text \<open>The loop over the entries of a nested object, with \<open>r\<close> entries left, over the recursive
  call; and the function, with the number of stack frames that are left.\<close>

fun deallocate_nested :: "(heap \<Rightarrow> ptr \<Rightarrow> heap res) \<Rightarrow> ptr \<Rightarrow> u32 \<Rightarrow> nat \<Rightarrow> heap \<Rightarrow> heap res" where
  "deallocate_nested dealloc nested_entries i 0 h = Inr h"
| "deallocate_nested dealloc nested_entries i (Suc r) h =
     bindE (dealloc h (padd nested_entries (unat (entry_offset i)))) (\<lambda>h1.
       deallocate_nested dealloc nested_entries (i + 1) r h1)"

primrec object_deallocate_entry_value :: "nat \<Rightarrow> heap \<Rightarrow> ptr \<Rightarrow> heap res" where
  "object_deallocate_entry_value 0 h e = Inl (Fault StackOverflow)"
| "object_deallocate_entry_value (Suc frames) h e =
     bindE (entry_value_ptr h e) (\<lambda>val.
       if val = Null then Inr h
       else bindE (entry_type_id h e) (\<lambda>ty.
         bindE (if ty = type_string
                then bindE (load_ptr h (padd val 8)) (\<lambda>str_data.
                  if str_data \<noteq> Null then free h str_data else Inr h)
                else if ty = type_object
                then bindE (load_ptr h (padd val 8)) (\<lambda>nested_buf.
                  if nested_buf \<noteq> Null
                  then bindE (obj_buf_count h nested_buf Relaxed) (\<lambda>nested_count.
                       bindE (deallocate_nested (object_deallocate_entry_value frames)
                                (obj_buf_entries nested_buf) 0 (unat nested_count) h) (\<lambda>h1.
                       free h1 nested_buf))
                  else Inr h)
                else Inr h) (\<lambda>h1. free h1 val)))"

section \<open>What the function frees\<close>

lemma releases_set: "releases h h' b k n B \<Longrightarrow> set C = set B \<Longrightarrow> releases h h' b k n C"
  by (simp add: releases_def)

text \<open>\<open>frees_entries n\<close>: with \<open>n\<close> frames the function frees what a field of depth \<open>n\<close> owns,
  given an entry that says where its value is and of which type.\<close>

definition frees_entries :: "nat \<Rightarrow> bool" where
  "frees_entries n \<longleftrightarrow> (\<forall>h f B e b cs. owns n h f B \<longrightarrow>
     entry_value_ptr h e = Inr (Ptr (fblock f) 0) \<longrightarrow> entry_type_id h e = Inr (value_type (fval f)) \<longrightarrow>
     blocks h b = Some cs \<longrightarrow> distinct (b # B) \<longrightarrow>
     (\<exists>h'. object_deallocate_entry_value n h e = Inr h' \<and> releases h h' b 0 0 B))"

lemma frees_entriesD:
  assumes "frees_entries n" and "owns n h f B" and "entry_value_ptr h e = Inr (Ptr (fblock f) 0)"
    and "entry_type_id h e = Inr (value_type (fval f))" and "blocks h b = Some cs" and "distinct (b # B)"
  obtains h' where "object_deallocate_entry_value n h e = Inr h'" and "releases h h' b 0 0 B"
  using assms unfolding frees_entries_def by blast

lemma deallocate_nested_run:
  assumes n: "frees_entries n" and ent: "entries_in data fs"
    and len: "24 * length fs \<le> length data" "length fs < 4294967296" "length Bs = length fs"
    and "blocks h b = Some (counted k cap data)" and "unat i + r = length fs"
    and "\<forall>j. unat i \<le> j \<longrightarrow> j < length fs \<longrightarrow> owns n h (fs ! j) (Bs ! j)"
    and "distinct (b # concat (drop (unat i) Bs))"
  shows "\<exists>h'. deallocate_nested (object_deallocate_entry_value n) (Ptr b 8) i r h = Inr h' \<and>
    releases h h' b 0 0 (concat (drop (unat i) Bs))"
  using assms(6-)
proof (induction r arbitrary: i h)
  case 0
  then show ?case using releases_refl len(3) by simp
next
  case (Suc r)
  let ?i = "unat i"
  have i: "?i < length fs" using Suc.prems(2) by simp
  have u: "unat (i + 1) = ?i + 1" using unat_plus_1_u32 [of i] i len(2) by simp
  have d: "drop ?i Bs = Bs ! ?i # drop (?i + 1) Bs" using i len(3) by (simp add: Cons_nth_drop_Suc)
  have l: "24 * ?i + 24 \<le> length data" using i len(1) by linarith
  have e: "entry_in data ?i (fs ! ?i)" using ent i by (simp add: entries_in_def)
  have own: "owns n h (fs ! ?i) (Bs ! ?i)" using Suc.prems(3) i by simp
  have di: "distinct (b # Bs ! ?i)" using Suc.prems(4) by (simp add: d)
  obtain h1 where h1: "object_deallocate_entry_value n h (Ptr b (8 + 24 * ?i)) = Inr h1"
      and r1: "releases h h1 b 0 0 (Bs ! ?i)"
    using frees_entriesD [OF n own entry_loads(4,2) [OF Suc.prems(1) l e] Suc.prems(1) di] by metis
  have b1: "blocks h1 b = Some (counted k cap data)" by (rule releases_nothing [OF r1 Suc.prems(1)])
  have rest: "owns n h1 (fs ! j) (Bs ! j)" if j: "unat (i + 1) \<le> j" "j < length fs" for j
  proof (rule owns_cong)
    show "owns n h (fs ! j) (Bs ! j)" using Suc.prems(3) j u by simp
    have "j - (?i + 1) < length (drop (?i + 1) Bs)" using j u len(3) by simp
    from set_nth_concat [OF this] have "set (Bs ! j) \<subseteq> set (concat (drop (?i + 1) Bs))"
      using j u len(3) by (auto simp: nth_drop)
    then show "blocks h1 c = blocks h c" if "c \<in> set (Bs ! j)" for c
      using Suc.prems(4) that by (intro releases_other [OF r1]) (auto simp: d)
  qed
  obtain h2 where h2: "deallocate_nested (object_deallocate_entry_value n) (Ptr b 8) (i + 1) r h1 = Inr h2"
      "releases h1 h2 b 0 0 (concat (drop (unat (i + 1)) Bs))"
    using Suc.IH [OF b1, of "i + 1"] Suc.prems(2,4) rest by (auto simp: u d)
  have "releases h h2 b 0 (0 + 0) (Bs ! ?i @ concat (drop (?i + 1) Bs))"
    using r1 h2(2) Suc.prems(4) by (intro releases_seq) (auto simp: d u)
  then show ?case using h1 h2(1) by (auto simp: d)
qed

text \<open>The entries buffer of a nested object, and then its slot.\<close>

lemma deallocate_object_run:
  assumes n: "frees_entries n" and rep: "object_rep h (Ptr vb 0) b cap fs" and len: "length Bs = length fs"
    and own: "\<And>i. i < length fs \<Longrightarrow> owns n h (fs ! i) (Bs ! i)"
    and o: "blocks h c = Some cs" and dist: "distinct (c # vb # b # concat Bs)"
  shows "\<exists>h'. bindE (load_ptr h (Ptr vb 8)) (\<lambda>nested_buf.
      if nested_buf \<noteq> Null
      then bindE (obj_buf_count h nested_buf Relaxed) (\<lambda>nested_count.
        bindE (deallocate_nested (object_deallocate_entry_value n)
          (obj_buf_entries nested_buf) 0 (unat nested_count) h) (\<lambda>h1. free h1 nested_buf))
      else Inr h) = Inr h' \<and> releases h h' c 0 0 (b # concat Bs)"
proof -
  obtain data where d: "slot_holds h (Ptr vb 0) (Ptr b 0)"
      "blocks h b = Some (counted (of_nat (length fs)) cap data)"
      "length data = 24 * unat cap" "entries_in data fs" "length fs \<le> unat cap"
      "unat (of_nat (length fs) :: u32) = length fs"
    using rep by (rule object_repE)
  have "\<exists>h1. deallocate_nested (object_deallocate_entry_value n) (Ptr b 8) 0 (length fs) h = Inr h1 \<and>
      releases h h1 b 0 0 (concat (drop (unat (0 :: u32)) Bs))"
    using d(3,5) unat_u32_less [of cap] own dist
    by (intro deallocate_nested_run [OF n d(4) _ _ len d(2)]) auto
  then obtain h1 where h1: "deallocate_nested (object_deallocate_entry_value n) (Ptr b 8) 0 (length fs) h = Inr h1"
      "releases h h1 b 0 0 (concat Bs)" by auto
  have c1: "blocks h1 c = Some cs" using releases_other [OF h1(2)] dist o by simp
  have b1: "blocks h1 b \<noteq> None" using releases_nothing [OF h1(2) d(2)] by simp
  have "releases h (drop_block b h1) c 0 0 (b # concat Bs)"
    using dist by (intro releases_buffer [OF h1(2) releases_drop [OF c1]]) simp_all
  moreover have "load_ptr h (Ptr vb 8) = Inr (Ptr b 0)" using load_slot_plain [OF d(1)] by simp
  ultimately show ?thesis
    using h1(1) b1 d(6) atomic_load_u32_size [OF d(2)]
    by (intro exI [of _ "drop_block b h1"]) (simp add: obj_buf_defs)
qed

lemma all_frees_entries: "frees_entries n"
proof (induction n)
  case 0
  then show ?case by (simp add: frees_entries_def)
next
  case (Suc n)
  show ?case
    unfolding frees_entries_def
  proof (intro allI impI)
    fix h f B e c cs
    assume own: "owns (Suc n) h f B" and e: "entry_value_ptr h e = Inr (Ptr (fblock f) 0)"
      "entry_type_id h e = Inr (value_type (fval f))" and c: "blocks h c = Some cs" "distinct (c # B)"
    from own show "\<exists>h'. object_deallocate_entry_value (Suc n) h e = Inr h' \<and> releases h h' c 0 0 B"
    proof (cases rule: owns_cases)
      case (plain m)
      then obtain h1 where h1: "bindE (if value_type (fval f) = 6
          then bindE (load_ptr h (padd (Ptr (fblock f) 0) 8)) (\<lambda>q. if q \<noteq> Null then free h q else Inr h)
          else Inr h) (\<lambda>h1. free h1 (Ptr (fblock f) 0)) = Inr h1" "releases h h1 c 0 0 (footprint f)"
        using entry_release [OF plain(2) c(1)] c(2) by blast
      have null: "load_ptr h (Ptr (fblock f) 8) = Inr Null" if "value_type (fval f) = type_object"
        using plain(2,4) that
        by (cases "fval f") (auto simp: type_ids field_at_def load_value_ptr)
      have "object_deallocate_entry_value (Suc n) h e = Inr h1"
      proof (cases "value_type (fval f) = type_object")
        case True
        then show ?thesis using h1(1) e null by (simp add: type_ids del: free.simps)
      next
        case False
        then show ?thesis
          using h1(1) e by (cases "value_type (fval f) = 6") (simp_all add: type_ids del: free.simps)
      qed
      then show ?thesis using h1(2) plain(3) by simp
    next
      case (nested m b cap fs Bs)
      have own: "owns n h (fs ! i) (Bs ! i)" if "i < length fs" for i using nested(1,6) that by simp
      have dist: "distinct (c # fblock f # b # concat Bs)" using c(2) nested(7) by simp
      obtain h1 where h1: "bindE (load_ptr h (Ptr (fblock f) 8)) (\<lambda>nested_buf.
          if nested_buf \<noteq> Null
          then bindE (obj_buf_count h nested_buf Relaxed) (\<lambda>nested_count.
            bindE (deallocate_nested (object_deallocate_entry_value n)
              (obj_buf_entries nested_buf) 0 (unat nested_count) h) (\<lambda>h1. free h1 nested_buf))
          else Inr h) = Inr h1" "releases h h1 c 0 0 (b # concat Bs)"
        using deallocate_object_run [OF Suc.IH nested(4,5) own c(1) dist] by blast
      obtain vs where v: "blocks h (fblock f) = Some vs"
        using nested(4) by (auto simp: object_rep_def elim!: slot_holdsE)
      have v1: "blocks h1 (fblock f) = Some vs" using releases_other [OF h1(2)] dist v by simp
      have c1: "blocks h1 c = Some cs" using releases_nothing [OF h1(2) c(1)] .
      have "releases h (drop_block (fblock f) h1) c 0 (0 + 0) ((b # concat Bs) @ [fblock f])"
        using dist by (intro releases_seq [OF h1(2) releases_drop [OF c1]]) auto
      then have "releases h (drop_block (fblock f) h1) c 0 (0 + 0) B"
        by (rule releases_set) (auto simp: nested(7))
      then have "releases h (drop_block (fblock f) h1) c 0 0 B" by simp
      moreover have "object_deallocate_entry_value (Suc n) h e = Inr (drop_block (fblock f) h1)"
        using e h1(1) v1 nested(3) by (simp add: type_ids)
      ultimately show ?thesis by blast
    qed
  qed
qed

section \<open>The property\<close>

text \<open>Claim C34. \<open>object_deallocate_entry_value\<close> on the entry of a field that nests objects to a depth
  of \<open>n\<close> returns when the stack has \<open>n\<close> frames or more, and frees exactly what the field owns,
  every buffer of the nested objects included; every other block stays as it is.\<close>

theorem object_deallocate_entry_value_frees_nested:
  assumes "object_rep h slot b cap fs" and "i < length fs" and "owns n h (fs ! i) B"
    and "distinct (b # B)" and "n \<le> frames"
  shows "\<exists>h'. object_deallocate_entry_value frames h (Ptr b (8 + 24 * i)) = Inr h' \<and>
    blocks h' = blocks h |` (- set B)"
proof -
  obtain data where d: "blocks h b = Some (counted (of_nat (length fs)) cap data)"
      "length data = 24 * unat cap" "entries_in data fs" "length fs \<le> unat cap"
    using assms(1) by (rule object_repE)
  have l: "24 * i + 24 \<le> length data" using assms(2) d(2,4) by linarith
  have e: "entry_in data i (fs ! i)" using d(3) assms(2) by (simp add: entries_in_def)
  obtain h' where h': "object_deallocate_entry_value frames h (Ptr b (8 + 24 * i)) = Inr h'"
      "releases h h' b 0 0 B"
    using frees_entriesD [OF all_frees_entries owns_mono [OF assms(5,3)] entry_loads(4,2) [OF d(1) l e]
        d(1) assms(4)] by metis
  have "blocks h' c = (blocks h |` (- set B)) c" for c
  proof (cases "c = b")
    case True
    then show ?thesis using releases_nothing [OF h'(2) d(1)] d(1) assms(4) by simp
  next
    case False
    then show ?thesis using h'(2) by (cases "c \<in> set B") (auto simp: releases_def)
  qed
  then show ?thesis using h'(1) by blast
qed

text \<open>The entry of \<open>nested_heap\<close>: its value and the buffer that \<open>object::deallocate\<close> leaks.\<close>

theorem object_deallocate_entry_value_frees_nested_witness:
  "\<exists>h'. object_deallocate_entry_value 2 nested_heap (Ptr 1 8) = Inr h' \<and>
     blocks h' = blocks nested_heap |` (- {2, 3})"
  using object_deallocate_entry_value_frees_nested [OF nested_heap_rep, of 0 2 "[2, 3]" 2] nested_heap_owns
  by (simp del: owns.simps)

end
