(* ===== verification/Msm_Types_Props.thy ===== *)
theory Msm_Types_Props
  imports Msm_Types Msm_Array_Props
begin

text \<open>
  The properties of the C++ layer over arrays: the array functions of \<^verbatim>\<open>capi.cpp\<close>, and the
  iterators of \<^verbatim>\<open>msm::array\<close>.
\<close>

section \<open>Arrays of int32\<close>

lemma item_size_Int32 [simp]: "item_size Int32 = 8"
  by (simp add: item_size_def)

text \<open>The value of an \<open>int32\<close> element: bytes 4 to 7 of its slot.\<close>

definition int32_cells :: "u32 \<Rightarrow> cell list" where
  "int32_cells v = replicate 4 (Byte 0) @ word_cells 4 v"

lemma ucast_u64_u32 [simp]: "(ucast (ucast (i :: u32) :: u64) :: u32) = i"
  by (rule bit_word_eqI) (simp add: bit_simps)

lemma array_rep_elements: "array_rep h slot isz b n cap data \<Longrightarrow>
    array_at h slot isz cap (elements (unat isz) (unat n) data)"
  unfolding array_at_def by blast

lemma get_int32_element:
  assumes "array_at h slot 8 cap es" and "unat i < length es"
  shows "msm_array_get_int32 h slot i = decode_word (piece (es ! unat i) 4 4)"
proof -
  obtain b n data where rep: "array_rep h slot 8 b n cap data" and es: "es = elements 8 (unat n) data"
    using assms by (auto simp: array_at_def)
  have in_: "unat i < unat n" using assms(2) es by simp
  then have "\<not> n \<le> i" by (simp add: word_le_nat_alt)
  then have g: "msm_array_get h slot i 8 = Inr (Ptr b (8 + unat i * 8))"
    using get_rep [OF rep, of i] by simp
  obtain "blocks h b = Some (counted n cap data)" "slot \<noteq> Null" "unat n * 8 \<le> length data"
    using rep by (rule array_repE) auto
  then have l: "load_cells h (Ptr b (8 + (unat i * 8 + 4))) 4 = Inr (piece data (unat i * 8 + 4) 4)"
    using in_ load_cells_Some [of h b "counted n cap data" "8 + (unat i * 8 + 4)" 4]
    unfolding piece_counted_data by simp
  have "piece (es ! unat i) 4 4 = piece data (unat i * 8 + 4) 4"
    using in_ es \<open>unat n * 8 \<le> length data\<close> by (simp add: nth_elements piece_piece)
  then show ?thesis
    using l g \<open>slot \<noteq> Null\<close>
    by (simp add: msm_array_get_int32_def array_index_def int32_read_def load_u32_def add.commute)
qed

text \<open>Pushing an \<open>int32\<close> through the C interface appends one element, whose value the
  getter then returns; the getter returns for every other index what it returned before.\<close>

lemma array_push_get_int32:
  assumes "array_at h slot 8 cap es" and "heap_wf h" and "can_push h 8 cap (length es)"
  shows "\<exists>h' cap'. msm_array_push_int32 h slot v = Inr h' \<and>
    array_at h' slot 8 cap' (es @ [int32_cells v]) \<and>
    msm_array_get_int32 h' slot (of_nat (length es)) = Inr v \<and>
    (\<forall>i. length es \<le> unat i \<or> msm_array_get_int32 h' slot i = msm_array_get_int32 h slot i)"
proof -
  have isz: "(8 :: u32) \<noteq> 0" by simp
  from assms(1,2) isz assms(3) obtain b n data h1 cap'
    where p: "msm_array_push_back h slot 8 = Inr (Ptr b (8 + unat n * unat (8 :: u32)), h1)"
      and rep: "array_rep h1 slot 8 b (n + 1) cap' data" and n: "unat n = length es"
      "unat (n + 1) = Suc (unat n)" "unat n < unat cap'"
      and el: "elements (unat (8 :: u32)) (unat n) data = es"
      and z: "piece data (unat n * unat (8 :: u32)) (unat (8 :: u32)) = replicate (unat (8 :: u32)) (Byte 0)"
    by (rule push_back_rep)
  obtain blk: "blocks h1 b = Some (counted (n + 1) cap' data)" and len: "length data = unat cap' * 8"
      and nn: "slot \<noteq> Null"
    using rep by (rule array_repE) auto
  let ?k = "unat n * 8 + 4"
  let ?h' = "put Plain b (8 + ?k) (word_cells 4 v) h1" and ?d = "patch data ?k (word_cells 4 v)"
  have kl: "?k + 4 \<le> length data" using n(3) len by linarith
  have "int32_assign h1 (Ptr b (8 + unat n * 8)) v = Inr ?h'"
    using blk kl by (simp add: int32_assign_def store_u32_def add.assoc)
  then have run: "msm_array_push_int32 h slot v = Inr ?h'"
    using p nn by (simp add: msm_array_push_int32_def array_push_back_def)
  have rep': "array_rep ?h' slot 8 b (n + 1) cap' ?d"
    using rep kl by (intro array_rep_put_data) simp_all
  have "elements 8 (unat n) ?d = es"
    using el kl by (subst elements_cong [of _ _ _ data]) (simp_all add: take_patch_before)
  moreover have "piece ?d (unat n * 8) 8 = int32_cells v"
  proof -
    have "piece ?d (unat n * 8) 8 = patch (piece data (unat n * 8) 8) 4 (word_cells 4 v)"
      using kl by (intro nth_equalityI) (auto simp: nth_piece nth_patch)
    also have "\<dots> = int32_cells v"
      using z by (simp add: int32_cells_def patch_def)
    finally show ?thesis .
  qed
  ultimately have "elements 8 (unat (n + 1)) ?d = es @ [int32_cells v]"
    unfolding n(2) elements_Suc by simp
  then have at: "array_at ?h' slot 8 cap' (es @ [int32_cells v])"
    using array_rep_elements [OF rep'] by simp
  have un: "unat (of_nat (length es) :: u32) = length es"
    unfolding n(1) [symmetric] by simp
  have "msm_array_get_int32 ?h' slot (of_nat (length es)) = Inr v"
    using get_int32_element [OF at, of "of_nat (length es)"]
    by (simp add: un int32_cells_def piece_append_right)
  moreover have "length es \<le> unat i \<or> msm_array_get_int32 ?h' slot i = msm_array_get_int32 h slot i" for i
  proof (cases "unat i < length es")
    case True
    then have "(es @ [int32_cells v]) ! unat i = es ! unat i" by (simp add: nth_append)
    then show ?thesis
      using get_int32_element [OF at, of i] get_int32_element [OF assms(1) True] True by simp
  qed simp
  ultimately show ?thesis using run at by blast
qed

text \<open>Reading an \<open>int32\<close> through the C interface at an index that is out of range
  dereferences a null pointer, although the function checks for a null array; so does pushing one
  into an empty array when \<open>malloc\<close> fails.\<close>

lemma array_int32_null_dereferences:
  assumes "array_at h slot 8 cap es"
  shows "(length es \<le> unat i \<longrightarrow> msm_array_get_int32 h slot i = Inl (Fault NullDeref)) \<and>
    (slot_holds h slot Null \<and> oom h (next_block h) 72 \<longrightarrow>
      msm_array_push_int32 h slot v = Inl (Fault NullDeref))"
proof (intro conjI impI)
  have nn: "slot \<noteq> Null" using assms by (auto simp: array_at_def array_rep_def)
  show "msm_array_get_int32 h slot i = Inl (Fault NullDeref)" if i: "length es \<le> unat i"
  proof -
    have "msm_array_get h slot i 8 = Inr Null"
      using assms i get_rep [of h slot 8 _ _ cap _ i]
      by (auto simp: array_at_def empty_reads word_le_nat_alt)
    with nn show ?thesis
      by (simp add: msm_array_get_int32_def array_index_def int32_read_def load_u32_def)
  qed
  show "msm_array_push_int32 h slot v = Inl (Fault NullDeref)"
    if c: "slot_holds h slot Null \<and> oom h (next_block h) 72"
  proof -
    have 1: "slot_holds h slot Null" and 2: "slot_holds (fail_block 72 h) slot Null"
      using c slot_holds_cong [of "fail_block 72 h" slot h] by simp_all
    have "msm_array_push_back h slot 8 = Inr (Null, fail_block 72 h)"
      using nn c
      by (simp add: msm_array_push_back_def msm_array_prepare_push_def msm_array_reserve_def
          load_slot [OF 1] load_slot [OF 2] malloc_def)
    with nn show ?thesis
      by (simp add: msm_array_push_int32_def array_push_back_def int32_assign_def store_u32_def)
  qed
qed

section \<open>Iterators\<close>

text \<open>The elements a range-based \<open>for\<close> visits: dereference and increment until the iterator
  equals the end. \<open>fuel\<close> bounds the number of steps.\<close>

fun range_items :: "nat \<Rightarrow> ty \<Rightarrow> array_iterator \<Rightarrow> array_iterator \<Rightarrow> ptr list option" where
  "range_items 0 t it e = None"
| "range_items (Suc fuel) t it e =
     (if iterator_differs it e
      then map_option ((#) (iterator_deref t it)) (range_items fuel t (iterator_next it) e)
      else Some [])"

lemma deref_rep:
  "unat i < 4294967296 \<Longrightarrow>
   iterator_deref t \<lparr>base = Ptr b 8, index = i\<rparr> = Ptr b (8 + unat i * unat (item_size t))"
proof -
  assume i: "unat i < 4294967296"
  have "unat i * unat (item_size t) \<le> 4294967295 * 4294967295"
    using i unat_u32_less [of "item_size t"] by (intro mult_le_mono) linarith+
  then show ?thesis by (simp add: iterator_deref_def unat_word_ariths)
qed

lemma range_items_rep:
  "unat i \<le> unat n \<Longrightarrow> unat n < 4294967296 \<Longrightarrow>
   range_items (Suc (unat n - unat i)) t \<lparr>base = Ptr b 8, index = i\<rparr> \<lparr>base = q, index = n\<rparr> =
     Some (map (\<lambda>j. Ptr b (8 + j * unat (item_size t))) [unat i..<unat n])"
proof (induction "unat n - unat i" arbitrary: i)
  case 0
  then have "i = n" by (simp add: word_unat_eq_iff)
  then show ?case by (simp add: iterator_differs_def)
next
  case (Suc k)
  then have lt: "unat i < unat n" and ne: "i \<noteq> n" by auto
  have i1: "unat (i + 1) = Suc (unat i)"
    using lt Suc.prems(2) by (simp add: unat_word_ariths)
  have k: "k = unat n - unat (i + 1)" "unat n - unat i = Suc k" "unat (i + 1) \<le> unat n"
    using Suc.hyps(2) lt by (auto simp: i1)
  have ih: "range_items (Suc k) t \<lparr>base = Ptr b 8, index = i + 1\<rparr> \<lparr>base = q, index = n\<rparr> =
      Some (map (\<lambda>j. Ptr b (8 + j * unat (item_size t))) [Suc (unat i)..<unat n])"
    using Suc.hyps(1) [OF k(1) k(3) Suc.prems(2)] unfolding k(1) i1 .
  have d: "iterator_deref t \<lparr>base = Ptr b 8, index = i\<rparr> = Ptr b (8 + unat i * unat (item_size t))"
    using lt Suc.prems(2) by (intro deref_rep) simp
  show ?case
    unfolding k(2) range_items.simps(2) [of "Suc k"]
    using ne ih d lt by (simp add: iterator_differs_def iterator_next_def upt_conv_Cons)
qed

lemma begin_rep:
  "array_rep h slot isz b n cap data \<Longrightarrow> array_begin h slot = Inr \<lparr>base = Ptr b 8, index = 0\<rparr>"
  by (elim array_repE) (simp add: array_begin_def load_slot_plain)

lemma end_rep:
  "array_rep h slot isz b n cap data \<Longrightarrow> array_end h slot = Inr \<lparr>base = Ptr b 8, index = ucast n\<rparr>"
  by (frule size_rep, elim array_repE) (simp add: array_end_def array_size_def load_slot_plain)

text \<open>Claim C24. A range-based \<open>for\<close> over an array that does not change visits exactly its elements,
  in order: the loop ends, and what it reads at the visited addresses are the contents.\<close>

theorem array_iteration_correct:
  assumes "array_at h slot (item_size t) cap es"
  shows "\<exists>b e ps. array_begin h slot = Inr b \<and> array_end h slot = Inr e \<and>
    range_items (Suc (length es)) t b e = Some ps \<and>
    map (\<lambda>p. load_cells h p (unat (item_size t))) ps = map Inr es"
  using assms unfolding array_at_def
proof (elim disjE exE conjE)
  assume "slot_holds h slot Null" "es = []"
  then show ?thesis
    by (simp add: array_begin_def array_end_def array_size_def load_slot_plain empty_reads
        iterator_differs_def)
next
  fix b n data
  let ?isz = "unat (item_size t)"
  assume rep: "array_rep h slot (item_size t) b n cap data" and es: "es = elements ?isz (unat n) data"
  have "load_cells h (Ptr b (8 + j * ?isz)) ?isz = Inr (es ! j)" if "j < unat n" for j
    using load_element [OF rep, of j] that rep by (auto elim!: array_repE simp: es nth_elements)
  then have "map (\<lambda>p. load_cells h p ?isz) (map (\<lambda>j. Ptr b (8 + j * ?isz)) [0..<unat n]) = map Inr es"
    by (intro nth_equalityI) (auto simp: es)
  moreover have "range_items (Suc (length es)) t \<lparr>base = Ptr b 8, index = 0\<rparr>
      \<lparr>base = Ptr b 8, index = ucast n\<rparr> = Some (map (\<lambda>j. Ptr b (8 + j * ?isz)) [0..<unat n])"
    using range_items_rep [of 0 "ucast n" t b "Ptr b 8"] unat_u32_less [of n] by (simp add: es)
  ultimately show ?thesis using begin_rep [OF rep] end_rep [OF rep] by blast
qed

theorem array_iteration_correct_witness:
  "\<exists>b e ps. array_begin (pair_heap (\<lambda>_ _. False)) (Ptr 0 0) = Inr b \<and>
     array_end (pair_heap (\<lambda>_ _. False)) (Ptr 0 0) = Inr e \<and> range_items 3 Int32 b e = Some ps \<and>
     map (\<lambda>p. load_cells (pair_heap (\<lambda>_ _. False)) p 8) ps =
       [Inr (replicate 8 (Byte 1)), Inr (replicate 8 (Byte 2))]"
proof -
  have e: "Suc (length [replicate 8 (Byte 1), replicate 8 (Byte 2)]) = 3" "unat (8 :: u32) = 8"
    by simp_all
  show ?thesis
    using array_iteration_correct [where t = Int32, unfolded item_size_Int32,
        OF pair_heap_array [of "\<lambda>_ _. False"]]
    unfolding e list.map .
qed

text \<open>Claim C25. \<^verbatim>\<open>begin()\<close> and \<^verbatim>\<open>end()\<close> each read the buffer pointer of the slot. When the
  writer's push replaces a full buffer between the two reads, the loop keeps walking the old buffer
  but takes its bound from the new size: its last step reads behind the end of the old buffer.\<close>

theorem array_iteration_race:
  assumes "array_at h slot (item_size t) cap es" and "heap_wf h" and "item_size t \<noteq> 0"
    and "length es = unat cap" and "cap \<noteq> 0" and "can_push h (item_size t) cap (length es)"
  shows "\<exists>b p h' e ps. array_begin h slot = Inr b \<and>
    msm_array_push_back h slot (item_size t) = Inr (p, h') \<and> array_end h' slot = Inr e \<and>
    range_items (Suc (Suc (length es))) t b e = Some ps \<and>
    load_cells h' (last ps) (unat (item_size t)) = Inl (Fault OutOfBounds)"
proof -
  let ?isz = "unat (item_size t)" and ?nb = "next_block h"
  obtain b n data where rep: "array_rep h slot (item_size t) b n cap data" and "length es = unat n"
    using assms(1,5) by (auto simp: array_at_def)
  with assms(4) have [simp]: "cap = n" by (simp add: word_unat_eq_iff)
  have full: "cap \<le> n" by simp
  have small: "unat cap < 2147483648"
    and mem: "\<not> oom h ?nb (8 + unat (grown_cap cap) * ?isz)"
    using assms(4,6) by (simp_all add: can_push_def)
  obtain h1 data1 where 1: "msm_array_prepare_push h slot (item_size t) =
        Inr (Ptr ?nb (8 + unat n * ?isz), h1)"
      "publishes h h1 slot (Ptr ?nb 0)"
      "array_rep h1 slot (item_size t) ?nb n (grown_cap cap) data1" "n < grown_cap cap"
    using prepare_push_grow [OF rep assms(2,3) full small mem] by blast
  let ?h' = "put (Atomic Release) ?nb 0 (word_cells 4 (n + 1)) h1"
  note c = commit_push_rep [OF 1(3,4)]
  have push: "msm_array_push_back h slot (item_size t) = Inr (Ptr ?nb (8 + unat n * ?isz), ?h')"
    using 1(1) c(1) by (simp add: msm_array_push_back_def)
  have blk: "blocks h b = Some (counted n cap data)" "b \<noteq> blk slot" "length data = unat n * ?isz"
    using rep by (auto elim: array_repE)
  then have "b \<noteq> ?nb" using assms(2) by (auto dest: heap_wf_live)
  moreover have "blocks h1 b = Some (counted n cap data)"
    using publishes_block [OF 1(2) assms(2) blk(1,2)] .
  ultimately have old: "blocks ?h' b = Some (counted n cap data)" by simp
  have "unat (ucast (n + 1) :: u64) = Suc (unat n)" using c(3) by simp
  moreover have "Suc (unat n) < 4294967296"
    using c(3) unat_u32_less [of "n + 1"] by simp
  ultimately have "range_items (Suc (Suc (length es))) t \<lparr>base = Ptr b 8, index = 0\<rparr>
      \<lparr>base = Ptr ?nb 8, index = ucast (n + 1)\<rparr> =
      Some (map (\<lambda>j. Ptr b (8 + j * ?isz)) [0..<Suc (unat n)])"
    using range_items_rep [of 0 "ucast (n + 1)" t b "Ptr ?nb 8"] assms(4) by simp
  moreover have "load_cells ?h' (Ptr b (8 + unat n * ?isz)) ?isz = Inl (Fault OutOfBounds)"
    using old blk(3) assms(3) by (simp add: load_cells.simps unat_gt_0)
  ultimately show ?thesis using begin_rep [OF rep] push end_rep [OF c(2)] by auto
qed

theorem array_iteration_race_witness:
  "\<exists>b p h' e ps. array_begin (pair_heap (\<lambda>_ _. False)) (Ptr 0 0) = Inr b \<and>
     msm_array_push_back (pair_heap (\<lambda>_ _. False)) (Ptr 0 0) 8 = Inr (p, h') \<and>
     array_end h' (Ptr 0 0) = Inr e \<and> range_items 4 Int32 b e = Some ps \<and>
     load_cells h' (last ps) 8 = Inl (Fault OutOfBounds)"
proof -
  have e: "Suc (Suc (length [replicate 8 (Byte 1), replicate 8 (Byte 2)])) = 4" "unat (8 :: u32) = 8"
    by simp_all
  show ?thesis
    using array_iteration_race [where t = Int32, unfolded item_size_Int32,
        OF pair_heap_array [of "\<lambda>_ _. False"] pair_heap_facts(1), unfolded e]
    by (simp add: can_push_def grown_cap_def del: range_items.simps)
qed

end
