(* ===== verification/Msm_Document.thy ===== *)
theory Msm_Document
  imports Msm_Object_Props Msm_Types
begin

text \<open>
  Objects within objects. A field of type object is a slot like any other, so an object is the root
  of a tree; chained brackets, \<^verbatim>\<open>obj["player"]["pos"]["x"]\<close>, follow a path in it. \<open>doc_at\<close> relates a
  slot to such a tree, over separate blocks for every object in it. An action on one object that
  refines an action on its map refines the action at the end of a path on the tree: the locale
  \<open>document_action\<close> states this once, for every assignment and every read.
\<close>

section \<open>Documents\<close>

datatype doc = Leaf obj_value | Node "u64 \<Rightarrow> doc option"

type_synonym doc_map = "u64 \<rightharpoonup> doc"

definition doc_tree :: "(u64 \<Rightarrow> doc_map) \<Rightarrow> (u64 \<rightharpoonup> obj_value) \<Rightarrow> doc_map" where
  "doc_tree S M k =
     (case M k of None \<Rightarrow> None | Some (VObject q) \<Rightarrow> Some (Node (S k)) | Some v \<Rightarrow> Some (Leaf v))"

lemma doc_tree_upd:
  "doc_tree (S(k := T)) (M(k \<mapsto> v)) =
     (doc_tree S M)(k \<mapsto> (case v of VObject q \<Rightarrow> Node T | _ \<Rightarrow> Leaf v))"
  by (rule ext) (simp add: doc_tree_def split: option.split obj_value.split)

abbreviation is_object :: "obj_field \<Rightarrow> bool" where
  "is_object f \<equiv> \<exists>q. fval f = VObject q"

text \<open>\<open>doc_at N h slot B T\<close>: the object of \<open>slot\<close> is the root of the document \<open>T\<close>, which is spread
  over the blocks \<open>B\<close>, and the capacities in it are \<open>N\<close> at most. \<open>C k\<close> are the blocks of the object
  in field \<open>k\<close>, \<open>S k\<close> its contents.\<close>

inductive doc_at :: "nat \<Rightarrow> heap \<Rightarrow> ptr \<Rightarrow> nat set \<Rightarrow> doc_map \<Rightarrow> bool" for N h where
  doc_at: "object_fs h slot cap fs B0 \<Longrightarrow> unat cap \<le> N \<Longrightarrow>
    (\<And>f. f \<in> set fs \<Longrightarrow> is_object f \<Longrightarrow>
       doc_at N h (Ptr (fblock f) 0) (C (fhash f)) (S (fhash f)) \<and> B0 \<inter> C (fhash f) = {fblock f}) \<Longrightarrow>
    (\<And>f. f \<in> set fs \<Longrightarrow> \<not> is_object f \<Longrightarrow> C (fhash f) = {}) \<Longrightarrow>
    (\<And>f g. f \<in> set fs \<Longrightarrow> g \<in> set fs \<Longrightarrow> fhash f \<noteq> fhash g \<Longrightarrow> C (fhash f) \<inter> C (fhash g) = {}) \<Longrightarrow>
    B = B0 \<union> (\<Union>f \<in> set fs. C (fhash f)) \<Longrightarrow> T = doc_tree S (fields_map fs) \<Longrightarrow>
    doc_at N h slot B T"

text \<open>The root object of a document and its children, as one fact.\<close>

definition doc_parts ::
    "nat \<Rightarrow> heap \<Rightarrow> ptr \<Rightarrow> u32 \<Rightarrow> obj_field list \<Rightarrow> nat set \<Rightarrow> (u64 \<Rightarrow> nat set) \<Rightarrow> (u64 \<Rightarrow> doc_map) \<Rightarrow> bool" where
  "doc_parts N h slot cap fs B0 C S \<longleftrightarrow> object_fs h slot cap fs B0 \<and> unat cap \<le> N \<and>
     (\<forall>f \<in> set fs. if is_object f then doc_at N h (Ptr (fblock f) 0) (C (fhash f)) (S (fhash f)) \<and>
         B0 \<inter> C (fhash f) = {fblock f} else C (fhash f) = {}) \<and>
     (\<forall>f \<in> set fs. \<forall>g \<in> set fs. fhash f \<noteq> fhash g \<longrightarrow> C (fhash f) \<inter> C (fhash g) = {})"

definition doc_blocks :: "obj_field list \<Rightarrow> nat set \<Rightarrow> (u64 \<Rightarrow> nat set) \<Rightarrow> nat set" where
  "doc_blocks fs B0 C = B0 \<union> (\<Union>f \<in> set fs. C (fhash f))"

lemma doc_at_parts: "doc_parts N h slot cap fs B0 C S \<Longrightarrow>
    doc_at N h slot (doc_blocks fs B0 C) (doc_tree S (fields_map fs))"
  unfolding doc_parts_def doc_blocks_def
  by (rule doc_at.intros [where cap = cap and fs = fs and C = C and S = S]) auto

lemma doc_atE:
  assumes "doc_at N h slot B T"
  obtains cap fs B0 C S where "doc_parts N h slot cap fs B0 C S"
    and "B = doc_blocks fs B0 C" and "T = doc_tree S (fields_map fs)"
  using assms
proof cases
  case (doc_at cap fs B0 C S)
  then show ?thesis by (intro that [of cap fs B0 C S]) (auto simp: doc_parts_def doc_blocks_def)
qed

lemma doc_parts_root:
  assumes "doc_parts N h slot cap fs B0 C S"
  shows "object_fs h slot cap fs B0" and "unat cap \<le> N"
  using assms by (simp_all add: doc_parts_def)

lemma doc_parts_child:
  assumes "doc_parts N h slot cap fs B0 C S" and "f \<in> set fs" and "is_object f"
  shows "doc_at N h (Ptr (fblock f) 0) (C (fhash f)) (S (fhash f))" and "B0 \<inter> C (fhash f) = {fblock f}"
  using assms by (auto simp: doc_parts_def)

lemma doc_parts_leaf: "doc_parts N h slot cap fs B0 C S \<Longrightarrow> f \<in> set fs \<Longrightarrow> \<not> is_object f \<Longrightarrow> C (fhash f) = {}"
  by (auto simp: doc_parts_def)

lemma doc_parts_apart:
  "doc_parts N h slot cap fs B0 C S \<Longrightarrow> f \<in> set fs \<Longrightarrow> k \<in> fhash ` set fs \<Longrightarrow> fhash f \<noteq> k \<Longrightarrow>
   C (fhash f) \<inter> C k = {}"
  by (auto simp: doc_parts_def)

section \<open>What a document depends on\<close>

lemma object_fs_cong:
  assumes "object_fs h slot cap fs B" and "slot_holds h slot q" and "slot_holds h' slot q"
    and "\<And>c. c \<in> B - {blk slot} \<Longrightarrow> blocks h' c = blocks h c"
  shows "object_fs h' slot cap fs B"
proof -
  have "object_rep h' slot b cap fs" if r: "object_rep h slot b cap fs" and B: "B = object_blocks slot b fs" for b
  proof -
    have q: "slot_holds h' slot (Ptr b 0)"
      using slot_holds_unique [OF object_rep_slot [OF r] assms(2)] assms(3) by simp
    have off: "distinct (blk slot # b # concat (map footprint fs))" using r by (simp add: object_rep_def)
    have same: "blocks h' c = blocks h c" if "c = b \<or> c \<in> set (concat (map footprint fs))" for c
      using that off by (intro assms(4)) (auto simp: B object_blocks_def)
    have "field_at h' f" if f: "f \<in> set fs" for f
    proof -
      have "value_at h' (fblock f) (fbuf f) (fval f) = value_at h (fblock f) (fbuf f) (fval f)"
        using same f by (intro value_at_cong) (auto simp: footprint_def)
      then show ?thesis using r f by (simp add: field_at_def object_rep_def)
    qed
    then show ?thesis using r q same by (auto simp: object_rep_def)
  qed
  then show ?thesis
    using assms(1) slot_holds_unique [OF assms(2), of Null] assms(3) by (auto simp: object_fs_def)
qed

lemma object_fs_blocks:
  assumes "object_fs h slot cap fs B"
  shows "blk slot \<in> B" and "f \<in> set fs \<Longrightarrow> fblock f \<in> B \<and> fblock f \<noteq> blk slot"
  using assms by (auto simp: object_fs_def object_rep_def object_blocks_def footprint_def value_blocks_def)

lemma object_fs_footprint: "object_fs h slot cap fs B \<Longrightarrow> f \<in> set fs \<Longrightarrow> set (footprint f) \<subseteq> B"
  by (auto simp: object_fs_def object_blocks_def)

lemma ensure_object_found:
  assumes "object_fs h slot cap fs B" and "field_pos k fs = Some j"
    and "fval (fs ! j) = VObject q" and "slot \<noteq> Null" and "field_key nm = k"
  shows "msm_object_ensure_object h slot (Some nm) = Inr (Ptr (fblock (fs ! j)) 0, h)"
proof -
  obtain b where "object_find_entry_by_hash h slot k = Inr (Ptr b (8 + 24 * j))"
      "entry_type_id h (Ptr b (8 + 24 * j)) = Inr type_object"
      "entry_value_ptr h (Ptr b (8 + 24 * j)) = Inr (Ptr (fblock (fs ! j)) 0)"
    by (rule object_fs_find_Some [OF assms(1,2)]) (rule that, use assms(3) in simp_all)
  then show ?thesis
    using assms(4,5) by (simp add: msm_object_ensure_object_def object_find_entry_def field_key_def)
qed

lemma object_fs_field:
  assumes "object_fs h slot cap fs B" and "f \<in> set fs"
  shows "field_at h f"
  using assms by (auto simp: object_fs_def object_rep_def)

lemma object_fs_live:
  assumes "object_fs h slot cap fs B" and "heap_wf h" and "c \<in> B"
  shows "c < next_block h"
proof -
  obtain q where "slot_holds h slot q" using assms(1) object_fs_slot by blast
  then have s: "blk slot < next_block h" using slot_holds_live assms(2) heap_wf_live by fastforce
  consider "c = blk slot" | b where "object_rep h slot b cap fs" "c \<in> object_blocks slot b fs"
    using assms(1,3) by (auto simp: object_fs_def)
  then show ?thesis
  proof cases
    case 2
    consider "c = blk slot" | "c = b" | f where "f \<in> set fs" "c \<in> set (footprint f)"
      using 2(2) by (auto simp: object_blocks_def)
    then show ?thesis
      using s 2(1) field_at_live [OF _ assms(2)] heap_wf_live [OF assms(2), of b]
      by cases (auto simp: object_rep_def)
  qed (use s in simp)
qed

lemma object_slot_value: "field_at h f \<Longrightarrow> fval f = VObject q \<Longrightarrow> slot_holds h (Ptr (fblock f) 0) q"
  using value_cells_slot by (simp add: field_at_def)

lemma doc_at_live: "doc_at N h slot B T \<Longrightarrow> heap_wf h \<Longrightarrow> c \<in> B \<Longrightarrow> c < next_block h"
proof (induction rule: doc_at.induct)
  case (doc_at slot cap fs B0 C S B T)
  from doc_at.prems(2) doc_at.hyps(5) consider "c \<in> B0" | f where "f \<in> set fs" "c \<in> C (fhash f)" by blast
  then show ?case
  proof cases
    case 1
    then show ?thesis using object_fs_live [OF doc_at.hyps(1) doc_at.prems(1)] by simp
  next
    case 2
    then have "is_object f" using doc_at.hyps(3) by blast
    then show ?thesis using doc_at.IH [OF 2(1)] doc_at.prems(1) 2(2) by blast
  qed
qed

lemma doc_at_mono: "doc_at N h slot B T \<Longrightarrow> N \<le> N' \<Longrightarrow> doc_at N' h slot B T"
proof (induction rule: doc_at.induct)
  case (doc_at slot cap fs B0 C S B T)
  show ?case
    by (rule doc_at.intros [OF doc_at.hyps(1), of N' C S])
      (use doc_at in \<open>auto\<close>)
qed

lemma doc_at_root:
  assumes "doc_at N h slot B T"
  shows "slot \<noteq> Null" and "blk slot \<in> B" and "\<exists>q. slot_holds h slot q"
proof -
  obtain cap fs B0 where "object_fs h slot cap fs B0" "B0 \<subseteq> B"
    using assms by (rule doc_atE) (use doc_parts_root(1) Un_upper1 doc_blocks_def in metis)
  then show "blk slot \<in> B" "\<exists>q. slot_holds h slot q" using object_fs_blocks(1) object_fs_slot by blast+
  then show "slot \<noteq> Null" by auto
qed

text \<open>A document is where it is as long as its blocks are the same, but for the slot, which only
  has to hold the same pointer.\<close>

lemma doc_at_frame:
  assumes "doc_at N h slot B T" and "slot_holds h slot q" and "slot_holds h' slot q"
    and "\<And>c. c \<in> B - {blk slot} \<Longrightarrow> blocks h' c = blocks h c"
  shows "doc_at N h' slot B T"
  using assms
proof (induction arbitrary: q rule: doc_at.induct)
  case (doc_at slot cap fs B0 C S B T)
  show ?case
  proof (rule doc_at.intros [where C = C and S = S])
    show "object_fs h' slot cap fs B0"
      using doc_at.hyps(5) doc_at.prems(3) by (intro object_fs_cong [OF doc_at.hyps(1) doc_at.prems(1,2)]) blast
    fix f assume f: "f \<in> set fs" "is_object f"
    then obtain r where r: "fval f = VObject r" by blast
    note IH = doc_at.IH [OF f]
    have r0: "blk slot \<in> B0 \<and> fblock f \<in> B0 \<and> fblock f \<noteq> blk slot"
      using object_fs_blocks [OF doc_at.hyps(1)] f by auto
    then have vb: "fblock f \<in> B - {blk slot}" using doc_at.hyps(5) by blast
    have off: "blk slot \<notin> C (fhash f)" using conjunct2 [OF IH] r0 by (metis IntI singletonD)
    have slot: "slot_holds h (Ptr (fblock f) 0) r"
      by (rule object_slot_value [OF object_fs_field [OF doc_at.hyps(1) f(1)] r])
    moreover have "slot_holds h' (Ptr (fblock f) 0) r"
      using slot doc_at.prems(3) [OF vb] slot_holds_cong [of h' "Ptr (fblock f) 0" h] by simp
    moreover have "blocks h' c = blocks h c" if "c \<in> C (fhash f) - {blk (Ptr (fblock f) 0)}" for c
      using that f(1) off doc_at.hyps(5) by (intro doc_at.prems(3)) blast
    ultimately show "doc_at N h' (Ptr (fblock f) 0) (C (fhash f)) (S (fhash f)) \<and> B0 \<inter> C (fhash f) = {fblock f}"
      using IH by blast
  qed (use doc_at.hyps in blast)+
qed

lemma doc_parts_live:
  assumes "doc_parts N h slot cap fs B0 C S" and "heap_wf h" and "c \<in> doc_blocks fs B0 C"
  shows "c < next_block h"
  by (rule doc_at_live [OF doc_at_parts [OF assms(1)] assms(2,3)])

text \<open>What an operation may change: blocks of the document, and new ones, which may become part of it.\<close>

definition within :: "heap \<Rightarrow> nat set \<Rightarrow> heap \<Rightarrow> nat set \<Rightarrow> bool" where
  "within h B h' B' \<longleftrightarrow> modifies h h' B \<and> (\<forall>c \<in> B'. c \<in> B \<or> next_block h \<le> c)"

lemma within_trans:
  assumes "within h B h1 B1" and "within h1 B1 h2 B2"
  shows "within h B h2 B2"
proof -
  have nb: "next_block h \<le> next_block h1" using assms(1) by (simp add: within_def modifies_def)
  have "modifies h h2 B"
    using assms by (intro modifies_trans [of h h1 B h2 B1]) (auto simp: within_def)
  then show ?thesis using assms nb by (fastforce simp: within_def)
qed

section \<open>Changing one field\<close>

text \<open>A child that a change of the heap has left alone, but for the slot that leads to it, is the
  child of the same field in the new object.\<close>

lemma doc_child_kept:
  assumes parts: "doc_parts N h slot cap fs B0 C S" and wf: "heap_wf h"
    and fs': "object_fs h' slot cap' fs' B0'" "N \<le> N'"
    and f: "f \<in> set fs" "f \<in> set fs'" "fval f = VObject q"
    and m: "modifies h h' X" "X \<inter> C (fhash f) \<subseteq> {fblock f}"
    and B0': "\<And>c. c \<in> B0' \<Longrightarrow> c \<in> B0 \<or> next_block h \<le> c"
  shows "doc_at N' h' (Ptr (fblock f) 0) (C (fhash f)) (S (fhash f)) \<and> B0' \<inter> C (fhash f) = {fblock f}"
proof
  note kid = doc_parts_child [OF parts f(1) exI, OF f(3)]
  have live: "c < next_block h" if "c \<in> C (fhash f)" for c using doc_at_live [OF kid(1) wf that] .
  have "doc_at N h' (Ptr (fblock f) 0) (C (fhash f)) (S (fhash f))"
  proof (rule doc_at_frame [OF kid(1)])
    show "slot_holds h (Ptr (fblock f) 0) q"
      by (rule object_slot_value [OF object_fs_field [OF doc_parts_root(1) [OF parts] f(1)] f(3)])
    show "slot_holds h' (Ptr (fblock f) 0) q" by (rule object_slot_value [OF object_fs_field [OF fs'(1) f(2)] f(3)])
    show "blocks h' c = blocks h c" if "c \<in> C (fhash f) - {blk (Ptr (fblock f) 0)}" for c
      using that live [of c] m by (auto simp: modifies_def)
  qed
  then show "doc_at N' h' (Ptr (fblock f) 0) (C (fhash f)) (S (fhash f))" using fs'(2) by (rule doc_at_mono)
  have "fblock f \<in> B0'" using object_fs_blocks(2) [OF fs'(1) f(2)] by simp
  moreover have "B0' \<inter> C (fhash f) \<subseteq> B0 \<inter> C (fhash f)" using B0' live by fastforce
  ultimately show "B0' \<inter> C (fhash f) = {fblock f}" using kid(2) by blast
qed

text \<open>What a change of an object does to the document: only field \<open>k\<close> is new, with the child
  document \<open>S'\<close> over \<open>D\<close> when it is an object; the other fields and their children are untouched.
  The change is to the root and to the old child of \<open>k\<close>, and \<open>D\<close> is made of this child and of new blocks.\<close>

lemma doc_at_change:
  assumes parts: "doc_parts N h slot cap fs B0 C S" and wf: "heap_wf h"
    and fs': "object_fs h' slot cap' fs' B0'" "unat cap' \<le> N'" "N \<le> N'"
    and map: "fields_map fs' = (fields_map fs)(k \<mapsto> v)"
    and old: "\<And>f. f \<in> set fs' \<Longrightarrow> fhash f \<noteq> k \<Longrightarrow> f \<in> set fs"
    and new: "\<And>f. f \<in> set fs' \<Longrightarrow> fhash f = k \<Longrightarrow> fblock f = vb \<and> fval f = v"
    and m: "modifies h h' X" "\<And>c. c \<in> X \<Longrightarrow> c \<in> B0 \<or> k \<in> fhash ` set fs \<and> c \<in> C k"
    and B0': "\<And>c. c \<in> B0' \<Longrightarrow> c \<in> B0 \<or> next_block h \<le> c"
    and D: "\<And>c. c \<in> D \<Longrightarrow> next_block h \<le> c \<or> k \<in> fhash ` set fs \<and> c \<in> C k"
      "if \<exists>q. v = VObject q then doc_at N' h' (Ptr vb 0) D S' \<and> B0' \<inter> D = {vb} else D = {}"
  shows "\<exists>B'. doc_at N' h' slot B' ((doc_tree S (fields_map fs))(k \<mapsto> (case v of VObject q \<Rightarrow> Node S' | _ \<Rightarrow> Leaf v))) \<and>
    within h (doc_blocks fs B0 C) h' B'"
proof -
  have apart: "C (fhash f) \<inter> D = {}" if f: "f \<in> set fs" "fhash f \<noteq> k" for f
  proof -
    have "c < next_block h" if "c \<in> C (fhash f)" for c
      using doc_parts_live [OF parts wf] f(1) that by (auto simp: doc_blocks_def)
    then show ?thesis using D(1) doc_parts_apart [OF parts f(1) _ f(2)] by fastforce
  qed
  have X: "X \<inter> C (fhash f) \<subseteq> {fblock f}" if f: "f \<in> set fs" "fhash f \<noteq> k" for f
    using m(2) doc_parts_apart [OF parts f(1) _ f(2)] doc_parts_child(2) [OF parts f(1)]
      doc_parts_leaf [OF parts f(1)] by (cases "is_object f") blast+
  have "doc_parts N' h' slot cap' fs' B0' (C(k := D)) (S(k := S'))"
    unfolding doc_parts_def
  proof (intro conjI ballI impI)
    fix f assume f: "f \<in> set fs'"
    show "if is_object f then doc_at N' h' (Ptr (fblock f) 0) ((C(k := D)) (fhash f)) ((S(k := S')) (fhash f)) \<and>
        B0' \<inter> (C(k := D)) (fhash f) = {fblock f} else (C(k := D)) (fhash f) = {}"
    proof (cases "fhash f = k")
      case True
      then show ?thesis using new [OF f True] D(2) by simp
    next
      case False
      note g = old [OF f False]
      have "doc_at N' h' (Ptr (fblock f) 0) (C (fhash f)) (S (fhash f)) \<and> B0' \<inter> C (fhash f) = {fblock f}"
        if "fval f = VObject q" for q
        by (rule doc_child_kept [OF parts wf fs'(1,3) g f that m(1) X [OF g False] B0'])
      then show ?thesis using False doc_parts_leaf [OF parts g] by auto
    qed
    fix g assume "g \<in> set fs'" and "fhash f \<noteq> fhash g"
    then show "(C(k := D)) (fhash f) \<inter> (C(k := D)) (fhash g) = {}"
      using f old apart doc_parts_apart [OF parts] by (cases "fhash f = k"; cases "fhash g = k") (auto simp: Int_commute)
  qed (rule fs')+
  from doc_at_parts [OF this] have "doc_at N' h' slot (doc_blocks fs' B0' (C(k := D)))
      ((doc_tree S (fields_map fs))(k \<mapsto> (case v of VObject q \<Rightarrow> Node S' | _ \<Rightarrow> Leaf v)))"
    by (simp add: map doc_tree_upd)
  moreover have "modifies h h' (doc_blocks fs B0 C)" using m(2) by (intro modifies_mono [OF m(1)]) (auto simp: doc_blocks_def)
  moreover have "c \<in> doc_blocks fs B0 C \<or> next_block h \<le> c" if "c \<in> doc_blocks fs' B0' (C(k := D))" for c
    using that B0' D(1) old by (fastforce simp: doc_blocks_def split: if_splits)
  ultimately show ?thesis by (auto simp: within_def)
qed

text \<open>The capacities after an operation.\<close>

definition grown :: "nat \<Rightarrow> nat" where
  "grown N = max 4 (2 * N)"

lemma grown_cap: "unat cap \<le> N \<Longrightarrow> cap < 0x80000000 \<Longrightarrow> unat (obj_grown_cap cap) \<le> grown N"
  by (simp add: unat_obj_grown_cap grown_def le_max_iff_disj)

lemma grown_le: "N \<le> grown N"
  by (simp add: grown_def)

lemma small_cap: "unat (cap :: u32) \<le> N \<Longrightarrow> N < 2147483648 \<Longrightarrow> cap < 0x80000000"
  by (simp add: word_less_nat_alt)

definition doc_of_value :: "obj_value \<Rightarrow> doc" where
  "doc_of_value v = (case v of VObject q \<Rightarrow> Node Map.empty | _ \<Rightarrow> Leaf v)"

lemma doc_empty: "slot_holds h slot Null \<Longrightarrow> doc_at N h slot {blk slot} Map.empty"
  by (rule doc_at.intros [where cap = 0 and fs = "[]" and ?B0.0 = "{blk slot}" and C = "\<lambda>_. {}"])
    (auto simp: object_fs_def doc_tree_def fields_map_def)

lemma doc_tree_None: "doc_tree S M k = None \<longleftrightarrow> M k = None"
  by (simp add: doc_tree_def split: option.split obj_value.split)

lemma doc_tree_Leaf: "doc_tree S M k = Some (Leaf v) \<longleftrightarrow> M k = Some v \<and> (\<forall>q. v \<noteq> VObject q)"
  by (auto simp: doc_tree_def split: option.split obj_value.split)

lemma doc_tree_Node: "doc_tree S M k = Some (Node T) \<longleftrightarrow> (\<exists>q. M k = Some (VObject q)) \<and> T = S k"
  by (auto simp: doc_tree_def split: option.split obj_value.split)

text \<open>The fields with one of them replaced.\<close>

abbreviation replaced :: "nat \<Rightarrow> obj_field \<Rightarrow> obj_field list \<Rightarrow> obj_field list" where
  "replaced j f fs \<equiv> take j fs @ f # drop (Suc j) fs"

lemma replaced_fields:
  assumes fs: "object_fs h slot cap fs B" and j: "field_pos k fs = Some j" and k: "fhash f = k"
  shows "fields_map (replaced j f fs) = (fields_map fs)(k \<mapsto> fval f)"
    and "g \<in> set (replaced j f fs) \<Longrightarrow> fhash g \<noteq> k \<Longrightarrow> g \<in> set fs"
    and "g \<in> set (replaced j f fs) \<Longrightarrow> fhash g = k \<Longrightarrow> g = f"
proof -
  note split = field_pos_split [OF j]
  have dist: "distinct (map fhash (replaced j (fs ! j) fs))"
    using object_fs_hashes [OF fs] unfolding split(1) [symmetric] .
  show "fields_map (replaced j f fs) = (fields_map fs)(k \<mapsto> fval f)"
    using fields_map_update [OF dist, of f] k split by simp
  show "g \<in> set (replaced j f fs) \<Longrightarrow> fhash g \<noteq> k \<Longrightarrow> g \<in> set fs"
    using k by (auto dest: in_set_takeD in_set_dropD)
  show "g \<in> set (replaced j f fs) \<Longrightarrow> fhash g = k \<Longrightarrow> g = f"
    using dist split(2) by auto
qed

lemma replaced_blocks:
  "c \<in> object_blocks slot b (replaced j f fs) \<Longrightarrow> c \<in> object_blocks slot b fs \<or> c \<in> set (footprint f)"
  by (auto simp: object_blocks_def dest: in_set_takeD in_set_dropD)

lemma doc_at_new:
  assumes w: "field_writer wr v pre" and doc: "doc_at N h slot B T" and wf: "heap_wf h" and al: "allocs h"
    and N: "N < 2147483648" and k: "T k = None" and v: "\<And>q. v = VObject q \<Longrightarrow> q = Null"
  obtains h' vb B' where "set_scheme (value_type v) (of_nat (value_size v)) wr h slot k = Inr (Some (Ptr vb 0), h')"
    and "doc_at (grown N) h' slot B' (T(k \<mapsto> doc_of_value v))" and "within h B h' B'"
    and "v = VObject Null \<Longrightarrow> slot_holds h' (Ptr vb 0) Null"
    and "\<And>nm. v = VObject Null \<Longrightarrow> field_key nm = k \<Longrightarrow>
       msm_object_ensure_object h' slot (Some nm) = Inr (Ptr vb 0, h')"
proof -
  from doc obtain cap fs B0 C S where parts: "doc_parts N h slot cap fs B0 C S"
    and B: "B = doc_blocks fs B0 C" and T: "T = doc_tree S (fields_map fs)"
    by (rule doc_atE)
  note fs = doc_parts_root(1) [OF parts] and capN = doc_parts_root(2) [OF parts]
  let ?cap = "if length fs < unat cap then cap else obj_grown_cap cap"
  have cap: "cap < 0x80000000" by (rule small_cap [OF capN N])
  have pos: "field_pos k fs = None"
    using k unfolding T doc_tree_None fields_map_pos by (simp split: option.splits)
  obtain h' b vb sb where r: "set_scheme (value_type v) (of_nat (value_size v)) wr h slot k =
        Inr (Some (Ptr vb 0), h')" and rep: "object_rep h' slot b ?cap (fs @ [ObjField k vb sb v])"
      and m: "modifies h h' B0" and b: "b \<in> B0 \<or> next_block h \<le> b"
      and new: "\<forall>c \<in> set (value_blocks vb sb). next_block h \<le> c"
    by (rule field_writer.set_new [OF w fs wf al disjI2 [OF cap] pos])
  let ?f = "ObjField k vb sb v" and ?B0 = "object_blocks slot b (fs @ [ObjField k vb sb v])"
    and ?D = "if \<exists>q. v = VObject q then {vb} else {}"
  have fs': "object_fs h' slot ?cap (fs @ [?f]) ?B0" using rep by (auto simp: object_fs_def)
  have kn: "k \<notin> fhash ` set fs" using pos by (simp add: field_pos_None)
  have vb: "next_block h \<le> vb" "vb \<in> ?B0" using new by (auto simp: object_blocks_def footprint_def value_blocks_def)
  have slot: "slot_holds h' (Ptr vb 0) q" if "v = VObject q" for q
    using object_slot_value [OF object_fs_field [OF fs'], of ?f q] that by simp
  have "\<exists>B'. doc_at (grown N) h' slot B' ((doc_tree S (fields_map fs))(k \<mapsto>
      (case v of VObject q \<Rightarrow> Node Map.empty | _ \<Rightarrow> Leaf v))) \<and> within h (doc_blocks fs B0 C) h' B'"
  proof (rule doc_at_change [OF parts wf fs' _ grown_le _ _ _ m _ _ _ _])
    show "unat ?cap \<le> grown N" using grown_cap [OF capN cap] capN grown_le [of N] by simp
    show "fields_map (fs @ [?f]) = (fields_map fs)(k \<mapsto> v)" by (simp add: fields_map_snoc [OF kn])
    show "c \<in> B0 \<or> next_block h \<le> c" if "c \<in> ?B0" for c
      using that object_fs_blocks(1) [OF fs] object_fs_footprint [OF fs] b new
      by (auto simp: object_blocks_def footprint_def)
    show "if \<exists>q. v = VObject q then doc_at (grown N) h' (Ptr vb 0) ?D Map.empty \<and> ?B0 \<inter> ?D = {vb} else ?D = {}"
      using v slot [THEN doc_empty] vb(2) by auto
    show "fblock f = vb \<and> fval f = v" if "f \<in> set (fs @ [?f])" "fhash f = k" for f
    proof -
      have "f = ?f" using that kn by auto
      then show ?thesis by simp
    qed
  qed (use vb(1) in \<open>auto split: if_splits\<close>)
  then obtain B' where "doc_at (grown N) h' slot B' (T(k \<mapsto> doc_of_value v))" "within h B h' B'"
    unfolding T B doc_of_value_def by blast
  then show ?thesis
  proof (rule that [OF r])
    show "msm_object_ensure_object h' slot (Some nm) = Inr (Ptr vb 0, h')" if "v = VObject Null" "field_key nm = k" for nm
      using ensure_object_found [OF fs', of k "length fs"] field_pos_nth [OF object_fs_hashes [OF fs'], of "length fs"]
        that doc_at_root(1) [OF doc] by simp
  qed (use slot in simp_all)
qed

lemma doc_at_overwrite:
  assumes w: "field_writer wr v pre" and doc: "doc_at N h slot B T" and wf: "heap_wf h" and al: "allocs h"
    and k: "T k = Some (Leaf u)" and ty: "value_type u = value_type v" and pre: "pre u"
  obtains h' vb B' where "set_scheme (value_type v) sz wr h slot k = Inr (Some (Ptr vb 0), h')"
    and "doc_at N h' slot B' (T(k \<mapsto> doc_of_value v))" and "within h B h' B'"
proof -
  from doc obtain cap fs B0 C S where parts: "doc_parts N h slot cap fs B0 C S"
    and B: "B = doc_blocks fs B0 C" and T: "T = doc_tree S (fields_map fs)"
    by (rule doc_atE)
  note fs = doc_parts_root(1) [OF parts]
  have u: "fields_map fs k = Some u" "\<forall>q. u \<noteq> VObject q" using k by (simp_all add: T doc_tree_Leaf)
  then obtain j where j: "field_pos k fs = Some j" "fval (fs ! j) = u"
    by (auto simp: fields_map_pos split: option.splits)
  let ?f = "fs ! j"
  have v: "\<forall>q. v \<noteq> VObject q" using u(2) ty by (cases u) (auto simp: type_ids)
  have tj: "value_type (fval ?f) = value_type v" "pre (fval ?f)" using ty pre j(2) by simp_all
  obtain h' b sb where r: "set_scheme (value_type v) sz wr h slot k = Inr (Some (Ptr (fblock ?f) 0), h')"
      and rep: "object_rep h' slot b cap (replaced j (ObjField k (fblock ?f) sb v) fs)"
      and m: "modifies h h' B0" and b: "b \<in> B0"
      and sb: "sb = None \<or> sb = fbuf ?f \<or> sb = Some (next_block h)"
    by (rule field_writer.set_existing [OF w fs wf al j(1) tj]) blast
  let ?g = "ObjField k (fblock ?f) sb v"
  let ?B0 = "object_blocks slot b (replaced j ?g fs)"
  have fs': "object_fs h' slot cap (replaced j ?g fs) ?B0" using rep by (auto simp: object_fs_def)
  have fj: "?f \<in> set fs" using field_pos_Some [OF j(1)] by simp
  have g: "set (footprint ?g) \<subseteq> B0 \<union> {next_block h}"
    using object_fs_footprint [OF fs fj] sb by (auto simp: footprint_def value_blocks_def split: option.splits)
  have "\<exists>B'. doc_at N h' slot B' ((doc_tree S (fields_map fs))(k \<mapsto>
      (case v of VObject q \<Rightarrow> Node Map.empty | _ \<Rightarrow> Leaf v))) \<and> within h (doc_blocks fs B0 C) h' B'"
  proof (rule doc_at_change [OF parts wf fs' doc_parts_root(2) [OF parts] order_refl _ _ _ m])
    show "c \<in> B0 \<or> next_block h \<le> c" if "c \<in> ?B0" for c
      using that g object_fs_blocks(1) [OF fs] object_fs_footprint [OF fs] b
      by (auto simp: object_blocks_def dest: in_set_takeD in_set_dropD)
    show "if \<exists>q. v = VObject q then doc_at N h' (Ptr (fblock ?f) 0) {} Map.empty \<and> ?B0 \<inter> {} = {fblock ?f} else {} = {}"
      using v by simp
    show "fields_map (replaced j ?g fs) = (fields_map fs)(k \<mapsto> v)"
      using replaced_fields(1) [OF fs j(1), of ?g] by simp
    show "f \<in> set fs" if "f \<in> set (replaced j ?g fs)" "fhash f \<noteq> k" for f
      by (rule replaced_fields(2) [OF fs j(1) _ that]) simp
    show "fblock f = fblock ?f \<and> fval f = v" if "f \<in> set (replaced j ?g fs)" "fhash f = k" for f
      using replaced_fields(3) [OF fs j(1) _ that] by simp
  qed simp_all
  then obtain B' where "doc_at N h' slot B' (T(k \<mapsto> doc_of_value v))" "within h B h' B'"
    unfolding T B doc_of_value_def by blast
  then show ?thesis by (rule that [OF r])
qed

section \<open>Descending into a field\<close>

text \<open>A change of the object in a field, at any later moment: its slot still belongs to the field, so the
  parent holds the field with the new pointer.\<close>

lemma object_rep_child:
  assumes rep: "object_rep h slot b cap fs" and wf: "heap_wf h" and j: "field_pos k fs = Some j" "fval (fs ! j) = VObject q"
    and m: "modifies h h' X" "X \<inter> object_blocks slot b fs \<subseteq> {fblock (fs ! j)}"
    and q': "slot_holds h' (Ptr (fblock (fs ! j)) 0) q'"
  shows "object_rep h' slot b cap (replaced j (ObjField k (fblock (fs ! j)) None (VObject q')) fs)"
proof -
  let ?f = "fs ! j"
  note split = field_pos_split [OF j(1)]
  have "field_at h ?f" using rep field_pos_Some [OF j(1)] by (auto simp: object_rep_def)
  then obtain cs where cs: "blocks h (fblock ?f) = Some cs" "length cs = 24"
    using j(2) by (auto simp: field_at_def value_cells_def)
  moreover have "fblock ?f < next_block h" using cs(1) wf heap_wf_live by blast
  ultimately have "map_option length (blocks h' (fblock ?f)) = Some 24" using m by (simp add: modifies_def)
  then have fat: "field_at h' (ObjField k (fblock ?f) None (VObject q'))"
    using q' by (auto simp: field_at_def value_cells_def slot_holds_def split: option.splits)
  show ?thesis
  proof (rule object_rep_update [OF _ wf m(1)])
    show "object_rep h slot b cap (replaced j ?f fs)" using rep unfolding split(1) [symmetric] .
    show "X \<inter> object_blocks slot b (replaced j ?f fs) \<subseteq> {fblock ?f}" using m(2) unfolding split(1) [symmetric] .
  qed (use fat split(2) j(2) in simp_all)
qed

text \<open>The object in field \<open>k\<close> is a document of its own; what an operation does to it, it does to the
  document as a whole.\<close>

lemma doc_at_child:
  assumes doc: "doc_at N h slot B T" and wf: "heap_wf h" and k: "T k = Some (Node S1)"
  obtains vb Bc where "\<And>nm. field_key nm = k \<Longrightarrow> msm_object_ensure_object h slot (Some nm) = Inr (Ptr vb 0, h)"
    and "doc_at N h (Ptr vb 0) Bc S1"
    and "\<And>N' h' Bc' S'. doc_at N' h' (Ptr vb 0) Bc' S' \<Longrightarrow> N \<le> N' \<Longrightarrow> within h Bc h' Bc' \<Longrightarrow>
       \<exists>B'. doc_at N' h' slot B' (T(k \<mapsto> Node S')) \<and> within h B h' B'"
proof -
  from doc obtain cap fs B0 C S where parts: "doc_parts N h slot cap fs B0 C S"
    and B: "B = doc_blocks fs B0 C" and T: "T = doc_tree S (fields_map fs)"
    by (rule doc_atE)
  note fs = doc_parts_root(1) [OF parts]
  obtain q where q: "fields_map fs k = Some (VObject q)" and S1: "S1 = S k"
    using k by (auto simp: T doc_tree_Node)
  then obtain j where j: "field_pos k fs = Some j" "fval (fs ! j) = VObject q"
    by (auto simp: fields_map_pos split: option.splits)
  let ?vb = "fblock (fs ! j)"
  have fj: "fs ! j \<in> set fs" and hk: "fhash (fs ! j) = k" using field_pos_Some [OF j(1)] by simp_all
  then have kf: "k \<in> fhash ` set fs" by blast
  note kid = doc_parts_child [OF parts fj exI, OF j(2), unfolded hk]
  obtain b where rep: "object_rep h slot b cap fs" and B0: "B0 = object_blocks slot b fs"
    using object_fs_find_Some [OF fs j(1)] by metis
  show ?thesis
  proof (rule that)
    fix nm assume "field_key nm = k"
    then show "msm_object_ensure_object h slot (Some nm) = Inr (Ptr ?vb 0, h)"
      using ensure_object_found [OF fs j] j(2) doc_at_root(1) [OF doc] by simp
  next
    show "doc_at N h (Ptr ?vb 0) (C k) S1" using kid(1) by (simp add: S1)
  next
    fix N' h' Bc' S'
    assume new: "doc_at N' h' (Ptr ?vb 0) Bc' S'" and N': "N \<le> N'" and win: "within h (C k) h' Bc'"
    obtain q' where q': "slot_holds h' (Ptr ?vb 0) q'" using doc_at_root(3) [OF new] by blast
    let ?f = "ObjField k ?vb None (VObject q')"
    let ?B0 = "object_blocks slot b (replaced j ?f fs)"
    have m: "modifies h h' (C k)" using win by (simp add: within_def)
    have "object_rep h' slot b cap (replaced j ?f fs)"
      using kid(2) by (intro object_rep_child [OF rep wf j m _ q']) (auto simp: B0)
    then have fs': "object_fs h' slot cap (replaced j ?f fs) ?B0" by (auto simp: object_fs_def)
    have sub: "?B0 \<subseteq> B0"
      using replaced_blocks [of _ slot b j fs ?f] object_fs_footprint [OF fs fj]
      by (auto simp: B0 footprint_def value_blocks_def)
    have vb: "?vb \<in> ?B0" "?vb \<in> Bc'"
      using doc_at_root(2) [OF new] by (auto simp: object_blocks_def footprint_def value_blocks_def)
    have D: "?B0 \<inter> Bc' = {?vb}"
    proof -
      have "c \<in> C k" if "c \<in> ?B0" "c \<in> Bc'" for c
        using that sub win object_fs_live [OF fs wf] by (fastforce simp: within_def)
      then show ?thesis using vb kid(2) sub by blast
    qed
    have "\<exists>B'. doc_at N' h' slot B' ((doc_tree S (fields_map fs))(k \<mapsto>
        (case VObject q' of VObject q \<Rightarrow> Node S' | _ \<Rightarrow> Leaf (VObject q')))) \<and> within h (doc_blocks fs B0 C) h' B'"
    proof (rule doc_at_change [OF parts wf fs' order_trans [OF doc_parts_root(2) [OF parts] N'] N' _ _ _ m])
      show "fields_map (replaced j ?f fs) = (fields_map fs)(k \<mapsto> VObject q')"
        using replaced_fields(1) [OF fs j(1), of ?f] by simp
      show "f \<in> set fs" if "f \<in> set (replaced j ?f fs)" "fhash f \<noteq> k" for f
        by (rule replaced_fields(2) [OF fs j(1) _ that]) simp
      show "fblock f = ?vb \<and> fval f = VObject q'" if "f \<in> set (replaced j ?f fs)" "fhash f = k" for f
        using replaced_fields(3) [OF fs j(1) _ that] by simp
      show "next_block h \<le> c \<or> k \<in> fhash ` set fs \<and> c \<in> C k" if "c \<in> Bc'" for c
        using win that kf by (auto simp: within_def)
    qed (use sub new D kf in auto)
    then show "\<exists>B'. doc_at N' h' slot B' (T(k \<mapsto> Node S')) \<and> within h B h' B'"
      by (simp add: T B)
  qed
qed

lemma doc_at_Null:
  assumes "doc_at N h slot B T" and "slot_holds h slot Null"
  shows "B = {blk slot} \<and> T = Map.empty"
proof -
  obtain cap fs B0 C S where 1: "object_fs h slot cap fs B0"
    "B = doc_blocks fs B0 C" "T = doc_tree S (fields_map fs)"
    using assms(1) by (rule doc_atE) (use doc_parts_root(1) in blast)
  have "fs = [] \<and> B0 = {blk slot}"
    using 1(1) slot_holds_unique [OF assms(2)] by (auto simp: object_fs_def object_rep_def)
  then show ?thesis using 1(2,3) by (auto simp: doc_tree_def fields_map_def doc_blocks_def)
qed

lemma ensure_object_leaf:
  assumes "doc_at N h slot B T" and "T k = Some (Leaf u)" and "field_key nm = k"
  shows "msm_object_ensure_object h slot (Some nm) = Inl (Abort TypeMismatch)"
proof -
  obtain cap fs B0 C S where 1: "object_fs h slot cap fs B0" "T = doc_tree S (fields_map fs)"
    using assms(1) by (rule doc_atE) (use doc_parts_root(1) in blast)
  have u: "fields_map fs k = Some u" "\<forall>q. u \<noteq> VObject q" using assms(2) by (simp_all add: 1(2) doc_tree_Leaf)
  have "object_at h slot cap (fields_map fs) B0" using 1(1) by (auto simp: object_at_def)
  moreover have "value_type u \<noteq> value_type (VObject Null)" using u(2) by (cases u) (auto simp: type_ids)
  ultimately show ?thesis
    using w_object.set_mismatch [of h slot cap "fields_map fs" B0 k u] u(1) doc_at_root(1) [OF assms(1)] assms(3)
    by (simp add: ensure_object_scheme)
qed

text \<open>A missing object is created empty, and is then a child like any other.\<close>

lemma doc_at_new_child:
  assumes doc: "doc_at N h slot B T" and wf: "heap_wf h" and al: "allocs h" and N: "N < 2147483648"
    and k: "T (field_key nm) = None"
  obtains h' vb B' where "msm_object_ensure_object h slot (Some nm) = Inr (Ptr vb 0, h')"
    and "doc_at (grown N) h' slot B' (T(field_key nm \<mapsto> Node Map.empty))" and "within h B h' B'"
    and "doc_at N h' (Ptr vb 0) {vb} Map.empty"
    and "\<And>N' h'' Bc S'. doc_at N' h'' (Ptr vb 0) Bc S' \<Longrightarrow> grown N \<le> N' \<Longrightarrow> within h' {vb} h'' Bc \<Longrightarrow>
       \<exists>B''. doc_at N' h'' slot B'' (T(field_key nm \<mapsto> Node Map.empty, field_key nm \<mapsto> Node S')) \<and> within h' B' h'' B''"
proof -
  let ?k = "field_key nm" and ?T = "T(field_key nm \<mapsto> Node Map.empty)"
  have new_doc: "doc_of_value (VObject Null) = Node Map.empty" by (simp add: doc_of_value_def)
  obtain h' vb B' where new: "set_scheme (value_type (VObject Null)) (of_nat (value_size (VObject Null)))
        (\<lambda>h val. Inr h) h slot ?k = Inr (Some (Ptr vb 0), h')"
      "doc_at (grown N) h' slot B' ?T" "within h B h' B'" "slot_holds h' (Ptr vb 0) Null"
      "\<And>nm'. field_key nm' = ?k \<Longrightarrow> msm_object_ensure_object h' slot (Some nm') = Inr (Ptr vb 0, h')"
    by (rule doc_at_new [OF w_object.field_writer_axioms doc wf al N k, unfolded new_doc]) blast+
  have wf': "heap_wf h'" using new(3) by (auto simp: within_def intro: modifies_wf)
  obtain vb' Bc where ch:
      "\<And>nm'. field_key nm' = ?k \<Longrightarrow> msm_object_ensure_object h' slot (Some nm') = Inr (Ptr vb' 0, h')"
      "doc_at (grown N) h' (Ptr vb' 0) Bc Map.empty"
      "\<And>N' h'' Bc' S'. doc_at N' h'' (Ptr vb' 0) Bc' S' \<Longrightarrow> grown N \<le> N' \<Longrightarrow> within h' Bc h'' Bc' \<Longrightarrow>
         \<exists>B''. doc_at N' h'' slot B'' (?T(?k \<mapsto> Node S')) \<and> within h' B' h'' B''"
    by (rule doc_at_child [OF new(2) wf', of ?k Map.empty]) (simp, blast)
  have vb: "vb' = vb" using ch(1) new(5) by fastforce
  have Bc: "Bc = {vb}" using doc_at_Null [OF ch(2)] new(4) vb by simp
  show ?thesis
  proof (rule that)
    show "msm_object_ensure_object h slot (Some nm) = Inr (Ptr vb 0, h')"
      using new(1) by (simp add: ensure_object_scheme [OF doc_at_root(1) [OF doc]])
    show "doc_at N h' (Ptr vb 0) {vb} Map.empty" using doc_empty [OF new(4)] by simp
  qed (use new(2,3) ch(3) in \<open>simp_all add: vb Bc\<close>)
qed

section \<open>Paths\<close>

text \<open>Chained brackets: \<^verbatim>\<open>p[n1][n2]...\<close> from a proxy on.\<close>

fun proxy_chain :: "heap \<Rightarrow> object_proxy \<Rightarrow> u8 list list \<Rightarrow> (object_proxy \<times> heap) res" where
  "proxy_chain h p [] = Inr (p, h)"
| "proxy_chain h p (n # ns) = bindE (proxy_index h p (Some n)) (\<lambda>(q, h1). proxy_chain h1 q ns)"

text \<open>An action at the end of a path of the document. A missing object on the way is created, empty;
  a field on the way that is no object is an error.\<close>

fun along :: "(u64 \<Rightarrow> doc_map \<Rightarrow> ('r \<times> doc_map) option) \<Rightarrow> u64 \<Rightarrow> u64 list \<Rightarrow> doc_map \<Rightarrow> ('r \<times> doc_map) option" where
  "along act k [] T = act k T"
| "along act k (k' # ks) T =
     (case T k of
        None \<Rightarrow> map_option (map_prod id (\<lambda>S. T(k \<mapsto> Node S))) (along act k' ks Map.empty)
      | Some (Node S1) \<Rightarrow> map_option (map_prod id (\<lambda>S. T(k \<mapsto> Node S))) (along act k' ks S1)
      | Some (Leaf v) \<Rightarrow> None)"

text \<open>An action that leaves the document as it is has met no missing object.\<close>

lemma along_unchanged:
  assumes "along act k (k' # ks) T = Some (r, T)"
  obtains S where "T k = Some (Node S)" and "along act k' ks S = Some (r, S)"
proof -
  obtain S S' where S: "along act k' ks S = Some (r, S')" "T(k \<mapsto> Node S') = T"
      "T k = None \<or> T k = Some (Node S)"
    using assms by (auto split: option.splits doc.splits)
  have "T k = Some (Node S')" using fun_cong [OF S(2), of k] by simp
  then show ?thesis using S by (intro that [of S']) simp_all
qed

text \<open>What it means that a run \<open>r\<close> on the document implements a function on its contents: it aborts
  where the function is undefined, and otherwise returns the result and leaves the new contents.\<close>

definition doc_refines ::
    "('r \<times> heap) res \<Rightarrow> ('r \<times> doc_map) option \<Rightarrow> nat \<Rightarrow> heap \<Rightarrow> ptr \<Rightarrow> nat set \<Rightarrow> bool" where
  "doc_refines r spec N h slot B \<longleftrightarrow>
     (case spec of
        None \<Rightarrow> r = Inl (Abort TypeMismatch)
      | Some (x, T') \<Rightarrow> \<exists>h' B'. r = Inr (x, h') \<and> doc_at (grown N) h' slot B' T' \<and> within h B h' B')"

locale document_action =
  fixes run :: "heap \<Rightarrow> object_proxy \<Rightarrow> ('r \<times> heap) res"
    and act :: "u64 \<Rightarrow> doc_map \<Rightarrow> ('r \<times> doc_map) option"
  assumes refines: "doc_at N h slot B T \<Longrightarrow> heap_wf h \<Longrightarrow> allocs h \<Longrightarrow> N < 2147483648 \<Longrightarrow>
      doc_refines (run h (object_index slot (Some nm))) (act (field_key nm) T) N h slot B"
begin

definition run_along :: "heap \<Rightarrow> ptr \<Rightarrow> u8 list \<Rightarrow> u8 list list \<Rightarrow> ('r \<times> heap) res" where
  "run_along h slot nm nms =
     bindE (proxy_chain h (object_index slot (Some nm)) nms) (\<lambda>(q, h1). run h1 q)"

lemma run_along_Cons:
  "msm_object_ensure_object h slot (Some nm) = Inr (s, h1) \<Longrightarrow>
   run_along h slot nm (n # ns) = run_along h1 s n ns"
  by (simp add: run_along_def proxy_index_def object_index_def)

text \<open>One step down: what the rest of the run does to the child, it does to the document.\<close>

lemma refines_step:
  assumes "doc_at N1 h1 slot B1 T1" and "within h B h1 B1"
    and frame: "\<And>N' h' Bc' S'. doc_at N' h' (Ptr vb 0) Bc' S' \<Longrightarrow> N1 \<le> N' \<Longrightarrow> within h1 Bc h' Bc' \<Longrightarrow>
       \<exists>B'. doc_at N' h' slot B' (T1(k \<mapsto> Node S')) \<and> within h1 B1 h' B'"
    and N1: "N1 \<le> grown N" and T1: "\<And>S. T1(k \<mapsto> Node S) = T(k \<mapsto> Node S)"
    and IH: "doc_refines r spec N h1 (Ptr vb 0) Bc"
  shows "doc_refines r (map_option (map_prod id (\<lambda>S. T(k \<mapsto> Node S))) spec) N h slot B"
proof (cases spec)
  case None
  then show ?thesis using IH by (simp add: doc_refines_def)
next
  case (Some xS)
  then obtain x S where xS: "spec = Some (x, S)" by (cases xS) simp
  then obtain h' Bc' where h': "r = Inr (x, h')" "doc_at (grown N) h' (Ptr vb 0) Bc' S" "within h1 Bc h' Bc'"
    using IH by (auto simp: doc_refines_def)
  obtain B' where "doc_at (grown N) h' slot B' (T1(k \<mapsto> Node S))" "within h1 B1 h' B'"
    using frame [OF h'(2) N1 h'(3)] by blast
  then show ?thesis
    using h'(1) xS T1 within_trans [OF assms(2)] by (auto simp: doc_refines_def)
qed

lemma along_refines:
  assumes "doc_at N h slot B T" and "heap_wf h" and "allocs h" and "N < 2147483648"
  shows "doc_refines (run_along h slot nm nms) (along act (field_key nm) (map field_key nms) T) N h slot B"
  using assms(1-3)
proof (induction nms arbitrary: nm h slot B T)
  case Nil
  then show ?case using refines [OF Nil assms(4)] by (simp add: run_along_def)
next
  case (Cons n ns)
  let ?k = "field_key nm"
  note doc = Cons.prems(1) and wf = Cons.prems(2) and al = Cons.prems(3)
  have stay: "within h B h B" using modifies_refl [OF wf] by (simp add: within_def)
  consider (missing) "T ?k = None" | (node) S1 where "T ?k = Some (Node S1)"
    | (leaf) u where "T ?k = Some (Leaf u)"
    by (metis doc.exhaust not_None_eq)
  then show ?case
  proof cases
    case missing
    obtain h1 vb B1 where new: "msm_object_ensure_object h slot (Some nm) = Inr (Ptr vb 0, h1)"
        "doc_at (grown N) h1 slot B1 (T(?k \<mapsto> Node Map.empty))" "within h B h1 B1"
        "doc_at N h1 (Ptr vb 0) {vb} Map.empty"
        "\<And>N' h' Bc' S'. doc_at N' h' (Ptr vb 0) Bc' S' \<Longrightarrow> grown N \<le> N' \<Longrightarrow> within h1 {vb} h' Bc' \<Longrightarrow>
           \<exists>B'. doc_at N' h' slot B' (T(?k \<mapsto> Node Map.empty, ?k \<mapsto> Node S')) \<and> within h1 B1 h' B'"
      by (rule doc_at_new_child [OF doc wf al assms(4) missing]) blast
    have m1: "modifies h h1 B" using new(3) by (simp add: within_def)
    note IH = Cons.IH [OF new(4) modifies_wf [OF m1] allocs_modifies [OF al m1], of n]
    show ?thesis
      using refines_step [OF new(2,3,5) order_refl fun_upd_upd IH] missing
      by (simp add: run_along_Cons [OF new(1)])
  next
    case node
    obtain vb Bc where ch:
        "\<And>nm'. field_key nm' = ?k \<Longrightarrow> msm_object_ensure_object h slot (Some nm') = Inr (Ptr vb 0, h)"
        "doc_at N h (Ptr vb 0) Bc S1"
        "\<And>N' h' Bc' S'. doc_at N' h' (Ptr vb 0) Bc' S' \<Longrightarrow> N \<le> N' \<Longrightarrow> within h Bc h' Bc' \<Longrightarrow>
           \<exists>B'. doc_at N' h' slot B' (T(?k \<mapsto> Node S')) \<and> within h B h' B'"
      by (rule doc_at_child [OF doc wf node]) blast
    show ?thesis
      using refines_step [OF doc stay ch(3) grown_le refl Cons.IH [OF ch(2) wf al, of n]] node
      by (simp add: run_along_Cons [OF ch(1) [OF refl]])
  next
    case leaf
    then show ?thesis
      using ensure_object_leaf [OF doc leaf]
      by (simp add: run_along_def proxy_index_def object_index_def doc_refines_def)
  qed
qed

end

end
