(* ===== verification/Msm_Document_Props.thy ===== *)
theory Msm_Document_Props
  imports Msm_Document
begin

text \<open>
  Assignments and reads along a path of nested objects, \<^verbatim>\<open>obj["player"]["pos"]["x"] = 10.0\<close>: each is an
  instance of \<open>document_action\<close>, so it refines the corresponding change of the tree, at any depth.
\<close>

section \<open>What a program assigns and reads\<close>

text \<open>The native values of the overloads of \<^verbatim>\<open>object_proxy::operator=\<close>, and of the explicit getters. A
  string is the bytes before the NUL of the caller's.\<close>

datatype native = NInt32 u32 | NInt64 u64 | NFloat64 u64 | NBool bool | NString "u8 list"

datatype native_kind = KInt32 | KInt64 | KFloat64 | KBool | KString

fun kind_of :: "native \<Rightarrow> native_kind" where
  "kind_of (NInt32 _) = KInt32"
| "kind_of (NInt64 _) = KInt64"
| "kind_of (NFloat64 _) = KFloat64"
| "kind_of (NBool _) = KBool"
| "kind_of (NString _) = KString"

fun proxy_assign :: "heap \<Rightarrow> object_proxy \<Rightarrow> native \<Rightarrow> heap res" where
  "proxy_assign h p (NInt32 x) = proxy_assign_int32 h p x"
| "proxy_assign h p (NInt64 x) = proxy_assign_int64 h p x"
| "proxy_assign h p (NFloat64 x) = proxy_assign_float64 h p x"
| "proxy_assign h p (NBool x) = proxy_assign_bool h p x"
| "proxy_assign h p (NString s) = proxy_assign_string h p (Some s)"

fun proxy_read :: "native_kind \<Rightarrow> heap \<Rightarrow> object_proxy \<Rightarrow> (native \<times> heap) res" where
  "proxy_read KInt32 h p = bindE (proxy_as_int32 h p) (\<lambda>x. Inr (NInt32 x, h))"
| "proxy_read KInt64 h p = bindE (proxy_as_int64 h p) (\<lambda>x. Inr (NInt64 x, h))"
| "proxy_read KFloat64 h p = bindE (proxy_as_float64 h p) (\<lambda>x. Inr (NFloat64 x, h))"
| "proxy_read KBool h p = bindE (proxy_as_bool h p) (\<lambda>x. Inr (NBool x, h))"
| "proxy_read KString h p =
     bindE (proxy_as_string h p) (\<lambda>r. bindE (read_cstr h r) (\<lambda>s. Inr (NString s, h)))"

text \<open>The same on the document: the value that is stored, what a getter makes of a field, and the two
  actions at the end of a path.\<close>

fun native_value :: "native \<Rightarrow> obj_value" where
  "native_value (NInt32 x) = VInt32 x"
| "native_value (NInt64 x) = VInt64 x"
| "native_value (NFloat64 x) = VFloat64 x"
| "native_value (NBool x) = VBool x"
| "native_value (NString s) = VString (takeWhile (\<lambda>c. c \<noteq> 0) s)"

fun native_fits :: "native \<Rightarrow> bool" where
  "native_fits (NString s) = (c_strlen s < 4294967295)"
| "native_fits _ = True"

fun doc_value :: "native_kind \<Rightarrow> doc option \<Rightarrow> native" where
  "doc_value KInt32 d = NInt32 (case d of Some (Leaf (VInt32 x)) \<Rightarrow> x | _ \<Rightarrow> 0)"
| "doc_value KInt64 d = NInt64 (case d of Some (Leaf (VInt64 x)) \<Rightarrow> x | _ \<Rightarrow> 0)"
| "doc_value KFloat64 d = NFloat64 (case d of Some (Leaf (VFloat64 x)) \<Rightarrow> x | _ \<Rightarrow> 0)"
| "doc_value KBool d = NBool (case d of Some (Leaf (VBool x)) \<Rightarrow> x | _ \<Rightarrow> False)"
| "doc_value KString d = NString (case d of Some (Leaf (VString s)) \<Rightarrow> takeWhile (\<lambda>c. c \<noteq> 0) s | _ \<Rightarrow> [])"

definition doc_put :: "obj_value \<Rightarrow> u64 \<Rightarrow> doc_map \<Rightarrow> (unit \<times> doc_map) option" where
  "doc_put v k T =
     (case T k of
        None \<Rightarrow> Some ((), T(k \<mapsto> Leaf v))
      | Some (Leaf u) \<Rightarrow> if value_type u = value_type v then Some ((), T(k \<mapsto> Leaf v)) else None
      | Some (Node S) \<Rightarrow> None)"

definition doc_read :: "native_kind \<Rightarrow> u64 \<Rightarrow> doc_map \<Rightarrow> (native \<times> doc_map) option" where
  "doc_read kd k T = Some (doc_value kd (T k), T)"

section \<open>Assignments\<close>

lemma doc_object_at:
  assumes "doc_at N h slot B T"
  obtains cap S M B0 where "object_at h slot cap M B0" and "T = doc_tree S M"
proof -
  obtain cap fs B0 S where "object_fs h slot cap fs B0" "T = doc_tree S (fields_map fs)"
    using assms by (rule doc_atE) (use doc_parts_root(1) in blast)
  then show ?thesis by (intro that) (auto simp: object_at_def)
qed

lemma assign_action:
  assumes w: "field_writer wr v (\<lambda>_. True)" and v: "\<And>q. v \<noteq> VObject q"
    and run: "\<And>h slot nm. slot \<noteq> Null \<Longrightarrow> run h (object_index slot (Some nm)) =
      bindE (set_scheme (value_type v) (of_nat (value_size v)) wr h slot (field_key nm)) (\<lambda>(s, h1). Inr ((), h1))"
  shows "document_action run (doc_put v)"
proof
  fix N h slot B T nm
  assume doc: "doc_at N h slot B T" and wf: "heap_wf h" and al: "allocs h" and N: "N < 2147483648"
  let ?k = "field_key nm"
  note run = run [OF doc_at_root(1) [OF doc], of h nm]
  have put: "doc_of_value v = Leaf v" using v by (cases v) (auto simp: doc_of_value_def)
  have mism: "run h (object_index slot (Some nm)) = Inl (Abort TypeMismatch)"
    if bad: "\<And>S M. T = doc_tree S M \<Longrightarrow> \<exists>u. M ?k = Some u \<and> value_type u \<noteq> value_type v"
  proof -
    obtain cap S M B0 where M: "object_at h slot cap M B0" "T = doc_tree S M"
      by (rule doc_object_at [OF doc])
    then show ?thesis using bad [OF M(2)] field_writer.set_mismatch [OF w M(1)] run by auto
  qed
  consider (missing) "T ?k = None" | (same) u where "T ?k = Some (Leaf u)" "value_type u = value_type v"
    | (other) u where "T ?k = Some (Leaf u)" "value_type u \<noteq> value_type v"
    | (node) S1 where "T ?k = Some (Node S1)"
    by (metis doc.exhaust not_None_eq)
  then show "doc_refines (run h (object_index slot (Some nm))) (doc_put v ?k T) N h slot B"
  proof cases
    case missing
    obtain h' vb B' where "set_scheme (value_type v) (of_nat (value_size v)) wr h slot ?k = Inr (Some (Ptr vb 0), h')"
        "doc_at (grown N) h' slot B' (T(?k \<mapsto> doc_of_value v))" "within h B h' B'"
      by (rule doc_at_new [OF w doc wf al N missing]) (use v in blast)+
    then show ?thesis using missing by (auto simp: run doc_refines_def doc_put_def put)
  next
    case same
    obtain h' vb B' where "set_scheme (value_type v) (of_nat (value_size v)) wr h slot ?k = Inr (Some (Ptr vb 0), h')"
        "doc_at N h' slot B' (T(?k \<mapsto> doc_of_value v))" "within h B h' B'"
      by (rule doc_at_overwrite [OF w doc wf al same TrueI]) blast
    then show ?thesis
      using same doc_at_mono [OF _ grown_le] by (fastforce simp: run doc_refines_def doc_put_def put)
  next
    case other
    then have "run h (object_index slot (Some nm)) = Inl (Abort TypeMismatch)"
      by (intro mism) (auto simp: doc_tree_Leaf)
    then show ?thesis using other by (simp add: doc_refines_def doc_put_def)
  next
    case node
    have "value_type (VObject q) \<noteq> value_type v" for q using v by (cases v) (auto simp: type_ids)
    then have "run h (object_index slot (Some nm)) = Inl (Abort TypeMismatch)"
      using node by (intro mism) (auto simp: doc_tree_Node)
    then show ?thesis using node by (simp add: doc_refines_def doc_put_def)
  qed
qed

abbreviation assign :: "native \<Rightarrow> heap \<Rightarrow> object_proxy \<Rightarrow> (unit \<times> heap) res" where
  "assign n h p \<equiv> bindE (proxy_assign h p n) (\<lambda>h1. Inr ((), h1))"

lemma drop_status_of:
  "bindE (drop_status (bindE m status_of)) (\<lambda>h1. Inr ((), h1)) = bindE m (\<lambda>(s, h1). Inr ((), h1))"
  by (cases m) (auto simp: drop_status_def)

interpretation assign_int32: document_action "assign (NInt32 x)" "doc_put (VInt32 x)" for x
  by (rule assign_action [OF w_int32.field_writer_axioms])
    (simp_all add: proxy_assign_int32_def object_index_def set_int32_scheme drop_status_of)

interpretation assign_int64: document_action "assign (NInt64 x)" "doc_put (VInt64 x)" for x
  by (rule assign_action [OF w_int64.field_writer_axioms])
    (simp_all add: proxy_assign_int64_def object_index_def set_int64_scheme drop_status_of)

interpretation assign_float64: document_action "assign (NFloat64 x)" "doc_put (VFloat64 x)" for x
  by (rule assign_action [OF w_float64.field_writer_axioms])
    (simp_all add: proxy_assign_float64_def object_index_def set_float64_scheme drop_status_of)

interpretation assign_bool: document_action "assign (NBool x)" "doc_put (VBool x)" for x
  using assign_action [OF w_bool.field_writer_axioms [of "if x then 1 else 0"], of "assign (NBool x)"]
  by (cases x) (simp_all add: proxy_assign_bool_def object_index_def set_bool_scheme drop_status_of)

lemma assign_string_action:
  assumes "c_strlen s < 4294967295"
  shows "document_action (assign (NString s)) (doc_put (native_value (NString s)))"
proof -
  let ?len = "of_nat (c_strlen s) :: u32"
  have un: "unat ?len = c_strlen s" using assms by (simp add: unat_of_nat)
  have "?len \<noteq> - 1" using un assms unat_minus_1_u32 by (metis less_irrefl)
  moreover have le: "c_strlen s \<le> length s" by (simp add: c_strlen_def length_takeWhile_le)
  ultimately have ok: "string_arg_ok (Some s) ?len" by (simp add: string_arg_ok_def un)
  have "string_arg (Some s) ?len = takeWhile (\<lambda>c. c \<noteq> 0) s"
    unfolding string_arg_def un by (simp add: c_strlen_def flip: takeWhile_eq_take)
  then show ?thesis
    using assign_action [OF w_string [OF ok], of "assign (NString s)"]
    by (simp add: proxy_assign_string_def object_index_def set_string_scheme drop_status_of)
qed

lemma assign_native_action: "native_fits n \<Longrightarrow> document_action (assign n) (doc_put (native_value n))"
  using assign_int32.document_action_axioms assign_int64.document_action_axioms
    assign_float64.document_action_axioms assign_bool.document_action_axioms assign_string_action
  by (cases n) simp_all

section \<open>Reads\<close>

text \<open>An action that only reads. Along a path that exists it changes nothing, not even the heap.\<close>

locale document_reader = document_action run act for run :: "heap \<Rightarrow> object_proxy \<Rightarrow> ('r \<times> heap) res" and act +
  assumes run_pure: "run h p = Inr (r, h') \<Longrightarrow> h' = h"
    and act_pure: "act k T = Some (r, T') \<Longrightarrow> T' = T"
begin

lemma along_pure:
  assumes "doc_at N h slot B T" and "heap_wf h" and "allocs h" and "N < 2147483648"
    and "along act (field_key nm) (map field_key nms) T = Some (r, T)"
  shows "run_along h slot nm nms = Inr (r, h)"
  using assms(1,5)
proof (induction nms arbitrary: nm slot B T)
  case Nil
  then show ?case
    using refines [OF Nil(1) assms(2-4), of nm] run_pure
    by (fastforce simp: run_along_def doc_refines_def)
next
  case (Cons n ns)
  let ?k = "field_key nm"
  obtain S1 where S: "T ?k = Some (Node S1)" "along act (field_key n) (map field_key ns) S1 = Some (r, S1)"
    using along_unchanged [OF Cons.prems(2) [unfolded list.map]] by blast
  obtain vb Bc where "msm_object_ensure_object h slot (Some nm) = Inr (Ptr vb 0, h)"
      "doc_at N h (Ptr vb 0) Bc S1"
    by (rule doc_at_child [OF Cons.prems(1) assms(2) S(1)]) blast
  then show ?case using Cons.IH S(2) by (simp add: run_along_Cons)
qed

end

lemma proxy_read_doc:
  assumes "doc_at N h slot B T"
  shows "proxy_read kd h (object_index slot (Some nm)) = Inr (doc_value kd (T (field_key nm)), h)"
proof -
  obtain cap S M B0 where M: "object_at h slot cap M B0" "T = doc_tree S M"
    by (rule doc_object_at [OF assms])
  note g = object_gets [OF M(1), of nm]
  show ?thesis
    using g unfolding M(2)
    by (cases kd) (auto simp: proxy_as_int32_def proxy_as_int64_def proxy_as_float64_def proxy_as_bool_def
        proxy_as_string_def object_index_def doc_tree_def split: option.splits obj_value.splits)
qed

interpretation read: document_reader "proxy_read kd" "doc_read kd" for kd
proof
  fix N h slot B T nm
  assume "doc_at N h slot B T" and "heap_wf h"
  then show "doc_refines (proxy_read kd h (object_index slot (Some nm))) (doc_read kd (field_key nm) T) N h slot B"
    using doc_at_mono [OF _ grown_le] modifies_refl
    by (fastforce simp: proxy_read_doc doc_refines_def doc_read_def within_def)
next
  fix h p r h'
  assume "proxy_read kd h p = Inr (r, h')"
  then show "h' = h" by (cases kd) (auto simp: bindE_eq_Inr)
qed (simp add: doc_read_def)

section \<open>Paths of the document\<close>

lemma along_read_put:
  "along (doc_put v) k ks T = Some (u, T') \<Longrightarrow>
   along (doc_read kd) k ks T' = Some (doc_value kd (Some (Leaf v)), T')"
proof (induction ks arbitrary: k T T')
  case Nil
  then show ?case by (auto simp: doc_put_def doc_read_def split: option.splits doc.splits if_splits)
next
  case (Cons k' ks)
  from Cons.prems obtain S S' where "along (doc_put v) k' ks S = Some (u, S')" "T' = T(k \<mapsto> Node S')"
    by (auto split: option.splits doc.splits)
  then show ?case using Cons.IH by auto
qed

text \<open>What could be read before without creating an object on the way is read after: unless it is
  the path that was assigned.\<close>

lemma along_read_other:
  assumes "along (doc_put v) k ks T = Some (u, T')" and "along (doc_read kd) k' ks' T = Some (r, T)"
    and "k' # ks' \<noteq> k # ks"
  shows "along (doc_read kd) k' ks' T' = Some (r, T')"
  using assms
proof (induction ks arbitrary: k T T' k' ks')
  case Nil
  have T': "T' = T(k \<mapsto> Leaf v)" and Tk: "\<And>S. T k \<noteq> Some (Node S)"
    using Nil.prems(1) by (auto simp: doc_put_def split: option.splits doc.splits if_splits)
  show ?case
  proof (cases ks')
    case Nil
    then show ?thesis using Nil.prems(2,3) T' by (auto simp: doc_read_def)
  next
    case (Cons k'' ks'')
    obtain S where S: "T k' = Some (Node S)" "along (doc_read kd) k'' ks'' S = Some (r, S)"
      using along_unchanged [OF Nil.prems(2) [unfolded Cons]] by blast
    then have "k' \<noteq> k" using Tk by blast
    then show ?thesis using Cons S T' by (auto simp: fun_upd_idem_iff)
  qed
next
  case (Cons k1 ks)
  obtain S S' where put: "along (doc_put v) k1 ks S = Some (u, S')" "T' = T(k \<mapsto> Node S')"
      and S: "T k = None \<and> S = Map.empty \<or> T k = Some (Node S)"
    using Cons.prems(1) by (auto split: option.splits doc.splits)
  show ?case
  proof (cases ks')
    case Nil
    then show ?thesis using Cons.prems(2) put S
      by (cases "k' = k"; cases kd) (auto simp: doc_read_def)
  next
    case (Cons k'' ks'')
    obtain S2 where S2: "T k' = Some (Node S2)" and r2: "along (doc_read kd) k'' ks'' S2 = Some (r, S2)"
      using along_unchanged [OF Cons.prems(2) [unfolded Cons]] by blast
    show ?thesis
    proof (cases "k' = k")
      case True
      then have "S = S2" "k'' # ks'' \<noteq> k1 # ks" using S S2 Cons.prems(3) Cons by auto
      then have "along (doc_read kd) k'' ks'' S' = Some (r, S')"
        using Cons.IH [OF put(1)] r2 by blast
      then show ?thesis using True Cons put(2) by (auto simp: fun_eq_iff)
    next
      case False
      then show ?thesis using Cons put(2) S2 r2 by (auto simp: fun_upd_idem_iff)
    qed
  qed
qed

section \<open>The properties\<close>

text \<open>\<^verbatim>\<open>obj[nm][n1]...[nk] = v\<close>, and reading \<^verbatim>\<open>obj[nm][n1]...[nk]\<close> by an explicit getter.\<close>

definition assign_path :: "heap \<Rightarrow> ptr \<Rightarrow> u8 list \<Rightarrow> u8 list list \<Rightarrow> native \<Rightarrow> (unit \<times> heap) res" where
  "assign_path h slot nm nms v =
     bindE (proxy_chain h (object_index slot (Some nm)) nms) (\<lambda>(p, h1).
     bindE (proxy_assign h1 p v) (\<lambda>h2. Inr ((), h2)))"

definition read_path :: "native_kind \<Rightarrow> heap \<Rightarrow> ptr \<Rightarrow> u8 list \<Rightarrow> u8 list list \<Rightarrow> (native \<times> heap) res" where
  "read_path kd h slot nm nms =
     bindE (proxy_chain h (object_index slot (Some nm)) nms) (\<lambda>(p, h1). proxy_read kd h1 p)"

lemma assign_path_along:
  "document_action (assign v) act \<Longrightarrow> assign_path h slot nm nms v = document_action.run_along (assign v) h slot nm nms"
  by (simp add: assign_path_def document_action.run_along_def)

lemma read_path_along: "read_path kd h slot nm nms = read.run_along kd h slot nm nms"
  by (simp add: read_path_def read.run_along_def)

lemma assign_path_refines:
  assumes "doc_at N h slot B T" and "heap_wf h" and "allocs h" and "N < 2147483648" and "native_fits v"
  shows "doc_refines (assign_path h slot nm nms v)
    (along (doc_put (native_value v)) (field_key nm) (map field_key nms) T) N h slot B"
  using document_action.along_refines [OF assign_native_action [OF assms(5)] assms(1-4)]
    assign_path_along [OF assign_native_action [OF assms(5)]] by simp

lemma read_path_refines:
  assumes "doc_at N h slot B T" and "heap_wf h" and "allocs h" and "N < 2147483648"
  shows "doc_refines (read_path kd h slot nm nms)
    (along (doc_read kd) (field_key nm) (map field_key nms) T) N h slot B"
  using read.along_refines [OF assms] by (simp add: read_path_along)

lemma read_path_pure:
  assumes "doc_at N h slot B T" and "heap_wf h" and "allocs h" and "N < 2147483648"
    and "along (doc_read kd) (field_key nm) (map field_key nms) T = Some (r, T)"
  shows "read_path kd h slot nm nms = Inr (r, h)"
  using read.along_pure [OF assms] by (simp add: read_path_along)

lemma start_heap_doc: "doc_at 0 start_heap (Ptr 0 0) {0} Map.empty"
proof -
  have "slot_holds start_heap (Ptr 0 0) Null"
    using start_heap_object slot_holds_unique by (auto simp: object_at_def object_fs_def fields_map_def object_rep_def)
  then show ?thesis using doc_empty by fastforce
qed

text \<open>Claim C8. Assigning at the end of a chain of brackets, \<^verbatim>\<open>obj["player"]["pos"]["x"] = v\<close>, refines
  the change of the document at that path, for every type of value and any depth: missing objects on
  the way are created, a field on the way that is no object, or a last field of another type, aborts,
  and every other field of every object of the document is as before. Only blocks of the document
  have changed, and new ones have been added.\<close>

theorem document_assign_correct:
  assumes "doc_at N h slot B T" and "heap_wf h" and "allocs h" and "N < 2147483648" and "native_fits v"
  shows "case along (doc_put (native_value v)) (field_key nm) (map field_key nms) T of
      None \<Rightarrow> assign_path h slot nm nms v = Inl (Abort TypeMismatch)
    | Some (u, T') \<Rightarrow> \<exists>h' B'. assign_path h slot nm nms v = Inr (u, h') \<and>
        doc_at (grown N) h' slot B' T' \<and> within h B h' B'"
  using assign_path_refines [OF assms] unfolding doc_refines_def .

theorem document_assign_correct_witness:
  "\<exists>h' B'. assign_path start_heap (Ptr 0 0) hp [hp] (NInt32 7) = Inr ((), h') \<and>
     doc_at 4 h' (Ptr 0 0) B' [field_key hp \<mapsto> Node [field_key hp \<mapsto> Leaf (VInt32 7)]]"
  using document_assign_correct [OF start_heap_doc, of "NInt32 7" hp "[hp]"]
  by (auto simp: doc_put_def grown_def)

text \<open>Claim C17. Reading along a chain of brackets returns the value of the last field, or the default
  of the type. When every object on the way exists, nothing at all changes; but a missing object on
  the way is created, as for an assignment: a read is then a write to the shared object.\<close>

theorem document_read_correct:
  assumes "doc_at N h slot B T" and "heap_wf h" and "allocs h" and "N < 2147483648"
  shows "case along (doc_read kd) (field_key nm) (map field_key nms) T of
      None \<Rightarrow> read_path kd h slot nm nms = Inl (Abort TypeMismatch)
    | Some (r, T') \<Rightarrow> \<exists>h' B'. read_path kd h slot nm nms = Inr (r, h') \<and> (T' = T \<longrightarrow> h' = h) \<and>
        doc_at (grown N) h' slot B' T' \<and> within h B h' B'"
  using read_path_refines [OF assms, of kd nm nms] read_path_pure [OF assms, of kd nm nms]
  by (fastforce simp: doc_refines_def split: option.splits)

theorem document_read_correct_witness:
  "\<exists>h' B'. read_path KInt32 start_heap (Ptr 0 0) hp [hp] = Inr (NInt32 0, h') \<and>
     doc_at 4 h' (Ptr 0 0) B' [field_key hp \<mapsto> Node Map.empty]"
  using document_read_correct [OF start_heap_doc, of KInt32 hp "[hp]"]
  by (auto simp: doc_read_def grown_def)

text \<open>Claim C9. Round trip: after an assignment along a path, reading the same path returns the value
  (of a string, the bytes before its NUL) and changes nothing; and every other path that could be
  read without creating an object is read as before.\<close>

theorem document_roundtrip:
  assumes "doc_at N h slot B T" and "heap_wf h" and "allocs h" and "N < 1073741824" and "native_fits v"
    and "along (doc_put (native_value v)) (field_key nm) (map field_key nms) T = Some (u, T')"
  shows "\<exists>h'. assign_path h slot nm nms v = Inr (u, h') \<and>
    read_path (kind_of v) h' slot nm nms = Inr (case v of NString s \<Rightarrow> NString (takeWhile (\<lambda>c. c \<noteq> 0) s) | _ \<Rightarrow> v, h') \<and>
    (\<forall>kd nm' nms' r. field_key nm' # map field_key nms' \<noteq> field_key nm # map field_key nms \<longrightarrow>
       along (doc_read kd) (field_key nm') (map field_key nms') T = Some (r, T) \<longrightarrow>
       read_path kd h slot nm' nms' = Inr (r, h) \<and> read_path kd h' slot nm' nms' = Inr (r, h'))"
proof -
  have N: "N < 2147483648" "grown N < 2147483648" using assms(4) by (simp_all add: grown_def)
  obtain h' B' where h': "assign_path h slot nm nms v = Inr (u, h')" "doc_at (grown N) h' slot B' T'"
      "within h B h' B'"
    using assign_path_refines [OF assms(1-3) N(1) assms(5), of nm nms] assms(6) by (auto simp: doc_refines_def)
  have m: "modifies h h' B" using h'(3) by (simp add: within_def)
  note read' = read_path_pure [OF h'(2) modifies_wf [OF m] allocs_modifies [OF assms(3) m] N(2)]
  have "doc_value (kind_of v) (Some (Leaf (native_value v))) =
      (case v of NString s \<Rightarrow> NString (takeWhile (\<lambda>c. c \<noteq> 0) s) | _ \<Rightarrow> v)"
    by (cases v) (simp_all add: takeWhile_idem)
  then have "read_path (kind_of v) h' slot nm nms =
      Inr (case v of NString s \<Rightarrow> NString (takeWhile (\<lambda>c. c \<noteq> 0) s) | _ \<Rightarrow> v, h')"
    using read' [OF along_read_put [OF assms(6)]] by simp
  moreover have "read_path kd h slot nm' nms' = Inr (r, h) \<and> read_path kd h' slot nm' nms' = Inr (r, h')"
    if "field_key nm' # map field_key nms' \<noteq> field_key nm # map field_key nms"
      and "along (doc_read kd) (field_key nm') (map field_key nms') T = Some (r, T)" for kd nm' nms' r
    using read_path_pure [OF assms(1-3) N(1) that(2)] read' [OF along_read_other [OF assms(6) that(2,1)]] by simp
  ultimately show ?thesis using h'(1) by blast
qed

theorem document_roundtrip_witness:
  "\<exists>h'. assign_path start_heap (Ptr 0 0) hp [hp] (NInt32 7) = Inr ((), h') \<and>
     read_path KInt32 h' (Ptr 0 0) hp [hp] = Inr (NInt32 7, h')"
  using document_roundtrip [OF start_heap_doc, of "NInt32 7" hp "[hp]" "()"]
  by (auto simp: doc_put_def)

end
