(* ===== verification/Msm_Swmr.thy ===== *)
theory Msm_Swmr
  imports Msm_Heap
begin

text \<open>
  One writer and concurrent readers. The writer's functions are the ones of the C interface; the
  writes they make, one event of the trace each, become visible to the readers one by one. A
  reader is a program of single loads, so that the writer's events may fall between any two of
  them. The theory gives the interleaving semantics, a rely-guarantee rule for readers, and the
  notion of a race-free write; the components instantiate it.

  The interleaving is sequentially consistent. That is what the release and acquire orders of
  the source are for: the rule asks of every write to memory that a reader may access that it is a
  release store to one of the places that readers load with acquire, and such programs have no
  other behaviours.
\<close>

section \<open>Replaying a trace\<close>

fun apply_event :: "event \<Rightarrow> heap \<Rightarrow> heap" where
  "apply_event (Write a b k xs) h = put a b k xs h"
| "apply_event (Alloc b n) h = new_block n h"
| "apply_event (AllocFail n) h = fail_block n h"
| "apply_event (Free b) h = drop_block b h"

fun replay :: "event list \<Rightarrow> heap \<Rightarrow> heap" where
  "replay [] h = h"
| "replay (e # es) h = replay es (apply_event e h)"

text \<open>An event is recorded as it is; the one thing to check is the block that is allocated.\<close>

fun event_ok :: "heap \<Rightarrow> event \<Rightarrow> bool" where
  "event_ok h (Alloc b n) = (b = next_block h)"
| "event_ok h e = True"

lemma trace_apply_event: "event_ok h e \<Longrightarrow> trace (apply_event e h) = trace h @ [e]"
  by (cases e) auto

lemma heap_wf_apply_event [simp]: "heap_wf h \<Longrightarrow> heap_wf (apply_event e h)"
  by (cases e) auto

section \<open>Reader programs\<close>

datatype 'v reader = Return 'v | Fail err | Load ptr nat "cell list \<Rightarrow> 'v reader"

primrec run_reader :: "heap \<Rightarrow> 'v reader \<Rightarrow> 'v res" where
  "run_reader h (Return v) = Inr v"
| "run_reader h (Fail e) = Inl e"
| "run_reader h (Load p n k) =
     (case load_cells h p n of Inl e \<Rightarrow> Inl e | Inr xs \<Rightarrow> run_reader h (k xs))"

primrec bindR :: "'v reader \<Rightarrow> ('v \<Rightarrow> 'w reader) \<Rightarrow> 'w reader" where
  "bindR (Return v) f = f v"
| "bindR (Fail e) f = Fail e"
| "bindR (Load p n k) f = Load p n (\<lambda>xs. bindR (k xs) f)"

fun liftR :: "'v res \<Rightarrow> 'v reader" where
  "liftR (Inl e) = Fail e"
| "liftR (Inr v) = Return v"

definition readR :: "ptr \<Rightarrow> nat \<Rightarrow> cell list reader" where
  "readR p n = Load p n Return"

definition load_wordR :: "ptr \<Rightarrow> nat \<Rightarrow> ('a::len word) reader" where
  "load_wordR p n = bindR (readR p n) (\<lambda>xs. liftR (decode_word xs))"

definition load_ptrR :: "ptr \<Rightarrow> ptr reader" where
  "load_ptrR p = bindR (readR p 8) (\<lambda>xs. liftR (decode_ptr xs))"

definition atomic_load_u32R :: "ptr \<Rightarrow> u32 reader" where
  "atomic_load_u32R p = (if aligned 4 p then load_wordR p 4 else Fail (Fault Misaligned))"

definition atomic_load_ptrR :: "ptr \<Rightarrow> ptr reader" where
  "atomic_load_ptrR p = (if aligned 8 p then load_ptrR p else Fail (Fault Misaligned))"

text \<open>Without interference a reader program is the function it is written after.\<close>

lemma run_bindR [simp]: "run_reader h (bindR m f) = bindE (run_reader h m) (\<lambda>x. run_reader h (f x))"
  by (induction m) (auto split: sum.splits)

lemma run_if [simp]:
  "run_reader h (if c then r else r') = (if c then run_reader h r else run_reader h r')"
  by simp

lemma run_liftR [simp]: "run_reader h (liftR r) = r"
  by (cases r) auto

lemma run_readR [simp]: "run_reader h (readR p n) = load_cells h p n"
  by (simp add: readR_def split: sum.splits)

lemma run_load_ptrR [simp]: "run_reader h (load_ptrR p) = load_ptr h p"
  by (simp add: load_ptrR_def load_ptr_def)

lemma run_load_wordR: "run_reader h (load_wordR p n) = bindE (load_cells h p n) decode_word"
  by (simp add: load_wordR_def)

lemma run_atomic_load_u32R: "run_reader h (atomic_load_u32R p) = atomic_load_u32 h p ord"
  by (simp add: atomic_load_u32R_def atomic_load_u32_def load_u32_def run_load_wordR)

lemma run_atomic_load_ptrR: "run_reader h (atomic_load_ptrR p) = atomic_load_ptr h p ord"
  by (simp add: atomic_load_ptrR_def atomic_load_ptr_def)

lemmas run_acquire [simp] = run_atomic_load_u32R [of _ _ Acquire] run_atomic_load_ptrR [of _ _ Acquire]

section \<open>The interleaving\<close>

text \<open>
  A system is the shared heap, the writes of the current operation of the writer that are still to
  be made, and the rest of each reader's program. As only the writer writes, the trace of an
  operation run at its start is the sequence of writes it makes.
\<close>

record 'v system =
  shared :: heap
  pending :: "event list"
  threads :: "'v reader list"

definition events_of :: "heap \<Rightarrow> heap \<Rightarrow> event list" where
  "events_of h h' = drop (length (trace h)) (trace h')"

inductive swmr_step :: "(heap \<Rightarrow> heap res) set \<Rightarrow> 'v system \<Rightarrow> 'v system \<Rightarrow> bool"
  for ops :: "(heap \<Rightarrow> heap res) set" where
  call: "pending s = [] \<Longrightarrow> f \<in> ops \<Longrightarrow> f (shared s) = Inr h' \<Longrightarrow>
    swmr_step ops s (s\<lparr>pending := events_of (shared s) h'\<rparr>)"
| store: "pending s = e # es \<Longrightarrow>
    swmr_step ops s (s\<lparr>shared := apply_event e (shared s), pending := es\<rparr>)"
| load: "i < length (threads s) \<Longrightarrow> threads s ! i = Load p n k \<Longrightarrow>
    load_cells (shared s) p n = Inr xs \<Longrightarrow>
    swmr_step ops s (s\<lparr>threads := (threads s)[i := k xs]\<rparr>)"
| fault: "i < length (threads s) \<Longrightarrow> threads s ! i = Load p n k \<Longrightarrow>
    load_cells (shared s) p n = Inl e \<Longrightarrow>
    swmr_step ops s (s\<lparr>threads := (threads s)[i := Fail e]\<rparr>)"

inductive_cases swmr_stepE: "swmr_step ops s s'"

abbreviation swmr_run :: "(heap \<Rightarrow> heap res) set \<Rightarrow> 'v system \<Rightarrow> 'v system \<Rightarrow> bool" where
  "swmr_run ops \<equiv> (swmr_step ops)\<^sup>*\<^sup>*"

lemma swmr_run_threads: "swmr_run ops s s' \<Longrightarrow> length (threads s') = length (threads s)"
  by (induction rule: rtranclp_induct) (auto elim: swmr_stepE)

text \<open>The steps of a system with one reader, for building concrete runs.\<close>

lemma run_load:
  "load_cells h p n = Inr xs \<Longrightarrow> swmr_run ops \<lparr>shared = h, pending = es, threads = [k xs]\<rparr> s \<Longrightarrow>
   swmr_run ops \<lparr>shared = h, pending = es, threads = [Load p n k]\<rparr> s"
  using swmr_step.load [of 0 "\<lparr>shared = h, pending = es, threads = [Load p n k]\<rparr>" p n k xs ops]
  by (auto intro: converse_rtranclp_into_rtranclp)

lemma run_call:
  "f \<in> ops \<Longrightarrow> f h = Inr h' \<Longrightarrow>
   swmr_run ops \<lparr>shared = h, pending = events_of h h', threads = ts\<rparr> s \<Longrightarrow>
   swmr_run ops \<lparr>shared = h, pending = [], threads = ts\<rparr> s"
  using swmr_step.call [of "\<lparr>shared = h, pending = [], threads = ts\<rparr>" f ops h']
  by (auto intro: converse_rtranclp_into_rtranclp)

lemma run_store:
  "swmr_run ops \<lparr>shared = apply_event e h, pending = es, threads = ts\<rparr> s \<Longrightarrow>
   swmr_run ops \<lparr>shared = h, pending = e # es, threads = ts\<rparr> s"
  using swmr_step.store [of "\<lparr>shared = h, pending = e # es, threads = ts\<rparr>" e es ops]
  by (auto intro: converse_rtranclp_into_rtranclp)

section \<open>Guarded steps of the writer\<close>

text \<open>\<open>evolves G h h'\<close>: from \<open>h\<close> to \<open>h'\<close> by events each of which \<open>G\<close> allows.\<close>

inductive evolves :: "(heap \<Rightarrow> event \<Rightarrow> bool) \<Rightarrow> heap \<Rightarrow> heap \<Rightarrow> bool"
  for G :: "heap \<Rightarrow> event \<Rightarrow> bool" where
  evolves_refl: "evolves G h h"
| evolves_step: "event_ok h e \<Longrightarrow> G h e \<Longrightarrow> evolves G (apply_event e h) h' \<Longrightarrow> evolves G h h'"

lemma evolves_trans: "evolves G h h1 \<Longrightarrow> evolves G h1 h2 \<Longrightarrow> evolves G h h2"
  by (induction rule: evolves.induct) (auto intro: evolves.intros)

lemma evolves_one: "event_ok h e \<Longrightarrow> G h e \<Longrightarrow> evolves G h (apply_event e h)"
  by (rule evolves_step [OF _ _ evolves_refl])

fun allowed :: "(heap \<Rightarrow> event \<Rightarrow> bool) \<Rightarrow> heap \<Rightarrow> event list \<Rightarrow> bool" where
  "allowed G h [] = True"
| "allowed G h (e # es) = (event_ok h e \<and> G h e \<and> allowed G (apply_event e h) es)"

lemma evolves_allowed:
  "evolves G h h' \<Longrightarrow> trace h' = trace h @ events_of h h' \<and> allowed G h (events_of h h') \<and>
     replay (events_of h h') h = h'"
proof (induction rule: evolves.induct)
  case (evolves_refl h)
  then show ?case by (simp add: events_of_def)
next
  case (evolves_step h e h')
  then have "trace h' = trace h @ e # events_of (apply_event e h) h'"
    by (simp add: trace_apply_event)
  moreover from this have "events_of h h' = e # events_of (apply_event e h) h'"
    by (metis append_eq_conv_conj events_of_def)
  ultimately show ?case using evolves_step by simp
qed

text \<open>Every state between two such states is the replay of a part of the trace between them, so
  a state named by \<open>evolves G h h1\<close> and \<open>evolves G h1 h2\<close> is one the run went through.\<close>

lemma evolves_between:
  assumes "evolves G h h1" and "evolves G h1 h2"
  shows "\<exists>es1 es2. events_of h h2 = es1 @ es2 \<and> h1 = replay es1 h"
proof -
  have "events_of h h2 = events_of h h1 @ events_of h1 h2"
    using evolves_allowed [OF assms(1)] evolves_allowed [OF assms(2)]
    by (metis append_assoc append_eq_conv_conj events_of_def)
  then show ?thesis using evolves_allowed [OF assms(1)] by metis
qed

text \<open>Concrete runs: an operation of the writer without readers between its writes, and a reader
  that is not disturbed.\<close>

lemma run_stores:
  "allowed G h es \<Longrightarrow>
   swmr_run ops \<lparr>shared = h, pending = es, threads = ts\<rparr> \<lparr>shared = replay es h, pending = [], threads = ts\<rparr>"
  by (induction es arbitrary: h) (auto intro: run_store simp del: apply_event.simps)

lemma run_operation:
  assumes "f \<in> ops" and "f h = Inr h'" and "evolves G h h'"
  shows "swmr_run ops \<lparr>shared = h, pending = [], threads = ts\<rparr> \<lparr>shared = h', pending = [], threads = ts\<rparr>"
  using run_call [OF assms(1,2)] run_stores evolves_allowed [OF assms(3)] by metis

lemma run_undisturbed:
  "run_reader h r = Inr v \<Longrightarrow>
   swmr_run ops \<lparr>shared = h, pending = es, threads = [r]\<rparr> \<lparr>shared = h, pending = es, threads = [Return v]\<rparr>"
  by (induction r) (auto intro: run_load split: sum.splits)

section \<open>A rule for readers\<close>

text \<open>\<open>reads G r h Q\<close>: started in \<open>h\<close> while the writer makes steps that \<open>G\<close> allows,
  \<open>r\<close> never fails, and what it returns satisfies \<open>Q\<close>, then and later.\<close>

primrec reads :: "(heap \<Rightarrow> event \<Rightarrow> bool) \<Rightarrow> 'v reader \<Rightarrow> heap \<Rightarrow> ('v \<Rightarrow> heap \<Rightarrow> bool) \<Rightarrow> bool" where
  "reads G (Return v) h Q = (\<forall>h'. evolves G h h' \<longrightarrow> Q v h')"
| "reads G (Fail e) h Q = False"
| "reads G (Load p n k) h Q =
     (\<forall>h'. evolves G h h' \<longrightarrow> (\<exists>xs. load_cells h' p n = Inr xs \<and> reads G (k xs) h' Q))"

lemma reads_later: "reads G r h Q \<Longrightarrow> evolves G h h' \<Longrightarrow> reads G r h' Q"
  by (cases r) (auto intro: evolves_trans)

lemma reads_mono: "reads G r h Q \<Longrightarrow> (\<And>v h. Q v h \<Longrightarrow> Q' v h) \<Longrightarrow> reads G r h Q'"
proof (induction r arbitrary: h)
  case (Load p n k)
  then show ?case by (simp, metis rangeI)
qed auto

lemma reads_bindR:
  "reads G m h (\<lambda>v h'. reads G (f v) h' Q) \<Longrightarrow> reads G (bindR m f) h Q"
proof (induction m arbitrary: h)
  case (Return v)
  then show ?case using evolves_refl by fastforce
next
  case (Load p n k)
  then show ?case by (simp, metis rangeI)
qed simp

lemma reads_since:
  "reads G r h Q \<Longrightarrow> evolves G h0 h \<Longrightarrow> reads G r h (\<lambda>v h'. Q v h' \<and> evolves G h0 h')"
proof (induction r arbitrary: h)
  case (Return v)
  then show ?case by (auto intro: evolves_trans)
next
  case (Load p n k)
  show ?case
    unfolding reads.simps
  proof (intro allI impI)
    fix h'
    assume ev: "evolves G h h'"
    then obtain xs where "load_cells h' p n = Inr xs" "reads G (k xs) h' Q" using Load.prems(1) by auto
    moreover have "evolves G h0 h'" using Load.prems(2) ev by (rule evolves_trans)
    ultimately show "\<exists>xs. load_cells h' p n = Inr xs \<and>
        reads G (k xs) h' (\<lambda>v h'. Q v h' \<and> evolves G h0 h')"
      using Load.IH [OF rangeI] by blast
  qed
qed simp

text \<open>One access and the rest of the program.\<close>

lemma reads_return: "(\<And>h'. evolves G h h' \<Longrightarrow> Q v h') \<Longrightarrow> reads G (Return v) h Q"
  by simp

lemma reads_liftR: "r = Inr v \<Longrightarrow> reads G (f v) h Q \<Longrightarrow> reads G (bindR (liftR r) f) h Q"
  by simp

lemma bindR_assoc: "bindR (bindR m f) g = bindR m (\<lambda>x. bindR (f x) g)"
  by (induction m) auto

lemma reads_cells:
  assumes "\<And>h'. evolves G h h' \<Longrightarrow> \<exists>xs. load_cells h' p n = Inr xs \<and> reads G (f xs) h' Q"
  shows "reads G (bindR (readR p n) f) h Q"
  using assms by (simp add: readR_def)

lemma reads_word:
  assumes "\<And>h'. evolves G h h' \<Longrightarrow>
    \<exists>v. bindE (load_cells h' p n) decode_word = Inr v \<and> reads G (f v) h' Q"
  shows "reads G (bindR (load_wordR p n) f) h Q"
  unfolding load_wordR_def bindR_assoc
proof (rule reads_cells)
  fix h'
  assume "evolves G h h'"
  from assms [OF this] show "\<exists>xs. load_cells h' p n = Inr xs \<and> reads G (bindR (liftR (decode_word xs)) f) h' Q"
    by (auto simp: bindE_eq_Inr)
qed

lemma reads_ptr:
  assumes "\<And>h'. evolves G h h' \<Longrightarrow> \<exists>q. load_ptr h' p = Inr q \<and> reads G (f q) h' Q"
  shows "reads G (bindR (load_ptrR p) f) h Q"
  unfolding load_ptrR_def bindR_assoc
proof (rule reads_cells)
  fix h'
  assume "evolves G h h'"
  from assms [OF this] show "\<exists>xs. load_cells h' p 8 = Inr xs \<and> reads G (bindR (liftR (decode_ptr xs)) f) h' Q"
    by (auto simp: load_ptr_def bindE_eq_Inr)
qed

lemma reads_atomic_ptr:
  assumes "\<And>h'. evolves G h h' \<Longrightarrow> \<exists>q. atomic_load_ptr h' p ord = Inr q \<and> reads G (f q) h' Q"
  shows "reads G (bindR (atomic_load_ptrR p) f) h Q"
proof (cases "aligned 8 p")
  case True
  then show ?thesis
    using assms by (simp add: atomic_load_ptrR_def atomic_load_ptr_def reads_ptr)
next
  case False
  then show ?thesis using assms [OF evolves_refl] by (simp add: atomic_load_ptr_def)
qed

lemma reads_atomic_u32:
  assumes "\<And>h'. evolves G h h' \<Longrightarrow> \<exists>v. atomic_load_u32 h' p ord = Inr v \<and> reads G (f v) h' Q"
  shows "reads G (bindR (atomic_load_u32R p) f) h Q"
proof (cases "aligned 4 p")
  case True
  then show ?thesis
    using assms by (simp add: atomic_load_u32R_def atomic_load_u32_def load_u32_def reads_word)
next
  case False
  then show ?thesis using assms [OF evolves_refl] by (simp add: atomic_load_u32_def)
qed

text \<open>In particular the reader finishes when it is not disturbed.\<close>

lemma reads_run: "reads G r h Q \<Longrightarrow> \<exists>v. run_reader h r = Inr v \<and> Q v h"
proof (induction r arbitrary: h)
  case (Load p n k)
  then show ?case using evolves_refl [of G h] by fastforce
qed (use evolves_refl in auto)

lemma bindR_Return [simp]: "bindR m Return = m"
  by (induction m) auto

section \<open>The contract of a shared data structure\<close>

text \<open>
  What the components provide: an invariant and a guarantee that each operation of the writer
  obeys at every one of its writes. The locale turns it into a statement on all interleavings.
  Between two operations more may hold than at every moment: that is \<open>rest\<close>.
\<close>

locale swmr_resting =
  fixes ops :: "(heap \<Rightarrow> heap res) set"
    and rest :: "heap \<Rightarrow> bool"
    and inv :: "heap \<Rightarrow> bool"
    and guar :: "heap \<Rightarrow> event \<Rightarrow> bool"
  assumes rest_inv: "rest h \<Longrightarrow> inv h"
    and guar_keeps_inv: "inv h \<Longrightarrow> guar h e \<Longrightarrow> inv (apply_event e h)"
    and ops_rest: "f \<in> ops \<Longrightarrow> rest h \<Longrightarrow> f h = Inr h' \<Longrightarrow> evolves guar h h' \<and> rest h'"
begin

lemma evolves_inv: "evolves guar h h' \<Longrightarrow> inv h \<Longrightarrow> inv h'"
  by (induction rule: evolves.induct) (auto intro: guar_keeps_inv)

definition consistent :: "'v system \<Rightarrow> bool" where
  "consistent s \<longleftrightarrow> inv (shared s) \<and> allowed guar (shared s) (pending s) \<and>
     rest (replay (pending s) (shared s))"

definition on_course :: "(nat \<Rightarrow> 'v \<Rightarrow> heap \<Rightarrow> bool) \<Rightarrow> 'v system \<Rightarrow> bool" where
  "on_course Q s \<longleftrightarrow> (\<forall>i < length (threads s). reads guar (threads s ! i) (shared s) (Q i))"

lemma call_consistent:
  assumes "consistent s" and "pending s = []" and "f \<in> ops" and "f (shared s) = Inr h'"
  shows "consistent (s\<lparr>pending := events_of (shared s) h'\<rparr>)"
  using assms ops_rest [of f "shared s" h'] evolves_allowed [of guar "shared s" h']
  by (simp add: consistent_def)

lemma store_consistent:
  assumes "consistent s" and "pending s = e # es"
  shows "consistent (s\<lparr>shared := apply_event e (shared s), pending := es\<rparr>)"
    and "evolves guar (shared s) (apply_event e (shared s))"
  using assms guar_keeps_inv by (auto simp: consistent_def intro: evolves_one)

text \<open>Along a run the heap evolves, what is pending is allowed, and the readers stay on course.\<close>

lemma step_consistent:
  assumes "swmr_step ops s s'" and "consistent s"
  shows "consistent s' \<and> evolves guar (shared s) (shared s')"
  using assms
proof (cases rule: swmr_step.cases)
  case (call f h')
  then show ?thesis using assms call_consistent by (simp add: evolves_refl)
next
  case (store e es)
  then show ?thesis using store_consistent [OF assms(2) store(2)] by simp
qed (auto simp: consistent_def evolves_refl)

lemma step_invariant:
  assumes "swmr_step ops s s'" and "consistent s" and "on_course Q s"
  shows "consistent s' \<and> on_course Q s' \<and> evolves guar (shared s) (shared s')"
proof -
  note c = step_consistent [OF assms(1,2)]
  from assms(1) have "on_course Q s'"
  proof (cases rule: swmr_step.cases)
    case (load i p n k xs)
    then have "reads guar (k xs) (shared s) (Q i)"
      using assms(3) evolves_refl [of guar "shared s"] by (fastforce simp: on_course_def)
    then show ?thesis using assms(3) load by (auto simp: on_course_def nth_list_update)
  next
    case (fault i p n k e)
    then show ?thesis
      using assms(3) evolves_refl [of guar "shared s"] by (fastforce simp: on_course_def)
  next
    case (store e es)
    then show ?thesis using assms(3) c reads_later unfolding on_course_def by fastforce
  qed (use assms(3) in \<open>simp add: on_course_def\<close>)
  then show ?thesis using c by simp
qed

lemma run_invariant:
  assumes "swmr_run ops s s'" and "consistent s" and "on_course Q s"
  shows "consistent s' \<and> on_course Q s' \<and> evolves guar (shared s) (shared s')"
  using assms(1)
proof (induction rule: rtranclp_induct)
  case base
  then show ?case using assms(2,3) by (simp add: evolves_refl)
next
  case (step y z)
  then show ?case using step_invariant evolves_trans by blast
qed

text \<open>Before the readers start, the writer may have run for any time, and may be within an
  operation.\<close>

lemma writer_consistent:
  "rest h \<Longrightarrow> swmr_run ops \<lparr>shared = h, pending = [], threads = []\<rparr> s \<Longrightarrow>
   consistent s \<and> evolves guar h (shared s)"
  using run_invariant [of "\<lparr>shared = h, pending = [], threads = []\<rparr>" s] rest_inv
  by (simp add: consistent_def on_course_def)

lemma readers_correct:
  assumes "rest h" and "swmr_run ops \<lparr>shared = h, pending = [], threads = []\<rparr> s0"
    and "swmr_run ops (s0\<lparr>threads := rs\<rparr>) s"
    and "\<And>i. i < length rs \<Longrightarrow> reads guar (rs ! i) (shared s0) (Q i)"
    and "i < length (threads s)"
  shows "threads s ! i \<noteq> Fail e"
    and "threads s ! i = Return v \<Longrightarrow> Q i v (shared s)"
    and "inv (shared s)" and "evolves guar (shared s0) (shared s)"
proof -
  have "consistent (s0\<lparr>threads := rs\<rparr>)" "on_course Q (s0\<lparr>threads := rs\<rparr>)"
    using writer_consistent [OF assms(1,2)] assms(4) by (simp_all add: consistent_def on_course_def)
  then have "consistent s" "on_course Q s" "evolves guar (shared s0) (shared s)"
    using run_invariant [OF assms(3)] by auto
  then show "threads s ! i \<noteq> Fail e" "threads s ! i = Return v \<Longrightarrow> Q i v (shared s)"
    "inv (shared s)" "evolves guar (shared s0) (shared s)"
    using assms(5) evolves_refl [of guar "shared s"]
    by (auto simp: on_course_def consistent_def)
qed

lemma next_write_guarded:
  assumes "rest h" and "swmr_run ops \<lparr>shared = h, pending = [], threads = []\<rparr> s"
    and "pending s = e # es"
  shows "inv (shared s) \<and> guar (shared s) e"
  using writer_consistent [OF assms(1,2)] assms(3) by (simp add: consistent_def)

end

text \<open>When the invariant holds at every moment, also within an operation.\<close>

locale swmr =
  fixes ops :: "(heap \<Rightarrow> heap res) set"
    and inv :: "heap \<Rightarrow> bool"
    and guar :: "heap \<Rightarrow> event \<Rightarrow> bool"
  assumes guar_inv: "inv h \<Longrightarrow> guar h e \<Longrightarrow> inv (apply_event e h)"
    and ops_evolve: "f \<in> ops \<Longrightarrow> inv h \<Longrightarrow> f h = Inr h' \<Longrightarrow> evolves guar h h'"
begin

lemma evolves_keeps: "evolves guar h h' \<Longrightarrow> inv h \<Longrightarrow> inv h'"
  by (induction rule: evolves.induct) (auto intro: guar_inv)

end

sublocale swmr \<subseteq> swmr_resting ops inv inv guar
  by unfold_locales (auto intro: guar_inv ops_evolve evolves_keeps)

section \<open>Publishing through a slot\<close>

text \<open>The blocks whose address has been stored in the slot, since the block it lies in was given out:
  a reader may hold any of them, also after the slot has moved on (policy G2).\<close>

fun stored :: "ptr \<Rightarrow> nat set \<Rightarrow> event \<Rightarrow> nat set" where
  "stored slot B (Write a b k xs) =
     (if b = blk slot \<and> k = off slot + 8 then B \<union> {c. xs = ptr_cells (Ptr c 0)} else B)"
| "stored slot B (Alloc b n) = (if b = blk slot then {} else B)"
| "stored slot B e = B"

definition published :: "ptr \<Rightarrow> heap \<Rightarrow> nat set" where
  "published slot h = foldl (stored slot) {} (trace h)"

lemma published_event: "event_ok h e \<Longrightarrow> published slot (apply_event e h) = stored slot (published slot h) e"
  by (simp add: published_def trace_apply_event)

lemma published_apply_event:
  assumes "event_ok h e" and "blk slot < next_block h \<or> (\<forall>n. e \<noteq> Alloc (blk slot) n)"
  shows "published slot (apply_event e h) = published slot h \<union>
     {b. \<exists>a. e = Write a (blk slot) (off slot + 8) (ptr_cells (Ptr b 0))}"
proof -
  have "stored slot (published slot h) e = published slot h \<union>
      {b. \<exists>a. e = Write a (blk slot) (off slot + 8) (ptr_cells (Ptr b 0))}"
    using assms by (cases e) auto
  then show ?thesis using published_event [OF assms(1)] by simp
qed

lemma published_new_trace [simp]: "trace h = [] \<Longrightarrow> published slot h = {}"
  by (simp add: published_def)

lemma published_new_block [simp]:
  "published slot (new_block n h) = (if blk slot = next_block h then {} else published slot h)"
  by (simp add: published_def)

text \<open>
  A write is free of races when it touches no byte that readers load plainly, and meets a place
  that readers load atomically (block, offset, width) only as a release store of that very place.
  Freeing a block touches all of it.
\<close>

fun touches :: "event \<Rightarrow> nat \<Rightarrow> nat \<Rightarrow> bool" where
  "touches (Write a b k xs) c j = (b = c \<and> k \<le> j \<and> j < k + length xs)"
| "touches (Free b) c j = (b = c)"
| "touches e c j = False"

definition race_free ::
    "(nat \<Rightarrow> nat \<Rightarrow> bool) \<Rightarrow> (nat \<times> nat \<times> nat) set \<Rightarrow> event \<Rightarrow> bool" where
  "race_free plain sync e \<longleftrightarrow> (\<forall>b j. plain b j \<longrightarrow> \<not> touches e b j) \<and>
     (\<forall>(b, k, w) \<in> sync. (\<exists>j. k \<le> j \<and> j < k + w \<and> touches e b j) \<longrightarrow>
        (\<exists>xs. e = Write (Atomic Release) b k xs \<and> length xs = w))"

lemma race_freeI:
  assumes "\<And>b j. plain b j \<Longrightarrow> touches e b j \<Longrightarrow> False"
    and "\<And>b k w j. (b, k, w) \<in> sync \<Longrightarrow> k \<le> j \<Longrightarrow> j < k + w \<Longrightarrow> touches e b j \<Longrightarrow>
      \<exists>xs. e = Write (Atomic Release) b k xs \<and> length xs = w"
  shows "race_free plain sync e"
  using assms by (fastforce simp: race_free_def)

section \<open>Building a buffer in private\<close>

text \<open>Events that only concern a new block, and the accesses that make them.\<close>

fun fresh_event :: "nat \<Rightarrow> event \<Rightarrow> bool" where
  "fresh_event nb (Write a b k xs) = (b = nb)"
| "fresh_event nb (Alloc b n) = (b = nb)"
| "fresh_event nb (AllocFail n) = True"
| "fresh_event nb (Free b) = False"

abbreviation builds_at :: "nat \<Rightarrow> heap \<Rightarrow> heap \<Rightarrow> bool" where
  "builds_at nb \<equiv> evolves (\<lambda>_. fresh_event nb)"

lemma builds_at_store: "store_cells a h (Ptr nb k) xs = Inr h' \<Longrightarrow> builds_at nb h h'"
  using evolves_one [of h "Write a nb k xs" "\<lambda>_. fresh_event nb"]
  by (auto elim!: store_cells_InrD)

lemma builds_at_memset: "memset h (Ptr nb k) v n = Inr h' \<Longrightarrow> builds_at nb h h'"
  by (simp add: memset_def builds_at_store)

lemma builds_at_memcpy: "memcpy h (Ptr nb k) q n = Inr h' \<Longrightarrow> builds_at nb h h'"
  by (auto simp: memcpy_def bindE_eq_Inr builds_at_store split: if_splits)

lemma builds_at_store_u32: "atomic_store_u32 h (Ptr nb k) v ord = Inr h' \<Longrightarrow> builds_at nb h h'"
  by (auto simp: atomic_store_u32_def builds_at_store split: if_splits)

lemma builds_at_malloc: "malloc h n = (p, h') \<Longrightarrow> builds_at (next_block h) h h'"
  using evolves_one [of h "Alloc (next_block h) n" "\<lambda>_. fresh_event (next_block h)"]
    evolves_one [of h "AllocFail n" "\<lambda>_. fresh_event (next_block h)"]
  by (auto simp: malloc_def split: if_splits)

lemma builds_at_new: "builds_at (next_block h) h (new_block n h)"
  using evolves_one [of h "Alloc (next_block h) n" "\<lambda>_. fresh_event (next_block h)"] by simp

lemma published_fresh:
  assumes "event_ok h e" and "fresh_event nb e" and "nb \<noteq> blk slot"
  shows "published slot (apply_event e h) = published slot h"
proof -
  have "stored slot (published slot h) e = published slot h" using assms(2,3) by (cases e) auto
  then show ?thesis using published_event [OF assms(1)] by simp
qed

text \<open>A new block whose header is written, zeroed first or not, and copied into.\<close>

lemma build_header:
  assumes "h1 = new_block m h \<or> memset (new_block m h) (Ptr (next_block h) 0) v m' = Inr h1"
    and "atomic_store_u32 h1 (Ptr (next_block h) 0) n ord = Inr h2"
    and "atomic_store_u32 h2 (Ptr (next_block h) 4) c ord' = Inr h3"
  shows "builds_at (next_block h) h h3"
proof -
  have "builds_at (next_block h) h h1"
    using assms(1) builds_at_new [of h m] builds_at_memset evolves_trans by blast
  then show ?thesis
    using builds_at_store_u32 [OF assms(2)] builds_at_store_u32 [OF assms(3)] evolves_trans by blast
qed

lemma build_copy: "builds_at nb h h3 \<Longrightarrow> memcpy h3 (Ptr nb k) q m = Inr h4 \<Longrightarrow> builds_at nb h h4"
  using builds_at_memcpy evolves_trans by blast

lemma build_store: "builds_at nb h h3 \<Longrightarrow> store_cells a h3 (Ptr nb k) xs = Inr h4 \<Longrightarrow> builds_at nb h h4"
  using builds_at_store evolves_trans by blast

lemma evolves_weaken:
  assumes "evolves G h h'" and "I h"
    and "\<And>h e. I h \<Longrightarrow> event_ok h e \<Longrightarrow> G h e \<Longrightarrow> G' h e \<and> I (apply_event e h)"
  shows "evolves G' h h' \<and> I h'"
  using assms(1,2)
proof (induction rule: evolves.induct)
  case (evolves_refl h)
  then show ?case by (simp add: evolves.evolves_refl)
next
  case (evolves_step h e h')
  then show ?case using assms(3) evolves.evolves_step by blast
qed

lemma builds_at_frame:
  assumes "builds_at nb h h'" and "nb \<noteq> blk slot"
  shows "c \<noteq> nb \<Longrightarrow> blocks h' c = blocks h c" and "published slot h' = published slot h"
    and "heap_wf h \<Longrightarrow> heap_wf h'" and "next_block h \<le> next_block h'"
proof -
  show "blocks h' c = blocks h c" if "c \<noteq> nb"
    using assms(1) by (induction rule: evolves.induct)
      (use that in \<open>auto elim!: fresh_event.elims\<close>)
  show "published slot h' = published slot h"
    using assms(1) by (induction rule: evolves.induct)
      (use assms(2) published_fresh in auto)
  show "heap_wf h \<Longrightarrow> heap_wf h'"
    using assms(1) by (induction rule: evolves.induct) auto
  show "next_block h \<le> next_block h'"
    using assms(1) by (induction rule: evolves.induct) (auto elim!: fresh_event.elims)
qed

lemma store_slot_InrD:
  assumes "atomic_store_ptr h (padd slot 8) q ord = Inr h'"
  shows "h' = apply_event (Write (Atomic ord) (blk slot) (off slot + 8) (ptr_cells q)) h"
  using assms by (cases slot) (auto simp: atomic_store_ptr_def elim!: store_cells_InrD split: if_splits)

section \<open>Keeping off the blocks of others\<close>

text \<open>\<open>avoids F slot e\<close>: of the blocks \<open>F\<close>, which belong to others, the event touches nothing
  but the pointer of the slot, which may share its block with other slots. A writer is confined to its
  own blocks when every event of an operation avoids the blocks of the others that were live when
  the operation started.\<close>

definition avoids :: "nat set \<Rightarrow> ptr \<Rightarrow> event \<Rightarrow> bool" where
  "avoids F slot e \<longleftrightarrow> (\<forall>c \<in> F. \<forall>j. touches e c j \<longrightarrow>
     (\<exists>a xs. e = Write a (blk slot) (off slot + 8) xs \<and> length xs = 8))"

lemma avoids_fresh: "fresh_event nb e \<Longrightarrow> nb \<notin> F \<Longrightarrow> avoids F slot e"
  by (cases e) (auto simp: avoids_def)

lemma avoids_slot: "length xs = 8 \<Longrightarrow> avoids F slot (Write a (blk slot) (off slot + 8) xs)"
  by (simp add: avoids_def)

lemma avoids_block: "b \<notin> F \<Longrightarrow> avoids F slot (Write a b k xs)"
  by (auto simp: avoids_def)

lemma avoids_empty [simp]: "avoids {} slot e"
  by (simp add: avoids_def)

lemma avoids_mono: "avoids F slot e \<Longrightarrow> G \<subseteq> F \<Longrightarrow> avoids G slot e"
  by (auto simp: avoids_def)

lemma next_block_event: "next_block h \<le> next_block (apply_event e h)"
  by (cases e) simp_all

lemma live_later: "F \<subseteq> {..<next_block h} \<Longrightarrow> F \<subseteq> {..<next_block (apply_event e h)}"
  using next_block_event [of h e] by fastforce

text \<open>Two slots do not overlap.\<close>

definition apart :: "ptr \<Rightarrow> ptr \<Rightarrow> bool" where
  "apart p q \<longleftrightarrow> blk p \<noteq> blk q \<or> off p + 16 \<le> off q \<or> off q + 16 \<le> off p"

text \<open>What an event of another writer leaves as it is.\<close>

lemma avoids_blocks:
  assumes "avoids F other e" and "event_ok h e" and "c \<in> F" and "c < next_block h" and "c \<noteq> blk other"
  shows "blocks (apply_event e h) c = blocks h c"
proof (cases e)
  case (Write a b k xs)
  have "b \<noteq> c" if "xs \<noteq> []"
  proof
    assume "b = c"
    then have "touches e c k" using Write that by simp
    then have "\<exists>a xs. e = Write a (blk other) (off other + 8) xs \<and> length xs = 8"
      using assms(1,3) unfolding avoids_def by blast
    then show False using assms(5) Write \<open>b = c\<close> by auto
  qed
  then show ?thesis using Write by (cases "xs = []") (auto simp: blocks_put option.map_ident)
next
  case (Free b)
  then have "\<not> touches e c 0" using assms(1,3) by (auto simp: avoids_def)
  then show ?thesis using Free by auto
qed (use assms(2,4) in auto)

lemma avoids_slot_holds:
  assumes "avoids F other e" and "event_ok h e" and "blk slot \<in> F" and "slot_holds h slot q"
    and "apart slot other" and "heap_wf h"
  shows "slot_holds (apply_event e h) slot q"
proof -
  obtain b k cs where c: "slot = Ptr b k" "k mod 8 = 0" "blocks h b = Some cs" "k + 16 \<le> length cs"
      "piece cs (k + 8) 8 = ptr_cells q"
    using assms(4) by (rule slot_holdsE)
  have live: "b < next_block h" by (rule heap_wf_live [OF assms(6) c(3)])
  have bF: "b \<in> F" using assms(3) c(1) by simp
  show ?thesis
  proof (cases "b = blk other")
    case False
    then have "blocks (apply_event e h) b = blocks h b"
      using avoids_blocks [OF assms(1,2) bF live] by simp
    then show ?thesis using assms(4) c(1) slot_holds_cong [of "apply_event e h" slot h] by simp
  next
    case True
    show ?thesis
    proof (cases "\<exists>j. touches e b j")
      case touched: True
      then obtain a xs where e: "e = Write a b (off other + 8) xs" "length xs = 8"
        using assms(1) bF True by (auto simp: avoids_def)
      have "piece (patch cs (off other + 8) xs) (k + 8) 8 = piece cs (k + 8) 8"
        using assms(5) c(1,4) True e(2) by (intro piece_patch_outside) (auto simp: apart_def)
      moreover have "length cs \<le> length (patch cs (off other + 8) xs)" by (simp add: patch_def)
      ultimately show ?thesis using c e by (auto simp: slot_holds_def blocks_put)
    next
      case False
      then have "blocks (apply_event e h) b = blocks h b"
        using assms(2) live
        by (cases e) (auto simp: blocks_put option.map_ident dest!: spec [of _ "_ :: nat"])
      then show ?thesis using assms(4) c(1) slot_holds_cong [of "apply_event e h" slot h] by simp
    qed
  qed
qed

lemma avoids_slot_iff:
  assumes "avoids F other e" and "event_ok h e" and "blk slot \<in> F" and "slot_holds h slot p"
    and "apart slot other" and "heap_wf h"
  shows "slot_holds (apply_event e h) slot q = slot_holds h slot q"
  using avoids_slot_holds [OF assms(1-3) _ assms(5,6)] assms(4) slot_holds_unique by metis

lemma avoids_published:
  assumes "avoids F other e" and "event_ok h e" and "blk slot \<in> F" and "apart slot other"
    and "blk slot < next_block h"
  shows "published slot (apply_event e h) = published slot h"
proof -
  have "\<not> (e = Write a (blk slot) (off slot + 8) (ptr_cells (Ptr b 0)))" for a b
  proof
    assume e: "e = Write a (blk slot) (off slot + 8) (ptr_cells (Ptr b 0))"
    then have "touches e (blk slot) (off slot + 8)" by simp
    then have "blk slot = blk other \<and> off slot = off other"
      using assms(1,3) e by (fastforce simp: avoids_def)
    then show False using assms(4) by (simp add: apart_def)
  qed
  then show ?thesis using published_apply_event [OF assms(2) disjI1 [OF assms(5)]] by simp
qed

lemma avoids_race_free:
  assumes "avoids F other e" and "insert (blk slot) B \<subseteq> F" and "apart slot other" and "blk other \<notin> B"
    and plain: "\<And>b j. plain b j \<Longrightarrow> b \<in> B"
    and sync: "\<And>b k w. (b, k, w) \<in> sync \<Longrightarrow> b \<in> B \<or> b = blk slot \<and> k = off slot + 8 \<and> w = 8"
  shows "race_free plain sync e"
proof -
  have own: "\<not> touches e c j" if c: "c \<in> B" for c j
    using assms(1,2,4) c unfolding avoids_def by (metis insert_subset subsetD touches.simps(1))
  have "\<not> touches e (blk slot) j" if j: "off slot + 8 \<le> j" "j < off slot + 8 + 8" for j
  proof
    assume t: "touches e (blk slot) j"
    then obtain a xs where "e = Write a (blk other) (off other + 8) xs" "length xs = 8"
      using assms(1,2) unfolding avoids_def by auto
    then show False using t assms(3) j by (auto simp: apart_def)
  qed
  then show ?thesis using own plain sync by (intro race_freeI) blast+
qed

end
