(* ===== verification/Msm_String_Swmr.thy ===== *)
theory Msm_String_Swmr
  imports Msm_String_Props Msm_Swmr
begin

text \<open>
  Strings under one writer and concurrent readers. Every set builds a new buffer and publishes it;
  a buffer that was ever published is never written again. A reader loads the pointer, the length
  from the header, and then the characters one by one up to the NUL.
\<close>

section \<open>The programs\<close>

text \<open>The writer: any sets with as many readable bytes as it says, and clears.\<close>

definition string_writer :: "ptr \<Rightarrow> (heap \<Rightarrow> heap res) set" where
  "string_writer slot =
     {\<lambda>h. msm_string_clear h slot, \<lambda>h. msm_string_set h slot None 0} \<union>
     {\<lambda>h. msm_string_set h slot (Some bs) len | bs len. len \<noteq> - 1 \<and> unat len \<le> length bs}"

definition msm_string_getR :: "ptr \<Rightarrow> cstr_ref reader" where
  "msm_string_getR slot =
     (if slot = Null then Return EmptyLiteral
      else bindR (atomic_load_ptrR (padd slot 8)) (\<lambda>buf.
        if buf = Null then Return EmptyLiteral
        else bindR (atomic_load_u32R buf) (\<lambda>len.
          if len = 0 then Return EmptyLiteral else Return (InHeap (str_buf_data buf)))))"

definition msm_string_lengthR :: "ptr \<Rightarrow> u32 reader" where
  "msm_string_lengthR slot =
     (if slot = Null then Return 0
      else bindR (atomic_load_ptrR (padd slot 8)) (\<lambda>buf.
        if buf = Null then Return 0 else atomic_load_u32R buf))"

text \<open>Reading a C string byte by byte; \<open>fuel\<close> bounds the number of bytes.\<close>

fun read_bytesR :: "nat \<Rightarrow> ptr \<Rightarrow> u8 list reader" where
  "read_bytesR 0 p = Fail (Fault OutOfBounds)"
| "read_bytesR (Suc fuel) p = bindR (readR p 1) (\<lambda>xs.
     case xs of [Byte c] \<Rightarrow> if c = 0 then Return []
         else bindR (read_bytesR fuel (padd p 1)) (\<lambda>s. Return (c # s))
       | _ \<Rightarrow> Fail (Fault BadValue))"

fun read_cstrR :: "cstr_ref \<Rightarrow> u8 list reader" where
  "read_cstrR EmptyLiteral = Return []"
| "read_cstrR (InHeap p) = read_bytesR 4294967296 p"

definition read_stringR :: "ptr \<Rightarrow> u8 list reader" where
  "read_stringR slot = bindR (msm_string_getR slot) read_cstrR"

lemma run_msm_string_getR: "run_reader h (msm_string_getR slot) = msm_string_get h slot"
  by (simp add: msm_string_getR_def msm_string_get_def str_buf_len_def cong: if_cong)

lemma run_msm_string_lengthR: "run_reader h (msm_string_lengthR slot) = msm_string_length h slot"
  by (simp add: msm_string_lengthR_def msm_string_length_def str_buf_len_def cong: if_cong)

section \<open>The shared state\<close>

definition str_buffer :: "ptr \<Rightarrow> heap \<Rightarrow> nat \<Rightarrow> bool" where
  "str_buffer slot h b \<longleftrightarrow> b \<noteq> blk slot \<and> (\<exists>s. s \<noteq> [] \<and> length s < 4294967295 \<and>
     blocks h b = Some (counted (of_nat (length s)) (of_nat (length s + 1)) (map Byte s @ [Byte 0])))"

text \<open>\<open>F\<close> are blocks of others, as for arrays.\<close>

definition str_inv :: "nat set \<Rightarrow> ptr \<Rightarrow> heap \<Rightarrow> bool" where
  "str_inv F slot h \<longleftrightarrow> heap_wf h \<and> F \<inter> published slot h = {} \<and> F \<subseteq> {..<next_block h} \<and>
     (\<exists>q. slot_holds h slot q \<and> (q = Null \<or> q \<in> (\<lambda>b. Ptr b 0) ` published slot h)) \<and>
     (\<forall>b \<in> published slot h. str_buffer slot h b)"

text \<open>Published buffers are immutable, and the writer touches nothing that readers load but the
  pointer of the slot.\<close>

definition str_guar :: "nat set \<Rightarrow> ptr \<Rightarrow> heap \<Rightarrow> event \<Rightarrow> bool" where
  "str_guar F slot h e \<longleftrightarrow> str_inv F slot (apply_event e h) \<and>
     published slot h \<subseteq> published slot (apply_event e h) \<and>
     (\<forall>b \<in> published slot h. blocks (apply_event e h) b = blocks h b) \<and>
     race_free (\<lambda>b j. b \<in> published slot h) {(blk slot, off slot + 8, 8)} e \<and> avoids F slot e"

lemma str_buffer_rep: "string_rep h slot b s \<Longrightarrow> str_buffer slot h b"
  unfolding string_rep_def str_buffer_def by blast

lemma string_at_unique: "string_at h slot s \<Longrightarrow> string_at h slot t \<Longrightarrow> s = t"
  by (auto simp: string_at_def string_rep_def inj_map_eq_map inj_def dest: slot_holds_unique)

lemma str_inv_facts:
  assumes "str_inv F slot h"
  shows "heap_wf h" and "slot \<noteq> Null" and "next_block h \<notin> published slot h" and "next_block h \<noteq> blk slot"
    and "blk slot \<notin> published slot h" and "next_block h \<notin> F"
proof -
  show "heap_wf h" "next_block h \<notin> F" using assms by (auto simp: str_inv_def)
  then show "next_block h \<noteq> blk slot" using assms slot_holds_fresh by (auto simp: str_inv_def)
  show "slot \<noteq> Null" using assms by (auto simp: str_inv_def)
  show "next_block h \<notin> published slot h" "blk slot \<notin> published slot h"
    using assms \<open>heap_wf h\<close> by (fastforce simp: str_inv_def str_buffer_def dest: heap_wf_live)+
qed

lemma str_inv_content:
  assumes "str_inv F slot h"
  obtains "slot_holds h slot Null" and "string_at h slot []"
  | b s where "b \<in> published slot h" and "string_rep h slot b s"
  using assms by (auto simp: str_inv_def str_buffer_def string_rep_def string_at_def)

lemma str_evolves:
  assumes "evolves (str_guar F slot) h h'" and "str_inv F slot h"
  shows "str_inv F slot h' \<and> published slot h \<subseteq> published slot h' \<and>
    (\<forall>b \<in> published slot h. blocks h' b = blocks h b)"
  using assms by (induction rule: evolves.induct) (auto simp: str_guar_def)

text \<open>A heap in which the slot and the published buffers are the same.\<close>

lemma str_inv_frame:
  assumes "str_inv F slot h" and "heap_wf h'" and "published slot h' = published slot h"
    and "\<And>q. slot_holds h' slot q = slot_holds h slot q"
    and "\<And>c. c \<in> published slot h \<Longrightarrow> blocks h' c = blocks h c"
    and "G \<inter> published slot h = {}" and "G \<subseteq> {..<next_block h'}"
  shows "str_inv G slot h'"
  using assms by (auto simp: str_inv_def str_buffer_def)

lemma str_inv_mono: "str_inv F slot h \<Longrightarrow> G \<subseteq> F \<Longrightarrow> str_inv G slot h"
  by (auto simp: str_inv_def)

lemma str_inv_live:
  assumes "str_inv F slot h"
  shows "blk slot < next_block h" and "c \<in> published slot h \<Longrightarrow> c < next_block h"
proof -
  have wf: "heap_wf h" using assms by (simp add: str_inv_def)
  obtain p where "slot_holds h slot p" using assms by (auto simp: str_inv_def)
  then show "blk slot < next_block h" using wf by (auto elim!: slot_holdsE dest: heap_wf_live)
  show "c \<in> published slot h \<Longrightarrow> c < next_block h"
    using assms wf by (auto simp: str_inv_def str_buffer_def dest: heap_wf_live)
qed

section \<open>The writes of the writer\<close>

lemma str_guar_fresh:
  assumes inv: "str_inv F slot h" and nb: "nb \<notin> published slot h" "nb \<noteq> blk slot" "nb \<notin> F"
    and e: "event_ok h e" "fresh_event nb e"
  shows "str_guar F slot h e \<and> str_inv F slot (apply_event e h) \<and> nb \<notin> published slot (apply_event e h)"
proof -
  let ?h' = "apply_event e h"
  have pub: "published slot ?h' = published slot h"
    using nb(2) e published_fresh by blast
  have same: "blocks ?h' c = blocks h c" if "c \<noteq> nb" for c
    using e that by (cases e) (auto simp: blocks_put)
  have "slot_holds ?h' slot q = slot_holds h slot q" for q
    using same nb(2) by (intro slot_holds_cong) auto
  moreover have old: "\<forall>b \<in> published slot h. blocks ?h' b = blocks h b"
    using same nb(1) by metis
  ultimately have "str_inv F slot ?h'"
    using inv pub live_later [of F h e] by (auto simp: str_inv_def str_buffer_def)
  moreover have "touches e b j \<Longrightarrow> b = nb" for b j using e(2) by (cases e) auto
  then have "race_free (\<lambda>b j. b \<in> published slot h) {(blk slot, off slot + 8, 8)} e"
    using nb by (intro race_freeI) auto
  moreover have "avoids F slot e" by (rule avoids_fresh [OF e(2) nb(3)])
  ultimately show ?thesis using pub old nb(1) by (simp add: str_guar_def)
qed

lemma str_guar_publish:
  assumes inv: "str_inv F slot h"
    and e: "e = Write (Atomic Release) (blk slot) (off slot + 8) (ptr_cells q)"
    and q: "q = Null \<or> (\<exists>b. q = Ptr b 0 \<and> b \<notin> F \<and> str_buffer slot (apply_event e h) b)"
  shows "str_guar F slot h e"
proof -
  let ?h' = "apply_event e h"
  have pub: "published slot ?h' = published slot h \<union> {b. q = Ptr b 0}"
    by (subst published_apply_event) (auto simp: e)
  have same: "blocks ?h' c = blocks h c" if "c \<noteq> blk slot" for c
    using that by (simp add: e blocks_put)
  have old: "blocks ?h' b = blocks h b" if "b \<in> published slot h" for b
    using that same str_inv_facts(5) [OF inv] by metis
  obtain p where "slot_holds h slot p" using inv by (auto simp: str_inv_def)
  then have "slot_holds ?h' slot q" using slot_holds_publish by (simp add: e)
  moreover have "str_buffer slot ?h' b" if "b \<in> published slot h" for b
    using inv old [OF that] that by (auto simp: str_inv_def str_buffer_def)
  ultimately have "str_inv F slot ?h'"
    using q pub inv live_later [of F h e] by (auto simp: str_inv_def)
  moreover have "race_free (\<lambda>b j. b \<in> published slot h) {(blk slot, off slot + 8, 8)} e"
    using str_inv_facts(5) [OF inv] by (intro race_freeI) (auto simp: e)
  moreover have "avoids F slot e" by (simp add: e avoids_slot)
  ultimately show ?thesis using pub old by (auto simp: str_guar_def)
qed

lemma string_set_run:
  assumes "msm_string_set h slot str len = Inr h'"
  shows "h' = h \<or> (\<exists>m. h' = fail_block m h) \<or>
    h' = apply_event (Write (Atomic Release) (blk slot) (off slot + 8) (ptr_cells Null)) h \<or>
    (\<exists>hm. builds_at (next_block h) h hm \<and>
      h' = apply_event (Write (Atomic Release) (blk slot) (off slot + 8) (ptr_cells (Ptr (next_block h) 0))) hm)"
proof (rule ccontr)
  assume no: "\<not> ?thesis"
  have built: False
    if "atomic_store_u32 (new_block m h) (Ptr (next_block h) 0) n Relaxed = Inr h2"
      and "atomic_store_u32 h2 (Ptr (next_block h) 4) c Relaxed = Inr h3"
      and "store_cells Plain h3 (Ptr (next_block h) k) xs = Inr h4"
      and "store_cells Plain h4 (Ptr (next_block h) j) ys = Inr h5"
      and "atomic_store_ptr h5 (padd slot 8) (Ptr (next_block h) 0) Release = Inr h'"
    for m n h2 c h3 k xs h4 j ys h5
    using build_store [OF build_store [OF build_header [OF disjI1 [OF refl] that(1,2)] that(3)] that(4)]
      store_slot_InrD [OF that(5)] no by blast
  have empty: False if "atomic_store_ptr h (padd slot 8) Null Release = Inr h'"
    using store_slot_InrD [OF that] no by blast
  show False
    using assms no
    by (auto simp: msm_string_set_def str_buf_defs bindE_eq_Inr Let_def malloc_def split: if_splits
        dest: built empty)
qed

lemma string_set_content:
  assumes "str_inv F slot h" and "msm_string_set h slot (Some bs) len = Inr h'" and "len \<noteq> 0"
    and "len \<noteq> - 1" and "unat len \<le> length bs"
  shows "(\<exists>m. h' = fail_block m h) \<or> str_buffer slot h' (next_block h)"
proof -
  obtain q where q: "slot_holds h slot q" using assms(1) by (auto simp: str_inv_def)
  note wf = str_inv_facts(1,2) [OF assms(1)]
  show ?thesis
  proof (cases "oom h (next_block h) (8 + (unat len + 1))")
    case True
    then show ?thesis using string_set_oom [OF wf(2) assms(3,4) True, of bs] assms(2) by auto
  next
    case False
    have "unat len \<noteq> 4294967295" using assms(4) by (auto simp: word_unat_eq_iff unat_minus_1_u32)
    then have lt: "unat len < 4294967295" using unat_u32_less [of len] by simp
    obtain h1 where "msm_string_set h slot (Some bs) (of_nat (unat len)) = Inr h1"
        "string_rep h1 slot (next_block h) (take (unat len) bs)"
      using string_set_runs [OF q wf(1) _ lt assms(5) False] assms(3) by (auto simp: unat_gt_0)
    then show ?thesis
      using assms(2) str_buffer_rep by simp
  qed
qed

text \<open>A buffer that is published holds the new text, in full.\<close>

lemma string_set_published:
  assumes inv: "str_inv F slot h" and run: "msm_string_set h slot str len = Inr h'"
    and ok: "case str of None \<Rightarrow> True | Some bs \<Rightarrow> len \<noteq> - 1 \<and> unat len \<le> length bs"
    and hm: "builds_at (next_block h) h hm"
      "h' = apply_event (Write (Atomic Release) (blk slot) (off slot + 8) (ptr_cells (Ptr (next_block h) 0))) hm"
  shows "str_buffer slot h' (next_block h)"
proof (cases "str = None \<or> len = 0")
  case True
  obtain q where "slot_holds h slot q" using inv by (auto simp: str_inv_def)
  from string_set_empty [OF this True] run
  have "trace h' = trace h @ [Write (Atomic Release) (blk slot) (off slot + 8) (ptr_cells Null)]" by auto
  moreover have "trace h' = trace h @ events_of h hm @
      [Write (Atomic Release) (blk slot) (off slot + 8) (ptr_cells (Ptr (next_block h) 0))]"
    using evolves_allowed [OF hm(1)] by (simp add: hm(2))
  ultimately show ?thesis by auto
next
  case False
  then obtain bs where bs: "str = Some bs" "len \<noteq> 0" "len \<noteq> - 1" "unat len \<le> length bs"
    using ok by (cases str) auto
  have "h' \<noteq> fail_block m h" for m
  proof
    assume "h' = fail_block m h"
    then have "trace h' = trace h @ [AllocFail m]" by simp
    moreover have "trace h' = trace h @ events_of h hm @
        [Write (Atomic Release) (blk slot) (off slot + 8) (ptr_cells (Ptr (next_block h) 0))]"
      using evolves_allowed [OF hm(1)] by (simp add: hm(2))
    ultimately show False by auto
  qed
  then show ?thesis using string_set_content [OF inv _ bs(2-4)] run bs(1) by blast
qed

lemma string_set_evolves:
  assumes inv: "str_inv F slot h" and run: "msm_string_set h slot str len = Inr h'"
    and ok: "case str of None \<Rightarrow> True | Some bs \<Rightarrow> len \<noteq> - 1 \<and> unat len \<le> length bs"
  shows "evolves (str_guar F slot) h h'"
proof -
  let ?nb = "next_block h"
  note f = str_inv_facts [OF inv]
  let ?e = "\<lambda>q. Write (Atomic Release) (blk slot) (off slot + 8) (ptr_cells q)"
  consider "h' = h" | m where "h' = fail_block m h" | "h' = apply_event (?e Null) h"
    | hm where "builds_at ?nb h hm" "h' = apply_event (?e (Ptr ?nb 0)) hm"
    using string_set_run [OF run] by blast
  then show ?thesis
  proof cases
    case 1
    then show ?thesis by (simp add: evolves_refl)
  next
    case (2 m)
    then show ?thesis
      using str_guar_fresh [OF inv f(3,4,6), of "AllocFail m"] evolves_one [of h "AllocFail m"] by simp
  next
    case 3
    then show ?thesis
      using str_guar_publish [OF inv refl, of Null] evolves_one [of h "?e Null" "str_guar F slot"] by simp
  next
    case (4 hm)
    let ?I = "\<lambda>h. str_inv F slot h \<and> ?nb \<notin> published slot h"
    have hm: "evolves (str_guar F slot) h hm \<and> ?I hm"
      using 4(1)
    proof (rule evolves_weaken [where I = ?I])
      show "?I h" using inv f(3) by simp
    qed (use str_guar_fresh f(4,6) in blast)
    have "str_buffer slot h' ?nb" by (rule string_set_published [OF inv run ok 4])
    then have "str_guar F slot hm (?e (Ptr ?nb 0))"
      using str_guar_publish [of F slot hm] hm 4(2) f(6) by blast
    then have "evolves (str_guar F slot) hm h'" unfolding 4(2) by (intro evolves_one) simp_all
    with hm show ?thesis by (meson evolves_trans)
  qed
qed

interpretation str: swmr "string_writer slot" "str_inv F slot" "str_guar F slot" for F slot
proof
  fix h e
  assume "str_guar F slot h e"
  then show "str_inv F slot (apply_event e h)" by (simp add: str_guar_def)
next
  fix f h h'
  assume f: "f \<in> string_writer slot" and inv: "str_inv F slot h" and run: "f h = Inr h'"
  have clear: "msm_string_clear h slot = msm_string_set h slot None 0"
    by (simp add: msm_string_clear_def msm_string_set_def Let_def)
  from f obtain str len where "msm_string_set h slot str len = Inr h'"
    and "case str of None \<Rightarrow> True | Some bs \<Rightarrow> len \<noteq> - 1 \<and> unat len \<le> length bs"
    using run clear by (auto simp: string_writer_def)
  then show "evolves (str_guar F slot) h h'" using string_set_evolves [OF inv] by blast
qed

section \<open>Readers\<close>

lemma str_later:
  assumes "evolves (str_guar F slot) h h'" and "str_inv F slot h" and "b \<in> published slot h"
  shows "str_inv F slot h'" and "b \<in> published slot h'" and "blocks h' b = blocks h b"
  using str_evolves [OF assms(1,2)] assms(3) by auto

text \<open>A buffer that no step of the writer changes is read as it is, whatever else the writer does.\<close>

lemma read_bytes_frozen:
  assumes "\<And>h'. evolves G h h' \<Longrightarrow> blocks h' b = Some (counted n c (map Byte s @ [Byte 0]))"
    and "j \<le> length s" and "length s - j < fuel"
  shows "reads G (read_bytesR fuel (Ptr b (8 + j))) h (\<lambda>v h'. v = takeWhile (\<lambda>c. c \<noteq> 0) (drop j s))"
  using assms
proof (induction fuel arbitrary: j h)
  case 0
  then show ?case by simp
next
  case (Suc fuel)
  let ?Q = "\<lambda>v h'. v = takeWhile (\<lambda>c. c \<noteq> 0) (drop j s)"
  show ?case
    unfolding read_bytesR.simps
  proof (rule reads_cells)
    fix h1
    assume ev: "evolves G h h1"
    have later: "blocks h2 b = Some (counted n c (map Byte s @ [Byte 0]))" if "evolves G h1 h2" for h2
      using Suc.prems(1) [OF evolves_trans [OF ev that]] .
    note blk = later [OF evolves_refl]
    show "\<exists>xs. load_cells h1 (Ptr b (8 + j)) 1 = Inr xs \<and> reads G
        (case xs of [Byte c] \<Rightarrow> if c = 0 then Return []
           else bindR (read_bytesR fuel (padd (Ptr b (8 + j)) 1)) (\<lambda>s. Return (c # s))
         | _ \<Rightarrow> Fail (Fault BadValue)) h1 ?Q"
    proof (cases "j < length s")
      case True
      have p: "piece (map Byte s @ [Byte 0]) j 1 = [Byte (s ! j)]"
        using True by (simp add: piece_append_left piece_def take_Suc_conv_app_nth drop_map
            Cons_nth_drop_Suc [symmetric] del: drop_map)
      have d: "drop j s = s ! j # drop (j + 1) s" using True by (simp add: Cons_nth_drop_Suc)
      have "reads G (bindR (read_bytesR fuel (Ptr b (8 + (j + 1)))) (\<lambda>t. Return (s ! j # t))) h1 ?Q"
        if nz: "s ! j \<noteq> 0"
      proof (rule reads_bindR, rule reads_mono)
        show "reads G (read_bytesR fuel (Ptr b (8 + (j + 1)))) h1
            (\<lambda>v h'. v = takeWhile (\<lambda>c. c \<noteq> 0) (drop (j + 1) s))"
          using Suc.IH [of h1 "j + 1"] later True Suc.prems(3) by simp
      qed (use nz d in simp)
      then show ?thesis
        using load_cells_Some [OF blk, of "8 + j" 1] True p d by (simp add: add.assoc)
    next
      case False
      then have "piece (map Byte s @ [Byte 0]) j 1 = [Byte 0]" "drop j s = []"
        using Suc.prems(2) by (simp_all add: piece_append_right piece_def)
      then show ?thesis
        using load_cells_Some [OF blk, of "8 + j" 1] False Suc.prems(2) by simp
    qed
  qed
qed

text \<open>Whatever the guarantee: as long as the slot is a shared string whose published buffers stay as
  they are, a read gives the text of one moment.\<close>

definition text_seen :: "(heap \<Rightarrow> event \<Rightarrow> bool) \<Rightarrow> ptr \<Rightarrow> heap \<Rightarrow> u8 list \<Rightarrow> heap \<Rightarrow> bool" where
  "text_seen G slot h0 v h \<longleftrightarrow> (\<exists>h1 s. evolves G h0 h1 \<and> evolves G h1 h \<and>
     string_at h1 slot s \<and> v = takeWhile (\<lambda>c. c \<noteq> 0) s)"

lemma read_string_stable:
  assumes inv: "\<And>h. evolves G h0 h \<Longrightarrow> \<exists>F. str_inv F slot h"
    and frozen: "\<And>h h' b. evolves G h0 h \<Longrightarrow> evolves G h h' \<Longrightarrow> b \<in> published slot h \<Longrightarrow> blocks h' b = blocks h b"
  shows "reads G (read_stringR slot) h0 (text_seen G slot h0)"
proof -
  obtain F0 where "str_inv F0 slot h0" using inv [OF evolves_refl] by blast
  then have nn: "slot \<noteq> Null" using str_inv_facts by blast
  have empty: "reads G (Return []) h1 (text_seen G slot h0)"
    if "evolves G h0 h1" "string_at h1 slot []" for h1
    using that by (intro reads_return) (force simp: text_seen_def)
  have tail: "reads G (bindR (atomic_load_u32R (Ptr b 0)) (\<lambda>len. read_cstrR
      (if len = 0 then EmptyLiteral else InHeap (str_buf_data (Ptr b 0))))) h1 (text_seen G slot h0)"
    if h1: "evolves G h0 h1" "b \<in> published slot h1" "string_rep h1 slot b s" for h1 b s
  proof (rule reads_atomic_u32 [where ord = Acquire])
    fix h2
    assume ev: "evolves G h1 h2"
    obtain s: "s \<noteq> []" "length s < 4294967295" "(of_nat (length s) :: u32) \<noteq> 0"
      and blk: "blocks h1 b = Some (counted (of_nat (length s)) (of_nat (length s + 1)) (map Byte s @ [Byte 0]))"
      using h1(3) by (rule string_repE) blast
    have b: "blocks h3 b = Some (counted (of_nat (length s)) (of_nat (length s + 1)) (map Byte s @ [Byte 0]))"
      if "evolves G h1 h3" for h3
      using frozen [OF h1(1) that h1(2)] blk by simp
    have "reads G (read_bytesR 4294967296 (Ptr b (8 + 0))) h2
        (\<lambda>v h'. v = takeWhile (\<lambda>c. c \<noteq> 0) (drop 0 s))"
      using s(2) b [OF evolves_trans [OF ev]] by (intro read_bytes_frozen) simp_all
    from reads_since [OF this ev]
    have r: "reads G (read_bytesR 4294967296 (Ptr b 8)) h2
        (\<lambda>v h'. v = takeWhile (\<lambda>c. c \<noteq> 0) s \<and> evolves G h1 h')"
      unfolding add_0_right drop_0 .
    have "reads G (read_bytesR 4294967296 (Ptr b 8)) h2 (text_seen G slot h0)"
      by (rule reads_mono [OF r]) (use h1(1,3) in \<open>auto simp: text_seen_def string_at_def\<close>)
    then show "\<exists>v. atomic_load_u32 h2 (Ptr b 0) Acquire = Inr v \<and> reads G (read_cstrR
        (if v = 0 then EmptyLiteral else InHeap (str_buf_data (Ptr b 0)))) h2 (text_seen G slot h0)"
      using atomic_load_u32_size [OF b [OF ev]] s(3) by (simp add: str_buf_defs)
  qed
  have "read_stringR slot = bindR (atomic_load_ptrR (padd slot 8)) (\<lambda>buf.
      if buf = Null then Return []
      else bindR (atomic_load_u32R buf) (\<lambda>len. read_cstrR
        (if len = 0 then EmptyLiteral else InHeap (str_buf_data buf))))"
    using nn by (auto simp: read_stringR_def msm_string_getR_def bindR_assoc
        if_distrib [where f = "\<lambda>m. bindR m _"] cong: if_cong intro!: arg_cong2 [of _ _ _ _ bindR] ext)
  moreover have "reads G (bindR (atomic_load_ptrR (padd slot 8)) (\<lambda>buf.
      if buf = Null then Return []
      else bindR (atomic_load_u32R buf) (\<lambda>len. read_cstrR
        (if len = 0 then EmptyLiteral else InHeap (str_buf_data buf))))) h0 (text_seen G slot h0)"
  proof (rule reads_atomic_ptr [where ord = Acquire])
    fix h1
    assume ev: "evolves G h0 h1"
    obtain F where inv1: "str_inv F slot h1" using inv [OF ev] by blast
    then show "\<exists>q. atomic_load_ptr h1 (padd slot 8) Acquire = Inr q \<and>
        reads G (if q = Null then Return [] else bindR (atomic_load_u32R q) (\<lambda>len. read_cstrR
          (if len = 0 then EmptyLiteral else InHeap (str_buf_data q)))) h1 (text_seen G slot h0)"
    proof (cases rule: str_inv_content)
      case 1
      then show ?thesis using empty [OF ev] load_slot by fastforce
    next
      case (2 b s)
      then have "slot_holds h1 slot (Ptr b 0)" by (auto elim: string_repE)
      then show ?thesis using tail [OF ev 2] load_slot by fastforce
    qed
  qed
  ultimately show ?thesis by simp
qed

abbreviation string_seen :: "nat set \<Rightarrow> ptr \<Rightarrow> heap \<Rightarrow> u8 list \<Rightarrow> heap \<Rightarrow> bool" where
  "string_seen F slot \<equiv> text_seen (str_guar F slot) slot"

lemma read_string_reads:
  assumes inv: "str_inv F slot h0"
  shows "reads (str_guar F slot) (read_stringR slot) h0 (string_seen F slot h0)"
  using str_evolves [OF _ inv] str_later(3) by (intro read_string_stable) blast+

section \<open>The properties\<close>

lemma str_inv_null:
  "heap_wf h \<Longrightarrow> slot_holds h slot Null \<Longrightarrow> published slot h = {} \<Longrightarrow> F \<subseteq> {..<next_block h} \<Longrightarrow>
   str_inv F slot h"
  by (auto simp: str_inv_def)

lemmas str_inv_start = str_inv_null [OF _ _ _ empty_subsetI]

lemma string_seen_between:
  assumes "string_seen F slot h0 v h"
  shows "\<exists>es1 es2 h1 str. events_of h0 h = es1 @ es2 \<and> h1 = replay es1 h0 \<and> string_at h1 slot str \<and>
    v = takeWhile (\<lambda>c. c \<noteq> 0) str"
proof -
  obtain h1 str where "evolves (str_guar F slot) h0 h1" "evolves (str_guar F slot) h1 h"
      "string_at h1 slot str" "v = takeWhile (\<lambda>c. c \<noteq> 0) str"
    using assms by (auto simp: text_seen_def)
  moreover from evolves_between [OF this(1,2)]
  obtain es1 es2 where "events_of h0 h = es1 @ es2" "h1 = replay es1 h0" by blast
  ultimately show ?thesis by blast
qed

text \<open>Claim C4. Reads of a string concurrent with one writer that sets and clears it: no interleaving
  makes a reader fault, and what it returns is the C string that was the content of the slot at one
  moment between the start of the read and its end (the state \<open>h1\<close>, one that the run went
  through): never a mixture of two strings.\<close>

theorem string_swmr_reads:
  assumes "heap_wf h" and "slot_holds h slot Null" and "published slot h = {}"
    and "swmr_run (string_writer slot) \<lparr>shared = h, pending = [], threads = []\<rparr> s0"
    and "swmr_run (string_writer slot) (s0\<lparr>threads := replicate n (read_stringR slot)\<rparr>) s"
    and "j < length (threads s)"
  shows "threads s ! j \<noteq> Fail e \<and>
    (threads s ! j = Return v \<longrightarrow> (\<exists>es1 es2 h1 str. events_of (shared s0) (shared s) = es1 @ es2 \<and>
      h1 = replay es1 (shared s0) \<and> string_at h1 slot str \<and> v = takeWhile (\<lambda>c. c \<noteq> 0) str))"
proof -
  note inv = str_inv_start [OF assms(1-3)]
  have inv0: "str_inv {} slot (shared s0)"
    using str.writer_consistent [OF inv assms(4)] by (simp add: str.consistent_def)
  have "reads (str_guar {} slot) (replicate n (read_stringR slot) ! j) (shared s0) (string_seen {} slot (shared s0))"
    if "j < length (replicate n (read_stringR slot))" for j
    using that read_string_reads [OF inv0] by simp
  note r = str.readers_correct(1,2) [OF inv assms(4,5) this assms(6)]
  show ?thesis using r(1) string_seen_between [OF r(2)] by blast
qed

theorem string_swmr_reads_witness:
  "\<exists>s0 s. swmr_run (string_writer (Ptr 0 0)) \<lparr>shared = start_heap, pending = [], threads = []\<rparr> s0 \<and>
     swmr_run (string_writer (Ptr 0 0)) (s0\<lparr>threads := [read_stringR (Ptr 0 0)]\<rparr>) s \<and>
     threads s = [Return [104, 105]]"
proof -
  let ?ops = "string_writer (Ptr 0 0)" and ?bs = "[104, 105] :: u8 list"
  let ?f = "\<lambda>h. msm_string_set h (Ptr 0 0) (Some ?bs) 2"
  have p: "published (Ptr 0 0) start_heap = {}" by (simp add: start_heap_def)
  note inv = str_inv_start [OF start_heap_facts(1,2) p]
  obtain h' where h': "?f start_heap = Inr h'" "string_rep h' (Ptr 0 0) 1 ?bs"
    using string_set_runs [OF start_heap_facts(2,1), of 2 ?bs] by auto
  have f: "?f \<in> ?ops" unfolding string_writer_def
    by (intro UnI2 CollectI exI [of _ ?bs] exI [of _ 2]) simp
  have ev: "evolves (str_guar {} (Ptr 0 0)) start_heap h'" by (rule str.ops_evolve [OF f inv h'(1)])
  have inv': "str_inv {} (Ptr 0 0) h'" using str_evolves [OF ev inv] by simp
  obtain v where v: "run_reader h' (read_stringR (Ptr 0 0)) = Inr v"
    using reads_run [OF read_string_reads [OF inv']] by blast
  let ?full = "\<lparr>shared = h', pending = [], threads = []\<rparr> :: u8 list system"
  let ?seen = "\<lparr>shared = h', pending = [], threads = [Return v]\<rparr>"
  have w: "swmr_run ?ops \<lparr>shared = start_heap, pending = [], threads = []\<rparr> ?full"
    by (rule run_operation [OF f h'(1) ev])
  have r: "swmr_run ?ops (?full\<lparr>threads := replicate 1 (read_stringR (Ptr 0 0))\<rparr>) ?seen"
    using run_undisturbed [OF v] by simp
  obtain str where "string_at h' (Ptr 0 0) str" "v = takeWhile (\<lambda>c. c \<noteq> 0) str"
    using string_swmr_reads [OF start_heap_facts(1,2) p w r, of 0] by (auto simp: events_of_def)
  moreover have "string_at h' (Ptr 0 0) ?bs" using h'(2) by (auto simp: string_at_def)
  ultimately have "v = ?bs" using string_at_unique by fastforce
  then show ?thesis using w r by (intro exI [of _ ?full] exI [of _ ?seen]) simp
qed

text \<open>The writer of a string has no data races: whatever write comes next, it leaves every
  buffer that was ever published as it is, and meets the slot's pointer only as a release store.\<close>

lemma string_swmr_race_free:
  assumes "heap_wf h" and "slot_holds h slot Null" and "published slot h = {}"
    and "swmr_run (string_writer slot) \<lparr>shared = h, pending = [], threads = []\<rparr> s"
    and "pending s = e # es"
  shows "race_free (\<lambda>b j. b \<in> published slot (shared s)) {(blk slot, off slot + 8, 8)} e \<and>
    (\<forall>b \<in> published slot (shared s). blocks (apply_event e (shared s)) b = blocks (shared s) b)"
  using str.next_write_guarded [OF str_inv_start [OF assms(1-3)] assms(4,5)]
  by (simp add: str_guar_def)

text \<open>The readers of the interleaving are the functions of the C interface.\<close>

lemma string_readers_faithful:
  "run_reader h (msm_string_getR slot) = msm_string_get h slot \<and>
   run_reader h (msm_string_lengthR slot) = msm_string_length h slot"
  by (simp add: run_msm_string_getR run_msm_string_lengthR)

end
