(* ===== verification/Msm_Object_Readers.thy ===== *)
theory Msm_Object_Readers
  imports Msm_Object_Props Msm_String_Swmr
begin

text \<open>
  The readers of objects as programs of single loads, between any two of which the writer may go on:
  the search for an entry, the getters and the queries, and what a reader asks in one of them.
\<close>

section \<open>The readers\<close>

definition entry_name_hashR :: "ptr \<Rightarrow> u64 reader" where
  "entry_name_hashR e = load_wordR e 8"

definition entry_type_idR :: "ptr \<Rightarrow> u16 reader" where
  "entry_type_idR e = load_wordR (padd e 8) 2"

definition entry_value_ptrR :: "ptr \<Rightarrow> ptr reader" where
  "entry_value_ptrR e = load_ptrR (padd e 16)"

fun find_entry_scanR :: "ptr \<Rightarrow> u64 \<Rightarrow> u32 \<Rightarrow> nat \<Rightarrow> ptr reader" where
  "find_entry_scanR entries name_hash i 0 = Return Null"
| "find_entry_scanR entries name_hash i (Suc r) =
     (let e = padd entries (unat (entry_offset i))
      in bindR (entry_name_hashR e) (\<lambda>k.
           if k = name_hash then Return e else find_entry_scanR entries name_hash (i + 1) r))"

definition object_find_entry_by_hashR :: "ptr \<Rightarrow> u64 \<Rightarrow> ptr reader" where
  "object_find_entry_by_hashR slot name_hash =
     bindR (atomic_load_ptrR (padd slot 8)) (\<lambda>buf.
       if buf = Null then Return Null
       else bindR (atomic_load_u32R buf) (\<lambda>count.
         if count = 0 then Return Null
         else find_entry_scanR (obj_buf_entries buf) name_hash 0 (unat count)))"

definition object_find_entryR :: "ptr \<Rightarrow> u8 list \<Rightarrow> nat \<Rightarrow> ptr reader" where
  "object_find_entryR slot name name_len =
     object_find_entry_by_hashR slot (hash_name name name_len)"

definition msm_object_get_int32R :: "ptr \<Rightarrow> cstr \<Rightarrow> u32 reader" where
  "msm_object_get_int32R slot name =
     (case name of None \<Rightarrow> Return 0
      | Some nm \<Rightarrow> if slot = Null then Return 0 else
          bindR (object_find_entryR slot nm (unat (name_length nm))) (\<lambda>e.
          if e = Null then Return 0
          else bindR (entry_type_idR e) (\<lambda>t.
               if t \<noteq> type_int32 then Return 0
               else bindR (entry_value_ptrR e) (\<lambda>p. load_wordR (padd p 4) 4))))"

definition msm_object_get_int64R :: "ptr \<Rightarrow> cstr \<Rightarrow> u64 reader" where
  "msm_object_get_int64R slot name =
     (case name of None \<Rightarrow> Return 0
      | Some nm \<Rightarrow> if slot = Null then Return 0 else
          bindR (object_find_entryR slot nm (unat (name_length nm))) (\<lambda>e.
          if e = Null then Return 0
          else bindR (entry_type_idR e) (\<lambda>t.
               if t \<noteq> type_int64 then Return 0
               else bindR (entry_value_ptrR e) (\<lambda>p. load_wordR (padd p 8) 8))))"

definition msm_object_get_float64R :: "ptr \<Rightarrow> cstr \<Rightarrow> u64 reader" where
  "msm_object_get_float64R slot name =
     (case name of None \<Rightarrow> Return 0
      | Some nm \<Rightarrow> if slot = Null then Return 0 else
          bindR (object_find_entryR slot nm (unat (name_length nm))) (\<lambda>e.
          if e = Null then Return 0
          else bindR (entry_type_idR e) (\<lambda>t.
               if t \<noteq> type_float64 then Return 0
               else bindR (entry_value_ptrR e) (\<lambda>p. load_wordR (padd p 8) 8))))"

definition msm_object_get_boolR :: "ptr \<Rightarrow> cstr \<Rightarrow> u32 reader" where
  "msm_object_get_boolR slot name =
     (case name of None \<Rightarrow> Return 0
      | Some nm \<Rightarrow> if slot = Null then Return 0 else
          bindR (object_find_entryR slot nm (unat (name_length nm))) (\<lambda>e.
          if e = Null then Return 0
          else bindR (entry_type_idR e) (\<lambda>t.
               if t \<noteq> type_bool then Return 0
               else bindR (entry_value_ptrR e) (\<lambda>p. load_wordR (padd p 4) 4))))"

definition msm_object_get_stringR :: "ptr \<Rightarrow> cstr \<Rightarrow> cstr_ref reader" where
  "msm_object_get_stringR slot name =
     (case name of None \<Rightarrow> Return EmptyLiteral
      | Some nm \<Rightarrow> if slot = Null then Return EmptyLiteral else
          bindR (object_find_entryR slot nm (unat (name_length nm))) (\<lambda>e.
          if e = Null then Return EmptyLiteral
          else bindR (entry_type_idR e) (\<lambda>t.
               if t \<noteq> type_string then Return EmptyLiteral
               else bindR (entry_value_ptrR e) msm_string_getR)))"

definition msm_object_has_fieldR :: "ptr \<Rightarrow> cstr \<Rightarrow> int reader" where
  "msm_object_has_fieldR slot name =
     (case name of None \<Rightarrow> Return 0
      | Some nm \<Rightarrow> if slot = Null then Return 0 else
          bindR (object_find_entryR slot nm (unat (name_length nm))) (\<lambda>e.
          Return (if e \<noteq> Null then 1 else 0)))"

definition msm_object_get_typeR :: "ptr \<Rightarrow> cstr \<Rightarrow> u16 reader" where
  "msm_object_get_typeR slot name =
     (case name of None \<Rightarrow> Return 0
      | Some nm \<Rightarrow> if slot = Null then Return 0 else
          bindR (object_find_entryR slot nm (unat (name_length nm))) (\<lambda>e.
          if e = Null then Return 0 else entry_type_idR e))"

definition msm_object_field_countR :: "ptr \<Rightarrow> u32 reader" where
  "msm_object_field_countR slot =
     (if slot = Null then Return 0
      else bindR (atomic_load_ptrR (padd slot 8)) (\<lambda>buf.
        if buf = Null then Return 0 else atomic_load_u32R buf))"

text \<open>Without interference they are the functions of the C interface.\<close>

lemma run_entry [simp]:
  "run_reader h (entry_name_hashR e) = entry_name_hash h e"
  "run_reader h (entry_type_idR e) = entry_type_id h e"
  "run_reader h (entry_value_ptrR e) = entry_value_ptr h e"
  by (simp_all add: entry_name_hashR_def entry_type_idR_def entry_value_ptrR_def run_load_wordR
      entry_defs)

lemma run_find_entry_scanR [simp]:
  "run_reader h (find_entry_scanR entries k i r) = find_entry_scan h entries k i r"
  by (induction r arbitrary: i) (simp_all add: Let_def cong: if_cong)

lemma run_object_find_entryR [simp]:
  "run_reader h (object_find_entryR slot nm n) = object_find_entry h slot nm n"
  by (simp add: object_find_entryR_def object_find_entry_def object_find_entry_by_hashR_def
      object_find_entry_by_hash_def obj_buf_count_def cong: if_cong)

lemma run_object_readers:
  "run_reader h (msm_object_get_int32R slot name) = msm_object_get_int32 h slot name"
  "run_reader h (msm_object_get_int64R slot name) = msm_object_get_int64 h slot name"
  "run_reader h (msm_object_get_float64R slot name) = msm_object_get_float64 h slot name"
  "run_reader h (msm_object_get_boolR slot name) = msm_object_get_bool h slot name"
  "run_reader h (msm_object_get_stringR slot name) = msm_object_get_string h slot name"
  "run_reader h (msm_object_has_fieldR slot name) = msm_object_has_field h slot name"
  "run_reader h (msm_object_get_typeR slot name) = msm_object_get_type h slot name"
  "run_reader h (msm_object_field_countR slot) = msm_object_field_count h slot"
proof -
  note defs = msm_object_get_int32R_def msm_object_get_int64R_def msm_object_get_float64R_def
    msm_object_get_boolR_def msm_object_get_stringR_def msm_object_has_fieldR_def
    msm_object_get_typeR_def msm_object_field_countR_def msm_object_get_int32_def
    msm_object_get_int64_def msm_object_get_float64_def msm_object_get_bool_def
    msm_object_get_string_def msm_object_has_field_def msm_object_get_type_def
    msm_object_field_count_def run_msm_string_getR run_load_wordR load_u32_def load_u64_def
    obj_buf_count_def
  show "run_reader h (msm_object_get_int32R slot name) = msm_object_get_int32 h slot name"
    "run_reader h (msm_object_get_int64R slot name) = msm_object_get_int64 h slot name"
    "run_reader h (msm_object_get_float64R slot name) = msm_object_get_float64 h slot name"
    "run_reader h (msm_object_get_boolR slot name) = msm_object_get_bool h slot name"
    "run_reader h (msm_object_get_stringR slot name) = msm_object_get_string h slot name"
    "run_reader h (msm_object_has_fieldR slot name) = msm_object_has_field h slot name"
    "run_reader h (msm_object_get_typeR slot name) = msm_object_get_type h slot name"
    "run_reader h (msm_object_field_countR slot) = msm_object_field_count h slot"
    by (simp_all add: defs split: option.split cong: if_cong)
qed

end
