(* ===== verification/Msm_Object_Shared.thy ===== *)
theory Msm_Object_Shared
  imports Msm_Object_Readers
begin

text \<open>
  What the writer of an object shares with its readers. A reader may hold any entries buffer that
  was ever published. What such a buffer says, its outline (the entries below its count, and their
  values, but not the text of the strings), never changes, except that the current buffer gets
  further entries behind its last one. Each string of the object is a shared string of its own, in
  the slot that is its value: setting it anew publishes another buffer of characters there.
\<close>

section \<open>Outlines\<close>

definition is_string :: "obj_field \<Rightarrow> bool" where
  "is_string f \<longleftrightarrow> (\<exists>s. fval f = VString s)"

text \<open>A field without the text.\<close>

definition outline :: "obj_field \<Rightarrow> obj_field" where
  "outline f = (if is_string f then ObjField (fhash f) (fblock f) None (VString []) else f)"

definition outline_at :: "heap \<Rightarrow> obj_field \<Rightarrow> bool" where
  "outline_at h f \<longleftrightarrow> outline f = f \<and>
     (if is_string f then \<exists>cs. blocks h (fblock f) = Some cs \<and> length cs = 24 else field_at h f)"

lemma outline_simps [simp]:
  "fhash (outline f) = fhash f" "fblock (outline f) = fblock f" "is_string (outline f) = is_string f"
  "outline (outline f) = outline f" "value_type (fval (outline f)) = value_type (fval f)"
  "value_size (fval (outline f)) = value_size (fval f)"
  by (auto simp: outline_def is_string_def)

lemma map_outline [simp]: "map fhash (map outline fs) = map fhash fs" "map fblock (map outline fs) = map fblock fs"
  by simp_all

lemma is_string_type: "is_string f \<longleftrightarrow> value_type (fval f) = type_string"
  by (cases "fval f") (simp_all add: is_string_def type_ids)

lemma field_at_outline:
  assumes "field_at h f"
  shows "outline_at h (outline f)"
proof (cases "is_string f")
  case True
  then obtain s where s: "fval f = VString s" by (auto simp: is_string_def)
  obtain k xs where "value_cells h (fblock f) (value_size (fval f)) k xs"
    using assms value_at_cells unfolding field_at_def by blast
  then show ?thesis using True s by (auto simp: outline_at_def value_cells_def)
qed (use assms in \<open>simp add: outline_at_def outline_def\<close>)

text \<open>A field without text is one block.\<close>

lemma plain_footprint: "field_at h f \<Longrightarrow> \<not> is_string f \<Longrightarrow> footprint f = [fblock f]"
  by (cases "fval f") (auto simp: field_at_def footprint_def value_blocks_def is_string_def)

lemma outline_at_cong:
  assumes "blocks h' (fblock f) = blocks h (fblock f)" and "outline_at h f"
  shows "outline_at h' f"
proof (cases "is_string f")
  case False
  then have "field_at h f" using assms(2) by (simp add: outline_at_def)
  moreover from this have "field_at h' f = field_at h f"
    unfolding field_at_def using assms(1) plain_footprint [OF _ False]
    by (intro value_at_cong) (simp add: footprint_def field_at_def)
  ultimately show ?thesis using assms(2) False by (simp add: outline_at_def)
qed (use assms in \<open>simp add: outline_at_def\<close>)

lemma outline_at_live: "outline_at h f \<Longrightarrow> heap_wf h \<Longrightarrow> fblock f < next_block h"
  by (cases "is_string f")
    (auto simp: outline_at_def footprint_def value_blocks_def dest: heap_wf_live field_at_live)

lemma entry_in_outline [simp]: "entry_in data i (outline f) = entry_in data i f"
  by (simp add: entry_in_def)

text \<open>What a published buffer says to a reader that holds it: \<open>object_rep\<close> but for the slot and
  the text.\<close>

definition obj_snap :: "heap \<Rightarrow> ptr \<Rightarrow> nat \<Rightarrow> u32 \<Rightarrow> obj_field list \<Rightarrow> bool" where
  "obj_snap h slot b cap fs \<longleftrightarrow>
     (\<exists>data. blocks h b = Some (counted (of_nat (length fs)) cap data) \<and>
        length data = 24 * unat cap \<and> entries_in data fs) \<and>
     length fs \<le> unat cap \<and> distinct (map fhash fs) \<and>
     distinct (blk slot # b # map fblock fs) \<and> (\<forall>f \<in> set fs. outline_at h f)"

definition obj_now :: "heap \<Rightarrow> ptr \<Rightarrow> nat \<Rightarrow> u32 \<Rightarrow> obj_field list \<Rightarrow> bool" where
  "obj_now h slot b cap fs \<longleftrightarrow> slot_holds h slot (Ptr b 0) \<and> obj_snap h slot b cap fs"

lemma footprint_blocks: "set (map fblock fs) \<subseteq> set (concat (map footprint fs))"
  by (auto simp: footprint_def value_blocks_def)

lemma distinct_blocks: "distinct (concat (map footprint fs)) \<Longrightarrow> distinct (map fblock fs)"
proof (induction fs)
  case (Cons f fs)
  have "fblock f \<in> set (footprint f)" by (simp add: footprint_def value_blocks_def)
  then show ?case using Cons footprint_blocks [of fs] by auto
qed simp

lemma object_rep_now:
  assumes "object_rep h slot b cap fs"
  shows "obj_now h slot b cap (map outline fs)"
proof -
  have "distinct (blk slot # b # map fblock fs)"
    using assms distinct_blocks [of fs] footprint_blocks [of fs] by (auto simp: object_rep_def)
  moreover have "entries_in data (map outline fs) = entries_in data fs" for data
    by (simp add: entries_in_def)
  ultimately show ?thesis
    using assms field_at_outline by (auto simp: object_rep_def obj_now_def obj_snap_def o_def)
qed

lemma obj_snapE:
  assumes "obj_snap h slot b cap fs"
  obtains data where "blocks h b = Some (counted (of_nat (length fs)) cap data)"
    and "length data = 24 * unat cap" and "entries_in data fs" and "length fs \<le> unat cap"
    and "unat (of_nat (length fs) :: u32) = length fs" and "length fs < 4294967296"
    and "b \<noteq> blk slot" and "distinct (map fhash fs)"
    and "distinct (blk slot # b # map fblock fs)" and "\<forall>f \<in> set fs. outline_at h f"
proof -
  have "length fs < 4294967296"
    using assms unat_u32_less [of cap] unfolding obj_snap_def by linarith
  moreover from this have "unat (of_nat (length fs) :: u32) = length fs" by (simp add: unat_of_nat)
  ultimately show ?thesis using assms that unfolding obj_snap_def by auto
qed

lemma value_at_unique:
  assumes "value_at h vb sb v" and "value_at h vb sb' v'" and "value_type v = value_type v'"
  shows "v = v' \<and> sb = sb'"
proof -
  have c: "xs = ys" if "value_cells h vb n k xs" "value_cells h vb n k ys" "length xs = length ys" for n k xs ys
    using that by (auto simp: value_cells_def)
  have w4: "x = y" if "value_cells h vb n k (word_cells 4 x)" "value_cells h vb n k (word_cells 4 y)"
    for n k and x y :: u32
  proof -
    have "word_cells 4 x = word_cells 4 y" using c [OF that] by simp
    then have "(decode_word (word_cells 4 x) :: u32 res) = decode_word (word_cells 4 y)" by simp
    then show ?thesis by (simp only: decode_word_cells_32 sum.inject)
  qed
  have w8: "x = y" if "value_cells h vb n k (word_cells 8 x)" "value_cells h vb n k (word_cells 8 y)"
    for n k and x y :: u64
  proof -
    have "word_cells 8 x = word_cells 8 y" using c [OF that] by simp
    then have "(decode_word (word_cells 8 x) :: u64 res) = decode_word (word_cells 8 y)" by simp
    then show ?thesis by (simp only: decode_word_cells_64 sum.inject)
  qed
  have p: "q = q'" if "value_cells h vb n k (ptr_cells q)" "value_cells h vb n k (ptr_cells q')" for n k q q'
    using c [OF that] by simp
  have s: "s = t" if "string_rep h (Ptr vb 0) d s" "string_rep h (Ptr vb 0) d t" for d s t
    using that string_at_unique [of h "Ptr vb 0" s t] unfolding string_at_def by blast
  have b: "x = y" if "value_cells h vb n k (word_cells 4 (if x then 1 else 0 :: u32))"
      "value_cells h vb n k (word_cells 4 (if y then 1 else 0 :: u32))" for n k x y
    using w4 [OF that] by (simp split: if_splits)
  show ?thesis
    using assms by (cases v; cases v'; simp add: type_ids split: option.splits; blast dest: w4 w8 p b s)
qed

text \<open>A buffer has one outline.\<close>

lemma obj_snap_unique:
  assumes "obj_snap h slot b cap fs" and "obj_snap h slot b cap' fs'"
  shows "fs' = fs" and "cap' = cap"
proof -
  obtain data where d: "blocks h b = Some (counted (of_nat (length fs)) cap data)"
      "entries_in data fs" "unat (of_nat (length fs) :: u32) = length fs" "\<forall>f \<in> set fs. outline_at h f"
    using assms(1) by (rule obj_snapE)
  obtain data' where d': "blocks h b = Some (counted (of_nat (length fs')) cap' data')"
      "entries_in data' fs'" "unat (of_nat (length fs') :: u32) = length fs'" "\<forall>f \<in> set fs'. outline_at h f"
    using assms(2) by (rule obj_snapE)
  have eq: "data' = data" "length fs' = length fs" and cap: "cap' = cap" using d(1,3) d'(1,3) by auto
  have "fs' ! i = fs ! i" if i: "i < length fs" for i
  proof -
    let ?f = "fs ! i" and ?g = "fs' ! i"
    have e: "entry_in data i ?f" "entry_in data i ?g"
      using d(2) d'(2) i eq by (simp_all add: entries_in_def)
    have k: "fhash ?g = fhash ?f"
      using e decode_word_cells_64 by (metis entry_in_def sum.inject(2))
    have t: "value_type (fval ?g) = value_type (fval ?f)"
      using e decode_word_cells_16 by (metis entry_in_def sum.inject(2))
    have b: "fblock ?g = fblock ?f" using e by (simp add: entry_in_def)
    have at: "outline_at h ?f" "outline_at h ?g" using d(4) d'(4) i eq(2) by simp_all
    show ?thesis
    proof (cases "is_string ?f")
      case True
      then have "is_string ?g" using t by (simp add: is_string_type)
      then have "outline ?g = outline ?f" using True k b by (simp add: outline_def)
      then show ?thesis using at by (simp add: outline_at_def)
    next
      case False
      then have "\<not> is_string ?g" using t by (simp add: is_string_type)
      then have "field_at h ?f" "field_at h ?g" using False at by (simp_all add: outline_at_def)
      then have "fval ?g = fval ?f \<and> fbuf ?g = fbuf ?f"
        using value_at_unique t b by (metis field_at_def)
      then show ?thesis using k b by (simp add: obj_field.expand)
    qed
  qed
  then show "fs' = fs" using eq(2) by (intro nth_equalityI) simp_all
  show "cap' = cap" by (rule cap)
qed

lemma obj_snap_keep:
  assumes "obj_snap h slot b cap fs" and "\<And>c. c = b \<or> c \<in> fblock ` set fs \<Longrightarrow> blocks h' c = blocks h c"
  shows "obj_snap h' slot b cap fs"
proof -
  have "outline_at h' f" if "f \<in> set fs" for f
    using that assms outline_at_cong [of h' f h] by (auto simp: obj_snap_def)
  then show ?thesis using assms by (auto simp: obj_snap_def)
qed

section \<open>The shared state\<close>

text \<open>The fields that some reader may find, the value blocks of those that are strings, and the
  character buffers that were published for them. \<open>obj_core\<close> are the blocks that hold the object
  without its text.\<close>

definition obj_fields :: "ptr \<Rightarrow> heap \<Rightarrow> obj_field set" where
  "obj_fields slot h = {f. \<exists>b \<in> published slot h. \<exists>cap fs. obj_snap h slot b cap fs \<and> f \<in> set fs}"

definition obj_strings :: "ptr \<Rightarrow> heap \<Rightarrow> nat set" where
  "obj_strings slot h = fblock ` {f \<in> obj_fields slot h. is_string f}"

definition obj_core :: "ptr \<Rightarrow> heap \<Rightarrow> nat set" where
  "obj_core slot h = insert (blk slot) (published slot h \<union> fblock ` obj_fields slot h)"

definition obj_texts :: "ptr \<Rightarrow> heap \<Rightarrow> nat set" where
  "obj_texts slot h = (\<Union>vb \<in> obj_strings slot h. published (Ptr vb 0) h)"

definition obj_shared :: "ptr \<Rightarrow> heap \<Rightarrow> nat set" where
  "obj_shared slot h = obj_core slot h \<union> obj_texts slot h"

text \<open>\<open>F\<close> are blocks of others, as for arrays; the object owns what it shares but the block of
  its slot. No two strings of it share a buffer of characters, which is what \<open>disjoint_texts\<close> says.\<close>

definition disjoint_texts :: "nat set \<Rightarrow> heap \<Rightarrow> bool" where
  "disjoint_texts V h \<longleftrightarrow> (\<forall>vb \<in> V. \<forall>wb \<in> V. vb \<noteq> wb \<longrightarrow> published (Ptr vb 0) h \<inter> published (Ptr wb 0) h = {})"

definition obj_inv :: "nat set \<Rightarrow> ptr \<Rightarrow> heap \<Rightarrow> bool" where
  "obj_inv F slot h \<longleftrightarrow> heap_wf h \<and> F \<inter> (obj_shared slot h - {blk slot}) = {} \<and>
     F \<subseteq> {..<next_block h} \<and>
     (\<exists>q. slot_holds h slot q \<and> (q = Null \<or> q \<in> (\<lambda>b. Ptr b 0) ` published slot h)) \<and>
     (\<forall>b \<in> published slot h. \<exists>cap fs. obj_snap h slot b cap fs) \<and>
     inj_on fblock (obj_fields slot h) \<and> fblock ` obj_fields slot h \<inter> published slot h = {} \<and>
     (\<forall>vb \<in> obj_strings slot h. str_inv (obj_core slot h) (Ptr vb 0) h) \<and>
     disjoint_texts (obj_strings slot h) h"

text \<open>A published buffer keeps its entries; only the current one gets more.\<close>

definition obj_grows :: "ptr \<Rightarrow> heap \<Rightarrow> heap \<Rightarrow> bool" where
  "obj_grows slot h h' \<longleftrightarrow> (\<forall>b \<in> published slot h. \<forall>cap fs. obj_snap h slot b cap fs \<longrightarrow>
     (\<exists>gs. obj_snap h' slot b cap (fs @ gs) \<and> (gs = [] \<or> slot_holds h' slot (Ptr b 0))))"

text \<open>The characters that were published never change, and the pointer of a string only as long as
  the string is a field of the object.\<close>

definition current_string :: "ptr \<Rightarrow> heap \<Rightarrow> nat \<Rightarrow> bool" where
  "current_string slot h vb \<longleftrightarrow> (\<exists>b cap fs f. obj_now h slot b cap fs \<and> f \<in> set fs \<and> is_string f \<and> fblock f = vb)"

definition texts_kept :: "ptr \<Rightarrow> heap \<Rightarrow> heap \<Rightarrow> bool" where
  "texts_kept slot h h' \<longleftrightarrow> (\<forall>vb \<in> obj_strings slot h. published (Ptr vb 0) h \<subseteq> published (Ptr vb 0) h' \<and>
     (\<forall>c \<in> published (Ptr vb 0) h. blocks h' c = blocks h c) \<and>
     (current_string slot h' vb \<or> blocks h' vb = blocks h vb))"

text \<open>What readers load plainly: entries below the count, the values that are no strings, and the
  characters; atomically: the pointer of the slot, the counts, and the pointers of the strings.\<close>

definition obj_plain :: "ptr \<Rightarrow> heap \<Rightarrow> nat \<Rightarrow> nat \<Rightarrow> bool" where
  "obj_plain slot h c j \<longleftrightarrow>
     (\<exists>b \<in> published slot h. \<exists>cap fs. obj_snap h slot b cap fs \<and> c = b \<and> 8 \<le> j \<and> j < 8 + 24 * length fs) \<or>
     (\<exists>f \<in> obj_fields slot h. \<not> is_string f \<and> c = fblock f) \<or> c \<in> obj_texts slot h"

definition obj_sync :: "ptr \<Rightarrow> heap \<Rightarrow> (nat \<times> nat \<times> nat) set" where
  "obj_sync slot h = {(blk slot, off slot + 8, 8)} \<union> {(b, 0, 4) | b. b \<in> published slot h} \<union>
     {(vb, 8, 8) | vb. vb \<in> obj_strings slot h}"

definition obj_guar :: "nat set \<Rightarrow> ptr \<Rightarrow> heap \<Rightarrow> event \<Rightarrow> bool" where
  "obj_guar F slot h e \<longleftrightarrow> obj_inv F slot (apply_event e h) \<and> obj_grows slot h (apply_event e h) \<and>
     published slot h \<subseteq> published slot (apply_event e h) \<and> texts_kept slot h (apply_event e h) \<and>
     race_free (obj_plain slot h) (obj_sync slot h) e \<and> avoids F slot e"

lemma obj_shared_intro:
  "blk slot \<in> obj_shared slot h" "b \<in> published slot h \<Longrightarrow> b \<in> obj_shared slot h"
  "f \<in> obj_fields slot h \<Longrightarrow> fblock f \<in> obj_shared slot h"
  "vb \<in> obj_strings slot h \<Longrightarrow> c \<in> published (Ptr vb 0) h \<Longrightarrow> c \<in> obj_shared slot h"
  by (auto simp: obj_shared_def obj_core_def obj_texts_def)

lemma obj_strings_core: "vb \<in> obj_strings slot h \<Longrightarrow> vb \<in> obj_core slot h"
  by (auto simp: obj_strings_def obj_core_def)

lemma obj_snap_fields: "b \<in> published slot h \<Longrightarrow> obj_snap h slot b cap fs \<Longrightarrow> set fs \<subseteq> obj_fields slot h"
  unfolding obj_fields_def by blast

lemma obj_fields_at:
  assumes "f \<in> obj_fields slot h"
  shows "outline_at h f \<and> fblock f \<noteq> blk slot"
proof -
  obtain b cap fs where s: "obj_snap h slot b cap fs" and f: "f \<in> set fs"
    using assms by (auto simp: obj_fields_def)
  have "fblock f \<in> set (map fblock fs)" using f by simp
  moreover have "blk slot \<notin> set (map fblock fs)" "outline_at h f" using s f by (simp_all add: obj_snap_def)
  ultimately show ?thesis by metis
qed

lemma obj_stringsE:
  assumes "vb \<in> obj_strings slot h"
  obtains f where "f \<in> obj_fields slot h" and "is_string f" and "vb = fblock f" and "vb \<noteq> blk slot"
  using assms obj_fields_at by (auto simp: obj_strings_def)

lemma obj_inv_string:
  assumes "obj_inv F slot h" and "vb \<in> obj_strings slot h"
  shows "str_inv (obj_core slot h) (Ptr vb 0) h" and "c \<in> published (Ptr vb 0) h \<Longrightarrow> c \<notin> obj_core slot h"
    and "wb \<in> obj_strings slot h \<Longrightarrow> wb \<noteq> vb \<Longrightarrow> published (Ptr vb 0) h \<inter> published (Ptr wb 0) h = {}"
proof -
  show *: "str_inv (obj_core slot h) (Ptr vb 0) h" using assms by (simp add: obj_inv_def)
  then show "c \<in> published (Ptr vb 0) h \<Longrightarrow> c \<notin> obj_core slot h" by (auto simp: str_inv_def)
  show "wb \<in> obj_strings slot h \<Longrightarrow> wb \<noteq> vb \<Longrightarrow> published (Ptr vb 0) h \<inter> published (Ptr wb 0) h = {}"
    using assms by (auto simp: obj_inv_def disjoint_texts_def)
qed

lemma obj_texts_core:
  assumes "obj_inv F slot h"
  shows "obj_texts slot h \<inter> obj_core slot h = {}"
  using obj_inv_string(2) [OF assms] by (fastforce simp: obj_texts_def)

lemma obj_inv_snap:
  assumes "obj_inv F slot h" and "b \<in> published slot h"
  obtains cap fs where "obj_snap h slot b cap fs" and "b \<noteq> blk slot" and "set fs \<subseteq> obj_fields slot h"
proof -
  obtain cap fs where s: "obj_snap h slot b cap fs" using assms by (auto simp: obj_inv_def)
  moreover from this have "b \<noteq> blk slot" by (auto simp: obj_snap_def)
  ultimately show ?thesis using obj_snap_fields [OF assms(2) s] that by blast
qed

lemma obj_inv_content:
  assumes "obj_inv F slot h"
  obtains "slot_holds h slot Null"
  | b cap fs where "b \<in> published slot h" and "obj_now h slot b cap fs"
proof -
  obtain q where q: "slot_holds h slot q" "q = Null \<or> q \<in> (\<lambda>b. Ptr b 0) ` published slot h"
    using assms by (auto simp: obj_inv_def)
  from q(2) show ?thesis
  proof
    assume "q = Null"
    then show ?thesis using q(1) that(1) by simp
  next
    assume "q \<in> (\<lambda>b. Ptr b 0) ` published slot h"
    then obtain b where b: "q = Ptr b 0" "b \<in> published slot h" by auto
    obtain cap fs where "obj_snap h slot b cap fs" using obj_inv_snap [OF assms b(2)] .
    then show ?thesis using that(2) [OF b(2)] b(1) q(1) by (simp add: obj_now_def)
  qed
qed

lemma obj_inv_facts:
  assumes "obj_inv F slot h"
  shows "heap_wf h" and "slot \<noteq> Null" and "blk slot \<notin> published slot h"
    and "next_block h \<notin> obj_shared slot h" and "next_block h \<notin> F" and "obj_shared slot h \<subseteq> {..<next_block h}"
    and "blk slot < next_block h"
proof -
  show "next_block h \<notin> F" using assms by (auto simp: obj_inv_def)
  show wf: "heap_wf h" and "slot \<noteq> Null" using assms by (auto simp: obj_inv_def)
  show "blk slot \<notin> published slot h" using obj_inv_snap [OF assms] by metis
  show root: "blk slot < next_block h"
    using assms slot_holds_live wf heap_wf_live by (fastforce simp: obj_inv_def)
  have "c < next_block h" if c: "c \<in> obj_shared slot h" for c
  proof -
    consider "c = blk slot" | "c \<in> published slot h" | f where "f \<in> obj_fields slot h" "c = fblock f"
      | vb where "vb \<in> obj_strings slot h" "c \<in> published (Ptr vb 0) h"
      using c by (auto simp: obj_shared_def obj_core_def obj_texts_def)
    then show ?thesis
    proof cases
      case 2
      then show ?thesis using obj_inv_snap [OF assms] wf heap_wf_live by (metis obj_snap_def)
    next
      case (3 f)
      then show ?thesis using obj_fields_at outline_at_live wf by blast
    next
      case (4 vb)
      then show ?thesis using str_inv_live(2) [OF obj_inv_string(1) [OF assms 4(1)]] by simp
    qed (use root in simp)
  qed
  then show "obj_shared slot h \<subseteq> {..<next_block h}" by blast
  then show "next_block h \<notin> obj_shared slot h" by blast
qed

lemma obj_shared_live: "obj_inv F slot h \<Longrightarrow> c \<in> obj_shared slot h \<Longrightarrow> c < next_block h"
  using obj_inv_facts(6) by blast

text \<open>The fields, from an outline of each buffer.\<close>

lemma obj_fields_snaps:
  assumes "\<And>b. b \<in> published slot h \<Longrightarrow> obj_snap h slot b (C b) (S b)"
  shows "obj_fields slot h = (\<Union>b \<in> published slot h. set (S b))"
proof -
  have "f \<in> set (S b)" if b: "b \<in> published slot h" "obj_snap h slot b cap fs" "f \<in> set fs" for b cap fs f
    using obj_snap_unique(1) [OF b(2) assms [OF b(1)]] b(3) by simp
  then show ?thesis using assms unfolding obj_fields_def by blast
qed

section \<open>The text of an outline\<close>

text \<open>With the text that its strings have now, the outline of the current buffer is the object.\<close>

lemma outline_text:
  assumes inv: "obj_inv F slot h" and f: "f \<in> obj_fields slot h"
  shows "\<exists>g. outline g = f \<and> field_at h g \<and>
    (\<forall>c. fbuf g = Some c \<longrightarrow> is_string f \<and> c \<in> published (Ptr (fblock f) 0) h)"
proof (cases "is_string f")
  case True
  then have vb: "fblock f \<in> obj_strings slot h" using f by (auto simp: obj_strings_def)
  have at: "outline f = f" "\<exists>cs. blocks h (fblock f) = Some cs \<and> length cs = 24"
    using obj_fields_at [OF f] True by (simp_all add: outline_at_def)
  have out: "outline (ObjField (fhash f) (fblock f) sb (VString s)) = f" for sb s
    using at(1) True by (simp add: outline_def is_string_def)
  have cells: "value_cells h (fblock f) 24 8 (ptr_cells q)" if "slot_holds h (Ptr (fblock f) 0) q" for q
    using that at(2) by (auto simp: value_cells_def slot_holds_def)
  from obj_inv_string(1) [OF inv vb] show ?thesis
  proof (cases rule: str_inv_content)
    case 1
    then show ?thesis
      using out cells by (intro exI [of _ "ObjField (fhash f) (fblock f) None (VString [])"]) (simp add: field_at_def)
  next
    case (2 c s)
    then have "slot_holds h (Ptr (fblock f) 0) (Ptr c 0)" by (simp add: string_rep_def)
    then show ?thesis
      using 2 out cells True
      by (intro exI [of _ "ObjField (fhash f) (fblock f) (Some c) (VString s)"]) (simp add: field_at_def)
  qed
next
  case False
  then have "outline f = f" "field_at h f" using obj_fields_at [OF f] by (simp_all add: outline_at_def)
  moreover from this(2) have "fbuf f = None"
    using False by (cases "fval f") (auto simp: field_at_def is_string_def)
  ultimately show ?thesis by auto
qed

lemma distinct_texts:
  assumes inv: "obj_inv F slot h" and "set (map outline fs) \<subseteq> obj_fields slot h"
    and "distinct (map fblock fs)" and "x \<notin> obj_texts slot h" and "x \<notin> fblock ` set fs"
    and "\<And>f c. f \<in> set fs \<Longrightarrow> fbuf f = Some c \<Longrightarrow> is_string f \<and> c \<in> published (Ptr (fblock f) 0) h"
  shows "distinct (concat (map footprint fs)) \<and> x \<notin> set (concat (map footprint fs))"
  using assms(2-)
proof (induction fs)
  case (Cons f fs)
  let ?rest = "set (concat (map footprint fs))"
  have str: "fblock g \<in> obj_strings slot h" if "g \<in> set (f # fs)" "is_string g" for g
    using that Cons.prems(1) unfolding obj_strings_def
    by (intro image_eqI [of _ _ "outline g"]) auto
  have core: "fblock g \<in> obj_core slot h" if "g \<in> set (f # fs)" for g
    using that Cons.prems(1) unfolding obj_core_def
    by (intro insertI2 UnI2 image_eqI [of _ _ "outline g"]) auto
  have rest: "\<exists>g \<in> set fs. c = fblock g \<or> fbuf g = Some c" if "c \<in> ?rest" for c
    using that by (auto simp: footprint_def value_blocks_def split: option.splits)
  have buf: "c \<in> published (Ptr (fblock g) 0) h" "fblock g \<in> obj_strings slot h" "c \<notin> obj_core slot h"
    if "g \<in> set (f # fs)" "fbuf g = Some c" for g c
    using Cons.prems(5) [OF that] str [OF that(1)] obj_inv_string(2) [OF inv] by blast+
  have "fblock f \<notin> ?rest"
  proof
    assume "fblock f \<in> ?rest"
    then obtain g where g: "g \<in> set fs" "fblock f = fblock g \<or> fbuf g = Some (fblock f)" using rest by blast
    moreover have "fblock f \<noteq> fblock g" using Cons.prems(2) g(1) by auto
    ultimately show False using buf(3) [of g "fblock f"] core [of f] by auto
  qed
  moreover have "c \<notin> ?rest" if c: "fbuf f = Some c" for c
  proof
    assume "c \<in> ?rest"
    then obtain g where g: "g \<in> set fs" "c = fblock g \<or> fbuf g = Some c" using rest by blast
    have f: "c \<in> published (Ptr (fblock f) 0) h" "fblock f \<in> obj_strings slot h" "c \<notin> obj_core slot h"
      using buf [of f c] c by simp_all
    have "c \<noteq> fblock g" using f(3) core [of g] g(1) by auto
    then have "c \<in> published (Ptr (fblock g) 0) h" "fblock g \<in> obj_strings slot h"
      using g buf [of g c] by auto
    moreover have "fblock f \<noteq> fblock g" using Cons.prems(2) g(1) by auto
    ultimately show False using obj_inv_string(3) [OF inv f(2), of "fblock g"] f(1) by (metis IntI emptyE)
  qed
  moreover have own: "c = fblock f \<or> fbuf f = Some c" if "c \<in> set (footprint f)" for c
    using that by (auto simp: footprint_def value_blocks_def split: option.splits)
  ultimately have "c \<notin> ?rest" if "c \<in> set (footprint f)" for c
    using that by blast
  then have "set (footprint f) \<inter> ?rest = {}" by blast
  moreover have "distinct (footprint f)"
    using buf [of f] core [of f] by (auto simp: footprint_def value_blocks_def split: option.splits)
  moreover have "x \<notin> set (footprint f)"
    using Cons.prems(3,4) buf(1,2) [of f x] own [of x] by (auto simp: obj_texts_def)
  moreover have "distinct (concat (map footprint fs)) \<and> x \<notin> ?rest"
    by (rule Cons.IH) (use Cons.prems in auto)
  ultimately show ?case by simp
qed simp

lemma now_object_rep:
  assumes inv: "obj_inv F slot h" and now: "obj_now h slot b cap gs" and b: "b \<in> published slot h"
  obtains fs where "map outline fs = gs" and "object_rep h slot b cap fs"
proof -
  have slot: "slot_holds h slot (Ptr b 0)" and snap: "obj_snap h slot b cap gs"
    using now by (simp_all add: obj_now_def)
  note sub = obj_snap_fields [OF b snap]
  let ?P = "\<lambda>f g. outline g = f \<and> field_at h g \<and>
    (\<forall>c. fbuf g = Some c \<longrightarrow> is_string f \<and> c \<in> published (Ptr (fblock f) 0) h)"
  have "\<forall>f \<in> set gs. \<exists>g. ?P f g" using outline_text [OF inv] sub by blast
  then obtain t where t: "\<forall>f \<in> set gs. ?P f (t f)" by (auto dest!: bchoice)
  let ?fs = "map t gs"
  have out: "map outline ?fs = gs" using t by (simp add: map_idI)
  then have eq: "map fhash ?fs = map fhash gs" "map fblock ?fs = map fblock gs"
    using map_outline [of ?fs] by simp_all
  have dist: "distinct (map fblock gs)" "blk slot \<notin> set (map fblock gs)" "b \<notin> set (map fblock gs)" "b \<noteq> blk slot"
    using snap by (auto simp: obj_snap_def)
  have own: "x \<notin> obj_texts slot h" if "x \<in> obj_core slot h" for x
    using that obj_texts_core [OF inv] by blast
  have chars: "is_string f \<and> c \<in> published (Ptr (fblock f) 0) h" if f: "f \<in> set ?fs" "fbuf f = Some c" for f c
  proof -
    obtain g where g: "g \<in> set gs" "f = t g" using f(1) by auto
    then have "outline f = g" using t by simp
    then have "fblock f = fblock g" "is_string f = is_string g" using outline_simps(2,3) by metis+
    then show ?thesis using t g f(2) by auto
  qed
  have "blk slot \<in> obj_core slot h" "b \<in> obj_core slot h" using b by (simp_all add: obj_core_def)
  moreover have "x \<notin> fblock ` set ?fs" if "x \<notin> set (map fblock gs)" for x
    using that eq(2) by (metis set_map)
  ultimately have d: "distinct (concat (map footprint ?fs))" "blk slot \<notin> set (concat (map footprint ?fs))"
      "b \<notin> set (concat (map footprint ?fs))"
    using distinct_texts [OF inv, of ?fs] out sub dist own chars eq(2) by metis+
  have "entries_in data gs \<Longrightarrow> entries_in data ?fs" for data
    using t by (metis entries_in_def entry_in_outline length_map nth_map nth_mem)
  moreover have "distinct (map fhash ?fs)" using snap unfolding eq(1) by (simp add: obj_snap_def)
  ultimately have "object_rep h slot b cap ?fs"
    using snap slot d dist(4) t by (auto simp: object_rep_def obj_snap_def)
  with out show ?thesis by (rule that)
qed

lemma obj_inv_fs:
  assumes "obj_inv F slot h"
  shows "\<exists>cap fs B. object_fs h slot cap fs B"
  using assms
proof (cases rule: obj_inv_content)
  case 1
  then show ?thesis unfolding object_fs_def by blast
next
  case (2 b cap gs)
  obtain fs where "object_rep h slot b cap fs" using now_object_rep [OF assms 2(2,1)] .
  then show ?thesis unfolding object_fs_def by blast
qed

lemma obj_current:
  assumes "obj_inv F slot h" and "slot_holds h slot (Ptr b 0)"
  shows "b \<in> published slot h" and "b \<noteq> blk slot" and "b \<notin> fblock ` obj_fields slot h"
proof -
  show p: "b \<in> published slot h"
    using assms by (auto simp: obj_inv_def dest: slot_holds_unique)
  then show "b \<noteq> blk slot" using obj_inv_facts(3) [OF assms(1)] by blast
  show "b \<notin> fblock ` obj_fields slot h" using p assms(1) by (auto simp: obj_inv_def)
qed

lemma current_stringE:
  assumes inv: "obj_inv F slot h" and cur: "current_string slot h vb"
  obtains b cap fs f where "obj_now h slot b cap fs" and "b \<in> published slot h" and "f \<in> set fs" and "is_string f"
    and "fblock f = vb" and "f \<in> obj_fields slot h" and "vb \<in> obj_strings slot h"
proof -
  obtain b cap fs f where now: "obj_now h slot b cap fs" and f: "f \<in> set fs" "is_string f" "fblock f = vb"
    using cur by (auto simp: current_string_def)
  then have slot: "slot_holds h slot (Ptr b 0)" and snap: "obj_snap h slot b cap fs" by (simp_all add: obj_now_def)
  note b = obj_current(1) [OF inv slot]
  have ff: "f \<in> obj_fields slot h" using obj_snap_fields [OF b snap] f(1) by blast
  then have "vb \<in> obj_strings slot h" using f(2,3) by (auto simp: obj_strings_def)
  then show ?thesis by (rule that [OF now b f ff])
qed

section \<open>Along a run\<close>

text \<open>Published buffers stay, and what a buffer says at the end it said at some moment when it was
  the current one, or it said it from the start.\<close>

lemma obj_evolves:
  assumes "evolves (obj_guar F slot) h h'" and "obj_inv F slot h"
  shows "obj_inv F slot h' \<and> published slot h \<subseteq> published slot h'"
  using assms by (induction rule: evolves.induct) (auto simp: obj_guar_def)

lemma obj_snap_later:
  assumes "evolves (obj_guar F slot) h h'" and "obj_inv F slot h" and "b \<in> published slot h"
    and "obj_snap h slot b cap fs"
  obtains gs where "obj_snap h' slot b cap (fs @ gs)"
    and "gs = [] \<or> (\<exists>hm. evolves (obj_guar F slot) h hm \<and> evolves (obj_guar F slot) hm h' \<and>
      obj_now hm slot b cap (fs @ gs))"
proof -
  have "\<exists>gs. obj_snap h' slot b cap (fs @ gs) \<and> (gs = [] \<or>
      (\<exists>hm. evolves (obj_guar F slot) h hm \<and> evolves (obj_guar F slot) hm h' \<and> obj_now hm slot b cap (fs @ gs)))"
    using assms
  proof (induction arbitrary: fs rule: evolves.induct)
    case (evolves_refl h)
    then show ?case by (metis append_Nil2)
  next
    case (evolves_step h e h')
    let ?h1 = "apply_event e h"
    obtain gs where g: "obj_snap ?h1 slot b cap (fs @ gs)" "gs = [] \<or> slot_holds ?h1 slot (Ptr b 0)"
      using evolves_step.hyps(2) evolves_step.prems unfolding obj_guar_def obj_grows_def by blast
    have inv1: "obj_inv F slot ?h1" "b \<in> published slot ?h1"
      using evolves_step.hyps(2) evolves_step.prems(2) by (auto simp: obj_guar_def)
    from evolves_step.IH [OF inv1 g(1)] obtain gs' where g': "obj_snap h' slot b cap ((fs @ gs) @ gs')"
        "gs' = [] \<or> (\<exists>hm. evolves (obj_guar F slot) ?h1 hm \<and> evolves (obj_guar F slot) hm h' \<and>
          obj_now hm slot b cap ((fs @ gs) @ gs'))"
      by blast
    have one: "evolves (obj_guar F slot) h ?h1"
      using evolves_step.hyps(1,2) by (rule evolves_one)
    have "gs @ gs' = [] \<or> (\<exists>hm. evolves (obj_guar F slot) h hm \<and> evolves (obj_guar F slot) hm h' \<and>
        obj_now hm slot b cap (fs @ gs @ gs'))"
    proof (cases "gs' = []")
      case True
      then show ?thesis
        using g one evolves_step.hyps(3) by (auto simp: obj_now_def)
    next
      case False
      then obtain hm where "evolves (obj_guar F slot) ?h1 hm" "evolves (obj_guar F slot) hm h'"
          "obj_now hm slot b cap ((fs @ gs) @ gs')"
        using g'(2) by blast
      then show ?thesis using evolves_trans [OF one] by auto
    qed
    then show ?case using g'(1) by (metis append_assoc)
  qed
  then show ?thesis using that by blast
qed

lemma obj_fields_later:
  assumes ev: "evolves (obj_guar F slot) h h'" and inv: "obj_inv F slot h"
  shows "obj_fields slot h \<subseteq> obj_fields slot h'"
proof
  fix f assume "f \<in> obj_fields slot h"
  then obtain b cap fs where b: "b \<in> published slot h" "obj_snap h slot b cap fs" "f \<in> set fs"
    by (auto simp: obj_fields_def)
  obtain gs where "obj_snap h' slot b cap (fs @ gs)" using obj_snap_later [OF ev inv b(1,2)] by metis
  moreover have "b \<in> published slot h'" using obj_evolves [OF ev inv] b(1) by blast
  ultimately show "f \<in> obj_fields slot h'" using obj_snap_fields [of b slot h' cap "fs @ gs"] b(3) by auto
qed

text \<open>The strings stay, and so does every text of theirs.\<close>

lemma obj_string_later:
  assumes "evolves (obj_guar F slot) h h'" and "obj_inv F slot h" and "vb \<in> obj_strings slot h"
  shows "vb \<in> obj_strings slot h' \<and> published (Ptr vb 0) h \<subseteq> published (Ptr vb 0) h' \<and>
    (\<forall>c \<in> published (Ptr vb 0) h. blocks h' c = blocks h c)"
  using assms
proof (induction rule: evolves.induct)
  case (evolves_step h e h')
  let ?h1 = "apply_event e h"
  have g: "obj_inv F slot ?h1" "texts_kept slot h ?h1"
    using evolves_step.hyps(2) by (simp_all add: obj_guar_def)
  have "obj_fields slot h \<subseteq> obj_fields slot ?h1"
    using evolves_one [of h e "obj_guar F slot"] evolves_step.hyps(1,2) evolves_step.prems(1)
    by (intro obj_fields_later) simp_all
  then have vb1: "vb \<in> obj_strings slot ?h1" using evolves_step.prems(2) by (auto simp: obj_strings_def)
  have k: "published (Ptr vb 0) h \<subseteq> published (Ptr vb 0) ?h1" "\<forall>c \<in> published (Ptr vb 0) h. blocks ?h1 c = blocks h c"
    using g(2) evolves_step.prems(2) by (auto simp: texts_kept_def)
  from evolves_step.IH [OF g(1) vb1] k show ?case by (metis subset_iff)
qed simp

text \<open>What a string holds at the end of a run, it held at a moment of the run when it was a field of
  the object, if it was one at the start.\<close>

lemma string_at_later:
  assumes inv: "obj_inv F slot h" "vb \<in> obj_strings slot h" and at: "string_at h' (Ptr vb 0) s"
    and b: "blocks h' vb = blocks h vb" and t: "\<forall>c \<in> published (Ptr vb 0) h. blocks h' c = blocks h c"
  shows "string_at h (Ptr vb 0) s"
proof -
  have slot: "slot_holds h' (Ptr vb 0) q = slot_holds h (Ptr vb 0) q" for q
    using b by (intro slot_holds_cong) simp
  from obj_inv_string(1) [OF inv] show ?thesis
  proof (cases rule: str_inv_content)
    case 1
    then have "string_at h' (Ptr vb 0) []" using slot by (simp add: string_at_def)
    then show ?thesis using 1(2) string_at_unique [OF at] by simp
  next
    case (2 c u)
    then have "string_rep h' (Ptr vb 0) c u" using slot t by (simp add: string_rep_def)
    then have "s = u" using string_at_unique [OF at] by (auto simp: string_at_def)
    then show ?thesis using 2(2) by (auto simp: string_at_def)
  qed
qed

lemma string_moment:
  assumes "evolves (obj_guar F slot) h h'" and "obj_inv F slot h" and "current_string slot h vb"
    and "string_at h' (Ptr vb 0) s"
  obtains hm where "evolves (obj_guar F slot) h hm" and "evolves (obj_guar F slot) hm h'"
    and "obj_inv F slot hm" and "current_string slot hm vb" and "string_at hm (Ptr vb 0) s"
proof -
  let ?G = "obj_guar F slot"
  let ?seen = "\<lambda>h0 h. \<exists>hm. evolves ?G h0 hm \<and> evolves ?G hm h \<and> obj_inv F slot hm \<and> current_string slot hm vb \<and>
    (\<forall>s. string_at h (Ptr vb 0) s \<longrightarrow> string_at hm (Ptr vb 0) s)"
  have cur: "vb \<in> obj_strings slot h" using current_stringE [OF assms(2,3)] .
  have "?seen h0 h'" if "evolves ?G h h'" "obj_inv F slot h" "vb \<in> obj_strings slot h" "?seen h0 h" for h0 h h'
    using that
  proof (induction rule: evolves.induct)
    case (evolves_step h e h')
    let ?h1 = "apply_event e h"
    have one: "evolves ?G h ?h1" using evolves_step.hyps(1,2) by (rule evolves_one)
    have inv1: "obj_inv F slot ?h1" and k: "texts_kept slot h ?h1"
      using evolves_step.hyps(2) by (simp_all add: obj_guar_def)
    note l = obj_string_later [OF one evolves_step.prems(1,2)]
    obtain hm where hm: "evolves ?G h0 hm" "evolves ?G hm h" "obj_inv F slot hm" "current_string slot hm vb"
        "\<forall>s. string_at h (Ptr vb 0) s \<longrightarrow> string_at hm (Ptr vb 0) s"
      using evolves_step.prems(3) by blast
    have "?seen h0 ?h1"
    proof (cases "current_string slot ?h1 vb")
      case True
      then show ?thesis
        using inv1 evolves_trans [OF hm(1) evolves_trans [OF hm(2) one]] evolves_refl by blast
    next
      case False
      then have "blocks ?h1 vb = blocks h vb" using k evolves_step.prems(2) by (auto simp: texts_kept_def)
      then have "string_at ?h1 (Ptr vb 0) s \<Longrightarrow> string_at h (Ptr vb 0) s" for s
        using string_at_later [OF evolves_step.prems(1,2)] l by blast
      then show ?thesis using hm evolves_trans [OF hm(2) one] by blast
    qed
    then show ?case using evolves_step.IH inv1 l by blast
  qed
  moreover have "?seen h h" using assms(2,3) evolves_refl by blast
  ultimately have "?seen h h'" using assms(1,2) cur by blast
  then show ?thesis using that assms(4) by blast
qed

end
