(* ===== verification/Msm_Object_Steps.thy ===== *)
theory Msm_Object_Steps
  imports Msm_Object_Shared
begin

text \<open>
  The writes to a shared object that are safe, one lemma per kind of write: a write elsewhere, one
  that publishes a buffer of entries, one behind the entries of the current buffer, the one that
  commits an entry there, and one that publishes the text of a string.
\<close>

section \<open>Writes elsewhere\<close>

lemma obj_fields_keep:
  assumes "obj_inv F slot h" and "published slot h' = published slot h"
    and keep: "\<And>b cap fs. b \<in> published slot h \<Longrightarrow> obj_snap h slot b cap fs \<Longrightarrow> obj_snap h' slot b cap fs"
  shows "obj_fields slot h' = obj_fields slot h"
proof -
  have "obj_snap h' slot b cap fs = obj_snap h slot b cap fs" if b: "b \<in> published slot h" for b cap fs
  proof
    assume s': "obj_snap h' slot b cap fs"
    obtain cap0 fs0 where s: "obj_snap h slot b cap0 fs0" using obj_inv_snap [OF assms(1) b] .
    then show "obj_snap h slot b cap fs" using obj_snap_unique [OF keep [OF b s] s'] by simp
  qed (rule keep [OF b])
  then show ?thesis using assms(2) by (auto simp: obj_fields_def)
qed

text \<open>Strings whose pointers and texts are the same.\<close>

lemma strings_same:
  assumes inv: "obj_inv F slot h" and wf: "heap_wf h'"
    and blk: "\<forall>c \<in> obj_strings slot h \<union> obj_texts slot h. blocks h' c = blocks h c"
    and pub: "\<forall>vb \<in> obj_strings slot h. published (Ptr vb 0) h' = published (Ptr vb 0) h"
  shows "vb \<in> obj_strings slot h \<Longrightarrow> C \<inter> published (Ptr vb 0) h = {} \<Longrightarrow> C \<subseteq> {..<next_block h'} \<Longrightarrow>
      str_inv C (Ptr vb 0) h'"
    and "disjoint_texts (obj_strings slot h) h'" and "texts_kept slot h h'"
proof -
  have t: "blocks h' c = blocks h c" if "vb \<in> obj_strings slot h" "c \<in> published (Ptr vb 0) h" for vb c
    using that blk by (auto simp: obj_texts_def)
  show "str_inv C (Ptr vb 0) h'" if vb: "vb \<in> obj_strings slot h" and C: "C \<inter> published (Ptr vb 0) h = {}"
      "C \<subseteq> {..<next_block h'}"
  proof (rule str_inv_frame [OF obj_inv_string(1) [OF inv vb] wf bspec [OF pub vb] _ t [OF vb] C])
    fix q show "slot_holds h' (Ptr vb 0) q = slot_holds h (Ptr vb 0) q"
      using blk vb by (intro slot_holds_cong) simp
  qed
  show "disjoint_texts (obj_strings slot h) h'" using inv pub by (simp add: obj_inv_def disjoint_texts_def)
  show "texts_kept slot h h'" using t pub blk by (simp add: texts_kept_def)
qed

text \<open>A heap in which nothing shared is different.\<close>

lemma obj_elsewhere:
  assumes inv: "obj_inv F slot h" and wf: "heap_wf h'" and nx: "next_block h \<le> next_block h'"
    and pub: "published slot h' = published slot h"
    and spub: "\<forall>vb \<in> obj_strings slot h. published (Ptr vb 0) h' = published (Ptr vb 0) h"
    and slot: "\<And>q. slot_holds h' slot q = slot_holds h slot q"
    and same: "\<And>c. c \<in> obj_shared slot h \<Longrightarrow> c \<noteq> blk slot \<Longrightarrow> blocks h' c = blocks h c"
  shows "obj_inv F slot h' \<and> obj_grows slot h h' \<and> texts_kept slot h h' \<and> obj_fields slot h' = obj_fields slot h"
proof -
  have keep: "obj_snap h' slot b cap fs"
    if b: "b \<in> published slot h" and s: "obj_snap h slot b cap fs" for b cap fs
  proof (rule obj_snap_keep [OF s])
    fix c assume c: "c = b \<or> c \<in> fblock ` set fs"
    then have "c \<in> obj_shared slot h" using b obj_snap_fields [OF b s] obj_shared_intro(2,3) by blast
    moreover have "c \<noteq> blk slot" using c s by (auto simp: obj_snap_def)
    ultimately show "blocks h' c = blocks h c" by (rule same)
  qed
  note flds = obj_fields_keep [OF inv pub keep]
  then have strs: "obj_strings slot h' = obj_strings slot h" by (simp add: obj_strings_def)
  have core: "obj_core slot h' = obj_core slot h" by (simp add: obj_core_def pub flds)
  have texts: "obj_texts slot h' = obj_texts slot h" using spub by (simp add: obj_texts_def strs)
  have "\<forall>c \<in> obj_strings slot h \<union> obj_texts slot h. blocks h' c = blocks h c"
  proof (intro ballI same)
    fix c assume c: "c \<in> obj_strings slot h \<union> obj_texts slot h"
    then show "c \<in> obj_shared slot h" using obj_strings_core by (auto simp: obj_shared_def)
    have "blk slot \<in> obj_core slot h" by (simp add: obj_core_def)
    then show "c \<noteq> blk slot" using c obj_texts_core [OF inv] by (auto elim: obj_stringsE)
  qed
  note s = strings_same [OF inv wf this spub]
  have lives: "obj_core slot h \<subseteq> {..<next_block h'}"
    using obj_inv_facts(6) [OF inv] nx by (fastforce simp: obj_shared_def)
  have "str_inv (obj_core slot h) (Ptr vb 0) h'" if "vb \<in> obj_strings slot h" for vb
    using obj_inv_string(2) [OF inv that] lives by (intro s(1) [OF that]) auto
  moreover have "F \<subseteq> {..<next_block h'}" using inv nx by (auto simp: obj_inv_def)
  moreover have "\<exists>cap fs. obj_snap h' slot b cap fs" if "b \<in> published slot h" for b
    using keep [OF that] obj_inv_snap [OF inv that] by metis
  ultimately have "obj_inv F slot h'"
    using inv wf s(2) by (simp add: obj_inv_def pub slot flds strs core texts obj_shared_def)
  moreover have "obj_grows slot h h'"
    unfolding obj_grows_def using keep by (metis append_Nil2)
  ultimately show ?thesis using s(3) flds by blast
qed

text \<open>Events that only touch blocks of \<open>P\<close>, or new ones.\<close>

fun private_event :: "nat set \<Rightarrow> event \<Rightarrow> bool" where
  "private_event P (Write a b k xs) = (b \<in> P)"
| "private_event P (Alloc b n) = True"
| "private_event P (AllocFail n) = True"
| "private_event P (Free b) = False"

lemma fresh_private: "fresh_event nb e \<Longrightarrow> private_event {nb} e"
  by (cases e) auto

lemma private_blocks:
  assumes "private_event P e" and "event_ok h e" and "c \<notin> P" and "c < next_block h"
  shows "blocks (apply_event e h) c = blocks h c"
  using assms by (cases e) (auto simp: blocks_put)

lemma private_published:
  "private_event P e \<Longrightarrow> event_ok h e \<Longrightarrow> blk slot \<notin> P \<Longrightarrow> blk slot < next_block h \<Longrightarrow>
   published slot (apply_event e h) = published slot h"
  by (auto simp: published_apply_event)

lemma obj_plain_shared: "obj_plain slot h c j \<Longrightarrow> c \<in> obj_shared slot h"
  by (auto simp: obj_plain_def obj_shared_def obj_core_def)

lemma obj_plain_own:
  assumes "obj_inv F slot h" and "obj_plain slot h c j"
  shows "c \<noteq> blk slot"
proof -
  have "blk slot \<in> obj_core slot h" by (simp add: obj_core_def)
  then have "blk slot \<notin> obj_texts slot h" using obj_texts_core [OF assms(1)] by blast
  moreover have "f \<in> obj_fields slot h \<Longrightarrow> blk slot \<noteq> fblock f" for f using obj_fields_at by metis
  ultimately show ?thesis using assms(2) obj_inv_facts(3) [OF assms(1)] by (auto simp: obj_plain_def)
qed

lemma obj_sync_shared: "(c, k, w) \<in> obj_sync slot h \<Longrightarrow> c \<in> obj_shared slot h"
  using obj_strings_core by (auto simp: obj_sync_def obj_shared_def obj_core_def)

lemma obj_guar_private:
  assumes inv: "obj_inv F slot h" and e: "event_ok h e" "private_event P e"
    and P: "P \<inter> obj_shared slot h = {}" "P \<inter> F = {}"
  shows "obj_guar F slot h e \<and> obj_inv F slot (apply_event e h) \<and>
    obj_shared slot (apply_event e h) = obj_shared slot h \<and> published slot (apply_event e h) = published slot h \<and>
    obj_fields slot (apply_event e h) = obj_fields slot h"
proof -
  let ?h' = "apply_event e h"
  have off: "c \<notin> P" if "c \<in> obj_shared slot h" for c using that P(1) by blast
  note pub = private_published [OF e(2,1) off [OF obj_shared_intro(1)] obj_inv_facts(7) [OF inv]]
  have spub: "\<forall>vb \<in> obj_strings slot h. published (Ptr vb 0) ?h' = published (Ptr vb 0) h"
  proof
    fix vb assume "vb \<in> obj_strings slot h"
    then have "vb \<in> obj_shared slot h" using obj_strings_core by (auto simp: obj_shared_def)
    then show "published (Ptr vb 0) ?h' = published (Ptr vb 0) h" using private_published [OF e(2,1), of "Ptr vb 0"] off obj_shared_live [OF inv] by simp
  qed
  have wf: "heap_wf ?h'" using obj_inv_facts(1) [OF inv] by simp
  have same: "blocks ?h' c = blocks h c" if "c \<in> obj_shared slot h" for c
    using that off obj_shared_live [OF inv that] by (intro private_blocks [OF e(2,1)]) auto
  have "slot_holds ?h' slot q = slot_holds h slot q" for q
    using same obj_shared_intro(1) by (intro slot_holds_cong) auto
  note s = obj_elsewhere [OF inv wf next_block_event pub spub this same]
  have t: "touches e b j \<Longrightarrow> b \<in> P" for b j using e(2) by (cases e) auto
  have "race_free (obj_plain slot h) (obj_sync slot h) e"
  proof (rule race_freeI)
    fix b j assume "obj_plain slot h b j" "touches e b j"
    then show False using t obj_plain_shared off by blast
  next
    fix b k w j assume a: "(b, k, w) \<in> obj_sync slot h" "touches e b j"
    then show "\<exists>xs. e = Write (Atomic Release) b k xs \<and> length xs = w"
      using t [OF a(2)] off obj_sync_shared by blast
  qed
  moreover have "avoids F slot e" using t P(2) unfolding avoids_def by blast
  moreover have "obj_shared slot ?h' = obj_shared slot h"
    using s pub spub by (auto simp: obj_shared_def obj_core_def obj_texts_def obj_strings_def)
  ultimately show ?thesis using s pub by (simp add: obj_guar_def)
qed

lemma obj_evolves_private:
  assumes "evolves (\<lambda>_. private_event P) h h'" and "obj_inv F slot h" and "P \<inter> obj_shared slot h = {}"
    and "P \<inter> F = {}"
  shows "evolves (obj_guar F slot) h h' \<and> obj_inv F slot h' \<and> obj_shared slot h' = obj_shared slot h \<and>
    published slot h' = published slot h \<and> obj_fields slot h' = obj_fields slot h"
proof -
  let ?I = "\<lambda>g. obj_inv F slot g \<and> obj_shared slot g = obj_shared slot h \<and> published slot g = published slot h \<and>
    obj_fields slot g = obj_fields slot h"
  have "evolves (obj_guar F slot) h h' \<and> ?I h'"
    using assms(1)
  proof (rule evolves_weaken [where I = ?I])
    fix g e assume "?I g" "event_ok g e" "private_event P e"
    then show "obj_guar F slot g e \<and> ?I (apply_event e g)"
      using obj_guar_private [of F slot g e P] assms(3,4) by simp
  qed (use assms(2) in simp)
  then show ?thesis by simp
qed

text \<open>What a private run leaves as it is.\<close>

lemma private_frame:
  assumes "evolves (\<lambda>_. private_event P) h h'"
  shows "c \<notin> P \<Longrightarrow> c < next_block h \<Longrightarrow> blocks h' c = blocks h c" and "next_block h \<le> next_block h'"
proof -
  have step: "next_block h \<le> next_block (apply_event e h)" for h e
    by (cases e) auto
  have "(c \<notin> P \<longrightarrow> c < next_block h \<longrightarrow> blocks h' c = blocks h c) \<and> next_block h \<le> next_block h'"
    using assms
  proof (induction rule: evolves.induct)
    case (evolves_step h e h')
    then show ?case using step [of h e] private_blocks [of P e h c] by auto
  qed simp
  then show "c \<notin> P \<Longrightarrow> c < next_block h \<Longrightarrow> blocks h' c = blocks h c" "next_block h \<le> next_block h'"
    by simp_all
qed

section \<open>Writes to what is shared\<close>

text \<open>A write may publish buffers \<open>N\<close> and add fields \<open>G\<close> to the current one.\<close>

lemma obj_fields_added:
  assumes inv: "obj_inv F slot h" and pub: "published slot h' = published slot h \<union> N"
    and old: "\<And>b cap fs. b \<in> published slot h \<Longrightarrow> obj_snap h slot b cap fs \<Longrightarrow>
      \<exists>gs. obj_snap h' slot b cap (fs @ gs) \<and> set gs \<subseteq> G"
    and new: "\<And>b. b \<in> N \<Longrightarrow> \<exists>cap fs. obj_snap h' slot b cap fs \<and> set fs \<subseteq> obj_fields slot h"
    and G: "G \<subseteq> obj_fields slot h'"
  shows "obj_fields slot h' = obj_fields slot h \<union> G"
    and "b \<in> published slot h' \<Longrightarrow> \<exists>cap fs. obj_snap h' slot b cap fs"
proof -
  have each: "\<exists>cap fs. obj_snap h' slot b cap fs \<and> set fs \<subseteq> obj_fields slot h \<union> G"
    if b: "b \<in> published slot h'" for b
  proof (cases "b \<in> published slot h")
    case True
    obtain cap fs where s: "obj_snap h slot b cap fs" "set fs \<subseteq> obj_fields slot h"
      using obj_inv_snap [OF inv True] .
    obtain gs where "obj_snap h' slot b cap (fs @ gs)" "set gs \<subseteq> G" using old [OF True s(1)] by blast
    then show ?thesis using s(2) by (intro exI [of _ cap] exI [of _ "fs @ gs"]) auto
  next
    case False
    then show ?thesis using new b pub by blast
  qed
  then show "b \<in> published slot h' \<Longrightarrow> \<exists>cap fs. obj_snap h' slot b cap fs" by blast
  have "f \<in> obj_fields slot h \<union> G" if f: "f \<in> obj_fields slot h'" for f
  proof -
    obtain b cap fs where b: "b \<in> published slot h'" "obj_snap h' slot b cap fs" "f \<in> set fs"
      using f by (auto simp: obj_fields_def)
    obtain cap0 fs0 where "obj_snap h' slot b cap0 fs0" "set fs0 \<subseteq> obj_fields slot h \<union> G"
      using each [OF b(1)] by blast
    then show ?thesis using obj_snap_unique(1) [OF b(2)] b(3) by blast
  qed
  moreover have "f \<in> obj_fields slot h'" if f: "f \<in> obj_fields slot h" for f
  proof -
    obtain b cap fs where b: "b \<in> published slot h" "obj_snap h slot b cap fs" "f \<in> set fs"
      using f by (auto simp: obj_fields_def)
    obtain gs where "obj_snap h' slot b cap (fs @ gs)" using old [OF b(1,2)] by blast
    then show ?thesis using b(1,3) pub obj_snap_fields [of b slot h' cap "fs @ gs"] by auto
  qed
  ultimately show "obj_fields slot h' = obj_fields slot h \<union> G" using G by blast
qed

lemma obj_blocks_added:
  assumes inv: "obj_inv F slot h" and G: "inj_on fblock G" "fblock ` G \<inter> (obj_shared slot h \<union> N) = {}"
    and N: "N \<inter> obj_shared slot h = {}"
  shows "inj_on fblock (obj_fields slot h \<union> G)"
    and "fblock ` (obj_fields slot h \<union> G) \<inter> (published slot h \<union> N) = {}"
proof -
  have f: "fblock ` obj_fields slot h \<subseteq> obj_shared slot h" using obj_shared_intro(3) by blast
  have "inj_on fblock (obj_fields slot h)" using inv by (simp add: obj_inv_def)
  moreover have "fblock ` obj_fields slot h \<inter> fblock ` G = {}" using f G(2) by blast
  ultimately show "inj_on fblock (obj_fields slot h \<union> G)" using G(1) by (auto simp: inj_on_Un)
  have "fblock ` obj_fields slot h \<inter> published slot h = {}" using inv by (simp add: obj_inv_def)
  moreover have "fblock ` obj_fields slot h \<inter> N = {}" using f N by blast
  moreover have "fblock ` G \<inter> (published slot h \<union> N) = {}" using G(2) obj_shared_intro(2) by blast
  ultimately show "fblock ` (obj_fields slot h \<union> G) \<inter> (published slot h \<union> N) = {}"
    by (simp add: image_Un Int_Un_distrib Int_Un_distrib2)
qed

text \<open>What there is to show of such a write.\<close>

lemma obj_guarI:
  fixes G :: "obj_field set"
  assumes inv: "obj_inv F slot h"
    and pub: "published slot (apply_event e h) = published slot h \<union> N"
    and slot: "slot_holds (apply_event e h) slot q"
      "q = Null \<or> q \<in> (\<lambda>b. Ptr b 0) ` published slot (apply_event e h)"
    and old: "\<And>b cap fs. b \<in> published slot h \<Longrightarrow> obj_snap h slot b cap fs \<Longrightarrow>
      \<exists>gs. obj_snap (apply_event e h) slot b cap (fs @ gs) \<and> set gs \<subseteq> G \<and>
        (gs = [] \<or> slot_holds (apply_event e h) slot (Ptr b 0))"
    and new: "\<And>b. b \<in> N \<Longrightarrow> b \<notin> obj_shared slot h \<and> b \<notin> F \<and>
      (\<exists>cap fs. obj_snap (apply_event e h) slot b cap fs \<and> set fs \<subseteq> obj_fields slot h)"
    and added: "G \<subseteq> obj_fields slot (apply_event e h)" "inj_on fblock G"
      "fblock ` G \<inter> (obj_shared slot h \<union> N \<union> F) = {}"
    and strs: "\<forall>vb \<in> obj_strings slot h \<union> fblock ` {g \<in> G. is_string g}.
      str_inv (obj_core slot h \<union> N \<union> fblock ` G) (Ptr vb 0) (apply_event e h) \<and>
      F \<inter> published (Ptr vb 0) (apply_event e h) = {}"
      "disjoint_texts (obj_strings slot h \<union> fblock ` {g \<in> G. is_string g}) (apply_event e h)"
      "texts_kept slot h (apply_event e h)"
    and "race_free (obj_plain slot h) (obj_sync slot h) e" and "avoids F slot e"
  shows "obj_guar F slot h e"
proof -
  let ?h' = "apply_event e h"
  have flds: "obj_fields slot ?h' = obj_fields slot h \<union> G"
    and snaps: "\<forall>b \<in> published slot ?h'. \<exists>cap fs. obj_snap ?h' slot b cap fs"
    using obj_fields_added [OF inv pub _ _ added(1)] old new by blast+
  then have strs': "obj_strings slot ?h' = obj_strings slot h \<union> fblock ` {g \<in> G. is_string g}"
    by (auto simp: obj_strings_def)
  have core: "obj_core slot ?h' = obj_core slot h \<union> N \<union> fblock ` G"
    by (auto simp: obj_core_def flds pub)
  have "F \<inter> (obj_shared slot h - {blk slot}) = {}" using inv by (simp add: obj_inv_def)
  then have "F \<inter> (obj_core slot ?h' - {blk slot}) = {}"
    using new added(3) unfolding core by (auto simp: obj_shared_def)
  moreover have "F \<inter> obj_texts slot ?h' = {}" using strs(1) unfolding obj_texts_def strs' by blast
  ultimately have "F \<inter> (obj_shared slot ?h' - {blk slot}) = {}" unfolding obj_shared_def by blast
  moreover have "F \<subseteq> {..<next_block ?h'}" using inv by (intro live_later) (simp add: obj_inv_def)
  moreover have "heap_wf ?h'" using obj_inv_facts(1) [OF inv] by simp
  moreover have "\<forall>vb \<in> obj_strings slot ?h'. str_inv (obj_core slot ?h') (Ptr vb 0) ?h'"
    using strs(1) by (simp add: strs' core)
  moreover have "inj_on fblock (obj_fields slot h \<union> G)"
    "fblock ` (obj_fields slot h \<union> G) \<inter> (published slot h \<union> N) = {}"
    using obj_blocks_added [OF inv added(2), of N] added(3) new by blast+
  ultimately have "obj_inv F slot ?h'"
    using slot snaps strs(2) unfolding obj_inv_def flds strs' pub by blast
  moreover have "obj_grows slot h ?h'"
    unfolding obj_grows_def using old by blast
  ultimately show ?thesis
    using assms(13-) strs(3) pub by (simp add: obj_guar_def)
qed

text \<open>A write into one block that is no string of the object.\<close>

lemma write_strings:
  assumes inv: "obj_inv F slot h" and e: "e = Write a x k xs"
    and x: "x \<in> obj_core slot h" "x \<notin> obj_strings slot h"
  shows "vb \<in> obj_strings slot h \<Longrightarrow> C \<inter> published (Ptr vb 0) h = {} \<Longrightarrow> C \<subseteq> {..<next_block h} \<Longrightarrow>
      str_inv C (Ptr vb 0) (apply_event e h)"
    and "disjoint_texts (obj_strings slot h) (apply_event e h)" and "texts_kept slot h (apply_event e h)"
    and "vb \<in> obj_strings slot h \<Longrightarrow> published (Ptr vb 0) (apply_event e h) = published (Ptr vb 0) h"
proof -
  let ?h' = "apply_event e h"
  have wf: "heap_wf ?h'" using obj_inv_facts(1) [OF inv] by simp
  have pub: "\<forall>vb \<in> obj_strings slot h. published (Ptr vb 0) ?h' = published (Ptr vb 0) h"
  proof
    fix vb assume "vb \<in> obj_strings slot h"
    then show "published (Ptr vb 0) ?h' = published (Ptr vb 0) h"
      using x(2) by (subst published_apply_event) (auto simp: e)
  qed
  have "\<forall>c \<in> obj_strings slot h \<union> obj_texts slot h. blocks ?h' c = blocks h c"
    using x obj_texts_core [OF inv] by (auto simp: e blocks_put)
  note s = strings_same [OF inv wf this pub]
  show "vb \<in> obj_strings slot h \<Longrightarrow> C \<inter> published (Ptr vb 0) h = {} \<Longrightarrow> C \<subseteq> {..<next_block h} \<Longrightarrow>
      str_inv C (Ptr vb 0) ?h'"
    using s(1) [of vb C] by (simp add: e)
  show "disjoint_texts (obj_strings slot h) ?h'" "texts_kept slot h ?h'" by (rule s(2), rule s(3))
  show "vb \<in> obj_strings slot h \<Longrightarrow> published (Ptr vb 0) ?h' = published (Ptr vb 0) h" using pub by blast
qed

lemma obj_owned_strings:
  assumes "obj_inv F slot h" and "vb \<in> obj_strings slot h"
  shows "F \<inter> published (Ptr vb 0) h = {}"
proof -
  have "F \<inter> (obj_shared slot h - {blk slot}) = {}" using assms(1) by (simp add: obj_inv_def)
  moreover have "published (Ptr vb 0) h \<subseteq> obj_shared slot h - {blk slot}"
    using obj_shared_intro(4) [OF assms(2)] obj_inv_string(2) [OF assms] by (auto simp: obj_core_def)
  ultimately show ?thesis by blast
qed

lemma obj_core_live: "obj_inv F slot h \<Longrightarrow> obj_core slot h \<subseteq> {..<next_block h}"
  using obj_inv_facts(6) by (auto simp: obj_shared_def)

lemma obj_guar_publish:
  assumes inv: "obj_inv F slot h"
    and e: "e = Write (Atomic Release) (blk slot) (off slot + 8) (ptr_cells q)"
    and q: "q = Null \<or> (\<exists>b cap fs. q = Ptr b 0 \<and> b \<notin> obj_shared slot h \<and> obj_snap h slot b cap fs \<and>
      set fs \<subseteq> obj_fields slot h \<and> b \<notin> F \<and> b < next_block h)"
  shows "obj_guar F slot h e"
proof -
  let ?h' = "apply_event e h" and ?N = "{b. q = Ptr b 0}"
  have pub: "published slot ?h' = published slot h \<union> ?N"
    by (subst published_apply_event) (auto simp: e)
  have same: "blocks ?h' c = blocks h c" if "c \<noteq> blk slot" for c
    using that by (simp add: e blocks_put)
  have snap: "obj_snap ?h' slot b cap fs" if s: "obj_snap h slot b cap fs" for b cap fs
  proof (rule obj_snap_keep [OF s])
    show "blocks ?h' c = blocks h c" if "c = b \<or> c \<in> fblock ` set fs" for c
      using that s by (intro same) (auto simp: obj_snap_def)
  qed
  obtain p where p: "slot_holds h slot p" using inv by (auto simp: obj_inv_def)
  have root: "blk slot \<in> obj_core slot h" "blk slot \<notin> obj_strings slot h"
    by (auto simp: obj_core_def elim: obj_stringsE)
  note w = write_strings [OF inv e root]
  show ?thesis
  proof (rule obj_guarI [OF inv pub, where G = "{}"])
    show "slot_holds ?h' slot q" using slot_holds_publish [OF p] by (simp add: e)
    show "q = Null \<or> q \<in> (\<lambda>b. Ptr b 0) ` published slot ?h'" using q pub by auto
    show "\<exists>gs. obj_snap ?h' slot b cap (fs @ gs) \<and> set gs \<subseteq> {} \<and> (gs = [] \<or> slot_holds ?h' slot (Ptr b 0))"
      if "obj_snap h slot b cap fs" for b cap fs
      using snap [OF that] by (intro exI [of _ "[]"]) simp
    show "b \<notin> obj_shared slot h \<and> b \<notin> F \<and> (\<exists>cap fs. obj_snap ?h' slot b cap fs \<and> set fs \<subseteq> obj_fields slot h)"
      if "b \<in> ?N" for b
      using that q snap by blast
    show "\<forall>vb \<in> obj_strings slot h \<union> fblock ` {g \<in> {}. is_string g}.
        str_inv (obj_core slot h \<union> ?N \<union> fblock ` {}) (Ptr vb 0) ?h' \<and> F \<inter> published (Ptr vb 0) ?h' = {}"
    proof
      fix vb assume "vb \<in> obj_strings slot h \<union> fblock ` {g \<in> {}. is_string g}"
      then have vb: "vb \<in> obj_strings slot h" by simp
      have "(obj_core slot h \<union> ?N) \<inter> published (Ptr vb 0) h = {}"
        using obj_inv_string(2) [OF inv vb] obj_shared_intro(4) [OF vb] q by auto
      moreover have "obj_core slot h \<union> ?N \<subseteq> {..<next_block h}" using obj_core_live [OF inv] q by auto
      ultimately show "str_inv (obj_core slot h \<union> ?N \<union> fblock ` {}) (Ptr vb 0) ?h' \<and>
          F \<inter> published (Ptr vb 0) ?h' = {}"
        using w(1) [OF vb] w(4) [OF vb] obj_owned_strings [OF inv vb] by simp
    qed
    have "b \<noteq> blk slot" if "b \<in> published slot h" for b
      using that obj_inv_facts(3) [OF inv] by blast
    moreover have "vb \<noteq> blk slot" if "vb \<in> obj_strings slot h" for vb using that root(2) by blast
    ultimately show "race_free (obj_plain slot h) (obj_sync slot h) e"
      using obj_plain_own [OF inv] by (intro race_freeI) (auto simp: e obj_sync_def)
    show "avoids F slot e" by (simp add: e avoids_slot)
  qed (use w(2,3) in simp_all)
qed

text \<open>\<open>obj_filling\<close>: the current buffer \<open>b\<close> of the object has the outline \<open>fs\<close>, and \<open>data\<close>
  in its entries area, what is behind the entries included.\<close>

definition obj_filling :: "nat set \<Rightarrow> ptr \<Rightarrow> heap \<Rightarrow> nat \<Rightarrow> u32 \<Rightarrow> obj_field list \<Rightarrow> cell list \<Rightarrow> bool" where
  "obj_filling F slot h b cap fs data \<longleftrightarrow> obj_inv F slot h \<and> obj_now h slot b cap fs \<and>
     blocks h b = Some (counted (of_nat (length fs)) cap data)"

lemma obj_fillingE:
  assumes "obj_filling F slot h b cap fs data"
  obtains "obj_inv F slot h" and "slot_holds h slot (Ptr b 0)" and "obj_snap h slot b cap fs"
    and "obj_now h slot b cap fs" and "blocks h b = Some (counted (of_nat (length fs)) cap data)"
    and "length data = 24 * unat cap" and "entries_in data fs" and "length fs \<le> unat cap"
    and "b \<in> published slot h" and "b \<noteq> blk slot" and "b \<notin> fblock ` obj_fields slot h" and "b \<notin> F"
    and "set fs \<subseteq> obj_fields slot h"
proof -
  have f: "obj_inv F slot h" "obj_now h slot b cap fs" "blocks h b = Some (counted (of_nat (length fs)) cap data)"
    using assms by (simp_all add: obj_filling_def)
  then have s: "slot_holds h slot (Ptr b 0)" "obj_snap h slot b cap fs" by (simp_all add: obj_now_def)
  obtain data0 where "blocks h b = Some (counted (of_nat (length fs)) cap data0)"
      "length data0 = 24 * unat cap" "entries_in data0 fs" "length fs \<le> unat cap"
    using s(2) by (rule obj_snapE)
  moreover note c = obj_current [OF f(1) s(1)]
  moreover have "b \<notin> F" using f(1) c(1,2) obj_shared_intro(2) [OF c(1)] by (auto simp: obj_inv_def)
  ultimately show ?thesis using that f s obj_snap_fields [OF c(1) s(2)] by auto
qed

text \<open>What a write into the current buffer leaves as it is.\<close>

lemma current_write:
  assumes fill: "obj_filling F slot h b cap fs data" and e: "e = Write a b k xs"
  shows "published slot (apply_event e h) = published slot h"
    and "c \<noteq> b \<Longrightarrow> blocks (apply_event e h) c = blocks h c"
    and "slot_holds (apply_event e h) slot q = slot_holds h slot q"
    and "f \<in> obj_fields slot h \<Longrightarrow> outline_at (apply_event e h) f"
    and "c \<in> published slot h \<Longrightarrow> c \<noteq> b \<Longrightarrow> obj_snap h slot c cap' fs' \<Longrightarrow> obj_snap (apply_event e h) slot c cap' fs'"
    and "obj_plain slot h b j \<Longrightarrow> 8 \<le> j \<and> j < 8 + 24 * length fs"
    and "(b, k', w) \<in> obj_sync slot h \<Longrightarrow> k' = 0 \<and> w = 4" and "avoids F slot e"
    and "b \<in> obj_core slot h" and "b \<notin> obj_strings slot h"
proof -
  from fill obtain inv: "obj_inv F slot h" and snap: "obj_snap h slot b cap fs"
    and b: "b \<in> published slot h" "b \<noteq> blk slot" "b \<notin> fblock ` obj_fields slot h" "b \<notin> F"
    by (rule obj_fillingE)
  show "published slot (apply_event e h) = published slot h"
    using b(2) by (subst published_apply_event) (auto simp: e)
  show same: "blocks (apply_event e h) c = blocks h c" if "c \<noteq> b" for c
    using that by (simp add: e blocks_put)
  show "slot_holds (apply_event e h) slot q = slot_holds h slot q"
    using b(2) same by (intro slot_holds_cong) auto
  show "outline_at (apply_event e h) f" if f: "f \<in> obj_fields slot h"
  proof (rule outline_at_cong)
    have "fblock f \<noteq> b" using f b(3) by auto
    then show "blocks (apply_event e h) (fblock f) = blocks h (fblock f)" by (rule same)
  qed (use obj_fields_at [OF f] in simp)
  show "obj_snap (apply_event e h) slot c cap' fs'" if c: "c \<in> published slot h" "c \<noteq> b" "obj_snap h slot c cap' fs'"
  proof (rule obj_snap_keep [OF c(3)])
    fix x assume "x = c \<or> x \<in> fblock ` set fs'"
    then show "blocks (apply_event e h) x = blocks h x"
      using c(2) b(3) obj_snap_fields [OF c(1,3)] by (intro same) auto
  qed
  show "b \<in> obj_core slot h" using b(1) by (simp add: obj_core_def)
  then have "b \<notin> obj_texts slot h" using obj_texts_core [OF inv] by blast
  show "8 \<le> j \<and> j < 8 + 24 * length fs" if p: "obj_plain slot h b j"
  proof -
    obtain cap' fs' where "obj_snap h slot b cap' fs'" "8 \<le> j \<and> j < 8 + 24 * length fs'"
      using p b(3) \<open>b \<notin> obj_texts slot h\<close> unfolding obj_plain_def by blast
    then show ?thesis using obj_snap_unique(1) [OF snap] by metis
  qed
  show str: "b \<notin> obj_strings slot h" using b(3) by (auto simp: obj_strings_def)
  then show "k' = 0 \<and> w = 4" if "(b, k', w) \<in> obj_sync slot h" using that b(2) by (auto simp: obj_sync_def)
  show "avoids F slot e" using b(4) by (simp add: e avoids_block)
qed

lemma current_write_race_free:
  assumes fill: "obj_filling F slot h b cap fs data" and e: "e = Write a b k xs"
    and behind: "8 + 24 * length fs \<le> k \<or> a = Atomic Release \<and> k = 0 \<and> length xs = 4"
  shows "race_free (obj_plain slot h) (obj_sync slot h) e"
proof (rule race_freeI)
  note c = current_write [OF fill e]
  {
    fix x j assume "obj_plain slot h x j" "touches e x j"
    then show False using c(6) [of j] behind by (auto simp: e)
  }
  fix x k' w j assume "(x, k', w) \<in> obj_sync slot h" "j < k' + w" "touches e x j"
  then show "\<exists>xs. e = Write (Atomic Release) x k' xs \<and> length xs = w"
    using c(7) [of k' w] behind by (auto simp: e)
qed

lemma obj_guar_spare:
  assumes fill: "obj_filling F slot h b cap fs data"
    and k: "24 * length fs \<le> k" "k + length xs \<le> length data" and e: "e = Write Plain b (8 + k) xs"
  shows "obj_guar F slot h e" and "obj_filling F slot (apply_event e h) b cap fs (patch data k xs)"
    and "obj_shared slot (apply_event e h) = obj_shared slot h"
    and "obj_fields slot (apply_event e h) = obj_fields slot h"
    and "published slot (apply_event e h) = published slot h"
proof -
  let ?h' = "apply_event e h"
  from fill obtain inv: "obj_inv F slot h" and slot: "slot_holds h slot (Ptr b 0)"
    and snap: "obj_snap h slot b cap fs" and blk: "blocks h b = Some (counted (of_nat (length fs)) cap data)"
    and d: "length data = 24 * unat cap" "entries_in data fs" "length fs \<le> unat cap"
    and b: "b \<in> published slot h" "set fs \<subseteq> obj_fields slot h"
    by (rule obj_fillingE)
  note c = current_write [OF fill e]
  note w = write_strings [OF inv e c(9,10)]
  have blk': "blocks ?h' b = Some (counted (of_nat (length fs)) cap (patch data k xs))"
    using blk by (simp add: e)
  have "entries_in (patch data k xs) fs"
    using d(2) k by (subst entries_in_cong [of fs _ data]) (simp_all add: take_patch_before)
  then have snap_b: "obj_snap ?h' slot b cap fs"
    using snap blk' d k b(2) c(4) by (auto simp: obj_snap_def)
  have keep: "obj_snap ?h' slot c cap' fs'" if "c \<in> published slot h" "obj_snap h slot c cap' fs'" for c cap' fs'
    using c(5) that snap_b obj_snap_unique [OF snap] by (cases "c = b") blast+
  have pub: "published slot ?h' = published slot h \<union> {}" using c(1) by simp
  show "obj_guar F slot h e" and flds: "obj_fields slot ?h' = obj_fields slot h"
  proof (goal_cases)
    case 1
    show ?case
    proof (rule obj_guarI [OF inv pub, where G = "{}"])
      show "slot_holds ?h' slot (Ptr b 0)" using slot c(3) by simp
      show "Ptr b 0 = Null \<or> Ptr b 0 \<in> (\<lambda>b. Ptr b 0) ` published slot ?h'" using b(1) c(1) by simp
      show "\<exists>gs. obj_snap ?h' slot x cap' (fs' @ gs) \<and> set gs \<subseteq> {} \<and> (gs = [] \<or> slot_holds ?h' slot (Ptr x 0))"
        if "x \<in> published slot h" "obj_snap h slot x cap' fs'" for x cap' fs'
        using keep [OF that] by (intro exI [of _ "[]"]) simp
      show "\<forall>vb \<in> obj_strings slot h \<union> fblock ` {g \<in> {}. is_string g}.
          str_inv (obj_core slot h \<union> {} \<union> fblock ` {}) (Ptr vb 0) ?h' \<and> F \<inter> published (Ptr vb 0) ?h' = {}"
      proof
        fix vb assume "vb \<in> obj_strings slot h \<union> fblock ` {g \<in> {}. is_string g}"
        then have vb: "vb \<in> obj_strings slot h" by simp
        have "obj_core slot h \<inter> published (Ptr vb 0) h = {}" using obj_inv_string(2) [OF inv vb] by blast
        then show "str_inv (obj_core slot h \<union> {} \<union> fblock ` {}) (Ptr vb 0) ?h' \<and>
            F \<inter> published (Ptr vb 0) ?h' = {}"
          using w(1) [OF vb] w(4) [OF vb] obj_owned_strings [OF inv vb] obj_core_live [OF inv] by simp
      qed
      show "race_free (obj_plain slot h) (obj_sync slot h) e"
        using k(1) by (intro current_write_race_free [OF fill e]) simp
    qed (use w(2,3) c(8) in simp_all)
    case 2
    show ?case by (rule obj_fields_keep [OF inv c(1) keep])
  qed
  then have inv': "obj_inv F slot ?h'" by (simp add: obj_guar_def)
  then show "obj_filling F slot ?h' b cap fs (patch data k xs)"
    using blk' snap_b slot c(3) by (simp add: obj_filling_def obj_now_def)
  show "obj_shared slot ?h' = obj_shared slot h"
    using flds c(1) w(4) by (auto simp: obj_shared_def obj_core_def obj_texts_def obj_strings_def)
  show "published slot ?h' = published slot h" by (rule c(1))
qed

lemma disjoint_texts_one:
  assumes "disjoint_texts W h" and "V \<subseteq> insert vb W"
    and one: "\<And>wb. wb \<in> V \<Longrightarrow> wb \<noteq> vb \<Longrightarrow> vb \<in> V \<Longrightarrow> published (Ptr vb 0) h \<inter> published (Ptr wb 0) h = {}"
  shows "disjoint_texts V h"
  unfolding disjoint_texts_def
proof (intro ballI impI)
  fix x y assume a: "x \<in> V" "y \<in> V" "x \<noteq> y"
  show "published (Ptr x 0) h \<inter> published (Ptr y 0) h = {}"
  proof (cases "x = vb \<or> y = vb")
    case True
    then show ?thesis using one a by (metis Int_commute)
  next
    case False
    then show ?thesis using assms(1,2) a unfolding disjoint_texts_def by blast
  qed
qed

text \<open>The commit of a field whose value, and text, nobody shares yet.\<close>

lemma commit_outline:
  assumes fill: "obj_filling F slot h b cap fs data" and room: "length fs < unat cap"
    and f: "entry_in data (length fs) f" "fhash f \<notin> fhash ` set fs" "outline_at h f" "fblock f \<notin> obj_shared slot h"
    and e: "e = Write (Atomic Release) b 0 (word_cells 4 (of_nat (length fs) + 1 :: u32))"
  shows "obj_now (apply_event e h) slot b cap (fs @ [f])"
proof -
  let ?h' = "apply_event e h"
  from fill obtain slot: "slot_holds h slot (Ptr b 0)"
    and snap: "obj_snap h slot b cap fs" and blk: "blocks h b = Some (counted (of_nat (length fs)) cap data)"
    and d: "length data = 24 * unat cap" "entries_in data fs"
    and b: "b \<in> published slot h" "set fs \<subseteq> obj_fields slot h"
    by (rule obj_fillingE)
  note c = current_write [OF fill e]
  have blk': "blocks ?h' b = Some (counted (of_nat (length (fs @ [f]))) cap data)"
    using blk by (simp add: e add.commute)
  have fb: "fblock f \<noteq> b" "fblock f \<noteq> blk slot"
    using f(4) obj_shared_intro(1,2) b(1) by metis+
  have "fblock ` set fs \<subseteq> obj_shared slot h" using b(2) obj_shared_intro(3) [of _ slot h] by auto
  then have fnew: "fblock f \<notin> fblock ` set fs" using f(4) by auto
  have "outline_at ?h' f" using f(3) c(2) [OF fb(1)] by (rule outline_at_cong [rotated])
  moreover have "entries_in data (fs @ [f])"
    using d(2) f(1) by (auto simp: entries_in_def nth_append less_Suc_eq)
  moreover have "distinct (blk slot # b # map fblock (fs @ [f]))"
    using snap fb fnew by (auto simp: obj_snap_def)
  ultimately have "obj_snap ?h' slot b cap (fs @ [f])"
    using snap blk' d(1) room f(2) b(2) c(4) by (auto simp: obj_snap_def)
  then show ?thesis using slot c(3) by (simp add: obj_now_def)
qed

lemma new_string_kept:
  assumes fill: "obj_filling F slot h b cap fs data" and e: "e = Write a b k xs"
    and str: "str_inv (obj_shared slot h \<union> F) (Ptr vb 0) h" and vb: "vb \<notin> obj_shared slot h" "vb < next_block h"
  shows "str_inv (insert vb (obj_shared slot h \<union> F)) (Ptr vb 0) (apply_event e h)"
proof -
  let ?h' = "apply_event e h"
  from fill obtain inv: "obj_inv F slot h" and b: "b \<in> published slot h" by (rule obj_fillingE)
  have bsh: "b \<in> obj_shared slot h" by (rule obj_shared_intro(2) [OF b])
  then have vne: "vb \<noteq> b" using vb(1) by blast
  note c = current_write [OF fill e]
  have d: "(obj_shared slot h \<union> F) \<inter> published (Ptr vb 0) h = {}" using str by (simp add: str_inv_def)
  have pub: "published (Ptr vb 0) ?h' = published (Ptr vb 0) h"
    using vne by (subst published_apply_event) (auto simp: e)
  show ?thesis
  proof (rule str_inv_frame [OF str _ pub])
    show "heap_wf ?h'" using obj_inv_facts(1) [OF inv] by simp
    show "slot_holds ?h' (Ptr vb 0) q = slot_holds h (Ptr vb 0) q" for q
      using c(2) [OF vne] by (intro slot_holds_cong) simp
    show "blocks ?h' x = blocks h x" if x: "x \<in> published (Ptr vb 0) h" for x
      by (rule c(2)) (use x d bsh in blast)
    have "vb \<notin> published (Ptr vb 0) h" using str_inv_facts(5) [OF str] by simp
    then show "insert vb (obj_shared slot h \<union> F) \<inter> published (Ptr vb 0) h = {}" using d by simp
    show "insert vb (obj_shared slot h \<union> F) \<subseteq> {..<next_block ?h'}"
      using obj_inv_facts(6) [OF inv] inv vb(2) by (simp add: e obj_inv_def)
  qed
qed

lemma obj_guar_commit:
  assumes fill: "obj_filling F slot h b cap fs data" and room: "length fs < unat cap"
    and f: "entry_in data (length fs) f" "fhash f \<notin> fhash ` set fs" "outline_at h f"
      "fblock f \<notin> obj_shared slot h \<union> F" "fblock f < next_block h"
      "is_string f \<Longrightarrow> str_inv (obj_shared slot h \<union> F) (Ptr (fblock f) 0) h"
    and e: "e = Write (Atomic Release) b 0 (word_cells 4 (of_nat (length fs) + 1 :: u32))"
  shows "obj_guar F slot h e"
proof -
  let ?h' = "apply_event e h" and ?V = "obj_strings slot h \<union> fblock ` {g \<in> {f}. is_string g}"
  from fill obtain inv: "obj_inv F slot h" and slot: "slot_holds h slot (Ptr b 0)"
    and snap: "obj_snap h slot b cap fs" and b: "b \<in> published slot h"
    by (rule obj_fillingE)
  note c = current_write [OF fill e]
  note w = write_strings [OF inv e c(9,10)]
  have new: "fblock f \<notin> obj_shared slot h" using f(4) by blast
  have snap_b: "obj_snap ?h' slot b cap (fs @ [f])"
    using commit_outline [OF fill room f(1-3) new e] by (simp add: obj_now_def)
  have pub: "published slot ?h' = published slot h \<union> {}" using c(1) by simp
  have old: "published (Ptr vb 0) ?h' \<subseteq> obj_shared slot h" if "vb \<in> obj_strings slot h" for vb
    using w(4) [OF that] obj_shared_intro(4) [OF that] by auto
  have str: "str_inv (insert (fblock f) (obj_core slot h)) (Ptr vb 0) ?h' \<and> F \<inter> published (Ptr vb 0) ?h' = {}"
    if vb: "vb \<in> obj_strings slot h" for vb
  proof -
    have "insert (fblock f) (obj_core slot h) \<inter> published (Ptr vb 0) h = {}"
      using obj_inv_string(2) [OF inv vb] obj_shared_intro(4) [OF vb] new by blast
    moreover have "insert (fblock f) (obj_core slot h) \<subseteq> {..<next_block h}"
      using obj_core_live [OF inv] f(5) by simp
    ultimately show ?thesis using w(1) [OF vb] w(4) [OF vb] obj_owned_strings [OF inv vb] by simp
  qed
  have fstr: "str_inv (insert (fblock f) (obj_core slot h)) (Ptr (fblock f) 0) ?h'"
      "(obj_shared slot h \<union> F) \<inter> published (Ptr (fblock f) 0) ?h' = {}" if s: "is_string f"
    using new_string_kept [OF fill e f(6) [OF s] new f(5)]
    by (auto simp: str_inv_def obj_shared_def)
  show ?thesis
  proof (rule obj_guarI [OF inv pub, where G = "{f}"])
    show "slot_holds ?h' slot (Ptr b 0)" using slot c(3) by simp
    show "Ptr b 0 = Null \<or> Ptr b 0 \<in> (\<lambda>b. Ptr b 0) ` published slot ?h'" using b c(1) by simp
    show "\<exists>gs. obj_snap ?h' slot x cap' (fs' @ gs) \<and> set gs \<subseteq> {f} \<and> (gs = [] \<or> slot_holds ?h' slot (Ptr x 0))"
      if x: "x \<in> published slot h" "obj_snap h slot x cap' fs'" for x cap' fs'
    proof (cases "x = b")
      case True
      then have "fs' = fs" "cap' = cap" using obj_snap_unique [OF snap] x(2) by simp_all
      then show ?thesis using snap_b slot c(3) True by (intro exI [of _ "[f]"]) simp
    next
      case False
      then show ?thesis using c(5) [OF x(1) False x(2)] by (intro exI [of _ "[]"]) simp
    qed
    show "{f} \<subseteq> obj_fields slot ?h'"
      using obj_snap_fields [OF _ snap_b] b c(1) by auto
    show "fblock ` {f} \<inter> (obj_shared slot h \<union> {} \<union> F) = {}" using f(4) by auto
    show "\<forall>vb \<in> ?V. str_inv (obj_core slot h \<union> {} \<union> fblock ` {f}) (Ptr vb 0) ?h' \<and>
        F \<inter> published (Ptr vb 0) ?h' = {}"
      using str fstr by auto
    show "disjoint_texts ?V ?h'"
    proof (rule disjoint_texts_one [OF w(2)])
      fix vb assume vb: "vb \<in> ?V" "vb \<noteq> fblock f" "fblock f \<in> ?V"
      have "fblock f \<notin> obj_strings slot h" using new obj_strings_core by (auto simp: obj_shared_def)
      then have "is_string f" "vb \<in> obj_strings slot h" using vb by auto
      then show "published (Ptr (fblock f) 0) ?h' \<inter> published (Ptr vb 0) ?h' = {}" using fstr(2) old by blast
    qed auto
    show "race_free (obj_plain slot h) (obj_sync slot h) e"
      by (rule current_write_race_free [OF fill e]) simp
  qed (use w(3) c(8) in simp_all)
qed

text \<open>What a write into the slot of one string leaves as it is.\<close>

lemma string_write:
  assumes inv: "obj_inv F slot h" and vb: "vb \<in> obj_strings slot h" and e: "e = Write a vb 8 (ptr_cells q)"
  shows "published slot (apply_event e h) = published slot h"
    and "c \<noteq> vb \<Longrightarrow> blocks (apply_event e h) c = blocks h c"
    and "slot_holds (apply_event e h) slot p = slot_holds h slot p"
    and "x \<in> published slot h \<Longrightarrow> obj_snap h slot x cap fs \<Longrightarrow> obj_snap (apply_event e h) slot x cap fs"
    and "wb \<noteq> vb \<Longrightarrow> published (Ptr wb 0) (apply_event e h) = published (Ptr wb 0) h"
    and "wb \<in> obj_strings slot h \<Longrightarrow> wb \<noteq> vb \<Longrightarrow> str_inv (obj_core slot h) (Ptr wb 0) (apply_event e h)"
    and "vb \<noteq> blk slot" and "vb \<notin> published slot h" and "vb \<notin> obj_texts slot h"
proof -
  let ?h' = "apply_event e h"
  obtain f where f: "f \<in> obj_fields slot h" "is_string f" "vb = fblock f" and vs: "vb \<noteq> blk slot"
    using vb by (rule obj_stringsE)
  show vs': "vb \<noteq> blk slot" by (rule vs)
  have inj: "inj_on fblock (obj_fields slot h)" using inv by (simp add: obj_inv_def)
  show vp: "vb \<notin> published slot h" using inv f by (auto simp: obj_inv_def)
  show vt: "vb \<notin> obj_texts slot h" using obj_strings_core [OF vb] obj_texts_core [OF inv] by blast
  show same: "blocks ?h' c = blocks h c" if "c \<noteq> vb" for c
    using that by (simp add: e blocks_put)
  show "published slot ?h' = published slot h"
    using vs by (subst published_apply_event) (auto simp: e)
  show "slot_holds ?h' slot p = slot_holds h slot p"
    using vs same by (intro slot_holds_cong) auto
  have out: "outline_at ?h' g" if g: "g \<in> obj_fields slot h" for g
  proof (cases "fblock g = vb")
    case True
    then have "g = f" using inj f(1,3) g by (simp add: inj_on_def)
    then show ?thesis using obj_fields_at [OF g] f(2,3) by (auto simp: outline_at_def e)
  next
    case False
    then show ?thesis using outline_at_cong [OF same [OF False]] obj_fields_at [OF g] by simp
  qed
  show "obj_snap ?h' slot x cap fs" if x: "x \<in> published slot h" "obj_snap h slot x cap fs"
  proof -
    have "x \<noteq> vb" using x(1) vp by blast
    then show ?thesis using x(2) same [of x] out obj_snap_fields [OF x] by (auto simp: obj_snap_def)
  qed
  show pub: "published (Ptr wb 0) ?h' = published (Ptr wb 0) h" if "wb \<noteq> vb" for wb
    using that by (subst published_apply_event) (auto simp: e)
  show "str_inv (obj_core slot h) (Ptr wb 0) ?h'" if wb: "wb \<in> obj_strings slot h" "wb \<noteq> vb"
  proof (rule str_inv_frame [OF obj_inv_string(1) [OF inv wb(1)] _ pub [OF wb(2)]])
    show "heap_wf ?h'" using obj_inv_facts(1) [OF inv] by simp
    show "slot_holds ?h' (Ptr wb 0) q = slot_holds h (Ptr wb 0) q" for q
      using wb(2) same by (intro slot_holds_cong) auto
    show "blocks ?h' c = blocks h c" if "c \<in> published (Ptr wb 0) h" for c
      using that wb(1) vt by (intro same) (auto simp: obj_texts_def)
    show "obj_core slot h \<inter> published (Ptr wb 0) h = {}" using obj_inv_string(2) [OF inv wb(1)] by blast
    show "obj_core slot h \<subseteq> {..<next_block ?h'}" using obj_core_live [OF inv] by (simp add: e)
  qed
qed

lemma string_write_race_free:
  assumes inv: "obj_inv F slot h" and vb: "vb \<in> obj_strings slot h"
    and e: "e = Write (Atomic Release) vb 8 (ptr_cells q)"
  shows "race_free (obj_plain slot h) (obj_sync slot h) e" and "avoids F slot e"
proof -
  note w = string_write [OF inv vb e]
  obtain f where f: "f \<in> obj_fields slot h" "is_string f" "vb = fblock f" using vb by (rule obj_stringsE)
  have inj: "inj_on fblock (obj_fields slot h)" using inv by (simp add: obj_inv_def)
  show "race_free (obj_plain slot h) (obj_sync slot h) e"
  proof (rule race_freeI)
    fix x j assume p: "obj_plain slot h x j" and "touches e x j"
    then have x: "x = vb" by (simp add: e)
    have "g = f" if "g \<in> obj_fields slot h" "vb = fblock g" for g
      using inj f(1,3) that by (simp add: inj_on_def)
    then show False using p w(8,9) f(2) unfolding x obj_plain_def by blast
  next
    fix x k' w' j assume "(x, k', w') \<in> obj_sync slot h" "touches e x j"
    then show "\<exists>xs. e = Write (Atomic Release) x k' xs \<and> length xs = w'"
      using w(7,8) by (auto simp: obj_sync_def e)
  qed
  have "vb \<notin> F" using inv obj_strings_core [OF vb] w(7) by (auto simp: obj_inv_def obj_shared_def)
  then show "avoids F slot e" by (simp add: e avoids_block)
qed

text \<open>A string of the current object gets another text, which nobody shares yet, or none.\<close>

lemma obj_guar_text:
  assumes inv: "obj_inv F slot h" and cur: "current_string slot h vb"
    and e: "e = Write (Atomic Release) vb 8 (ptr_cells q)"
    and q: "q = Null \<or> (\<exists>nb. q = Ptr nb 0 \<and> nb \<notin> obj_shared slot h \<union> F \<and>
      str_buffer (Ptr vb 0) (apply_event e h) nb)"
  shows "obj_guar F slot h e"
proof -
  let ?h' = "apply_event e h"
  obtain b cap fs f where now: "obj_now h slot b cap fs" and b: "b \<in> published slot h"
    and f: "f \<in> set fs" "is_string f" "fblock f = vb" and vb: "vb \<in> obj_strings slot h"
    using current_stringE [OF inv cur] .
  note w = string_write [OF inv vb e]
  have now': "obj_now ?h' slot b cap fs" using w(3,4) b now by (simp add: obj_now_def)
  have sg: "str_inv (obj_core slot h) (Ptr vb 0) ?h'"
    using str_guar_publish [OF obj_inv_string(1) [OF inv vb], of e q] e q by (auto simp: obj_shared_def str_guar_def)
  have vpub: "published (Ptr vb 0) ?h' = published (Ptr vb 0) h \<union> {nb. q = Ptr nb 0}"
    by (subst published_apply_event) (auto simp: e)
  have new: "nb \<notin> obj_shared slot h \<union> F" if "q = Ptr nb 0" for nb using that q by auto
  have pub: "published slot ?h' = published slot h \<union> {}" using w(1) by simp
  show ?thesis
  proof (rule obj_guarI [OF inv pub, where G = "{}"])
    show "slot_holds ?h' slot (Ptr b 0)" using now' by (simp add: obj_now_def)
    show "Ptr b 0 = Null \<or> Ptr b 0 \<in> (\<lambda>b. Ptr b 0) ` published slot ?h'" using b w(1) by simp
    show "\<exists>gs. obj_snap ?h' slot x cap' (fs' @ gs) \<and> set gs \<subseteq> {} \<and> (gs = [] \<or> slot_holds ?h' slot (Ptr x 0))"
      if "x \<in> published slot h" "obj_snap h slot x cap' fs'" for x cap' fs'
      using w(4) [OF that] by (intro exI [of _ "[]"]) simp
    show "\<forall>wb \<in> obj_strings slot h \<union> fblock ` {g \<in> {}. is_string g}.
        str_inv (obj_core slot h \<union> {} \<union> fblock ` {}) (Ptr wb 0) ?h' \<and> F \<inter> published (Ptr wb 0) ?h' = {}"
    proof
      fix wb assume "wb \<in> obj_strings slot h \<union> fblock ` {g \<in> {}. is_string g}"
      then have wb: "wb \<in> obj_strings slot h" by simp
      have "F \<inter> published (Ptr wb 0) ?h' = {}"
        using obj_owned_strings [OF inv wb] vpub w(5) [of wb] new by (cases "wb = vb") auto
      then show "str_inv (obj_core slot h \<union> {} \<union> fblock ` {}) (Ptr wb 0) ?h' \<and>
          F \<inter> published (Ptr wb 0) ?h' = {}"
        using sg w(6) [OF wb] by (cases "wb = vb") auto
    qed
    have "disjoint_texts (obj_strings slot h) ?h'"
    proof (rule disjoint_texts_one)
      show "disjoint_texts (obj_strings slot h - {vb}) ?h'"
        using obj_inv_string(3) [OF inv] w(5) by (auto simp: disjoint_texts_def)
      show "published (Ptr vb 0) ?h' \<inter> published (Ptr wb 0) ?h' = {}"
        if wb: "wb \<in> obj_strings slot h" "wb \<noteq> vb" for wb
        using obj_inv_string(3) [OF inv vb wb] w(5) [OF wb(2)] vpub obj_shared_intro(4) [OF wb(1)] new by auto
    qed auto
    then show "disjoint_texts (obj_strings slot h \<union> fblock ` {g \<in> {}. is_string g}) ?h'" by simp
    show "texts_kept slot h ?h'"
      unfolding texts_kept_def
    proof (intro ballI conjI)
      fix wb assume wb: "wb \<in> obj_strings slot h"
      show "published (Ptr wb 0) h \<subseteq> published (Ptr wb 0) ?h'" using vpub w(5) by (cases "wb = vb") auto
      show "blocks ?h' c = blocks h c" if "c \<in> published (Ptr wb 0) h" for c
        using that w(9) wb by (intro w(2)) (auto simp: obj_texts_def)
      have "current_string slot ?h' vb" using now' f unfolding current_string_def by blast
      then show "current_string slot ?h' wb \<or> blocks ?h' wb = blocks h wb" using w(2) by metis
    qed
  qed (use string_write_race_free [OF inv vb e] in simp_all)
qed

end
