(* ===== verification/Msm_Object_Writer.thy ===== *)
theory Msm_Object_Writer
  imports Msm_Object_Steps Msm_Object_Errors
begin

text \<open>
  The operations of the writer of an object that are safe beside readers: adding a field that does
  not exist, of every type, setting a string, whether it exists or not, and removing a field. Each of their writes keeps the contract of
  \<open>Msm_Object_Shared\<close>, on every path that returns, also when the allocator fails.
\<close>

section \<open>Room for an entry\<close>

lemma add_entry_run:
  assumes "object_add_entry h slot = Inr (e, h')" and "slot \<noteq> Null"
  shows "(e = Null \<and> (\<exists>m. h' = fail_block m h)) \<or> (e \<noteq> Null \<and> h' = h) \<or>
    (e \<noteq> Null \<and> (\<exists>hm. builds_at (next_block h) h hm \<and>
      atomic_store_ptr hm (padd slot 8) (Ptr (next_block h) 0) Release = Inr h'))"
proof (rule ccontr)
  assume no: "\<not> ?thesis"
  have built: False
    if "memset (new_block m h) (Ptr (next_block h) 0) v m' = Inr h1"
      and "atomic_store_u32 h1 (Ptr (next_block h) 0) n Relaxed = Inr h2"
      and "atomic_store_u32 h2 (Ptr (next_block h) 4) c Relaxed = Inr h3"
      and "h4 = h3 \<or> memcpy h3 (Ptr (next_block h) 8) q k = Inr h4"
      and "atomic_store_ptr h4 (padd slot 8) (Ptr (next_block h) 0) Release = Inr h'"
      and "e \<noteq> Null"
    for m v m' n h1 h2 h3 h4 c q k
    using build_header [OF disjI2 [OF that(1)] that(2,3)] build_copy that(4,5,6) no by blast
  show False
    using assms no
    by (auto simp: object_add_entry_def obj_buf_defs bindE_eq_Inr Let_def malloc_def split: if_splits
        dest: built)
qed

lemma add_entry_can:
  assumes obj: "object_fs h slot cap fs B" and wf: "heap_wf h"
    and run: "object_add_entry h slot = Inr (e, h')" and "e \<noteq> Null"
  shows "can_add h cap (length fs)"
proof (rule ccontr)
  assume no: "\<not> can_add h cap (length fs)"
  have full: "length fs = unat cap"
    using obj no by (fastforce simp: object_fs_def object_rep_def can_add_def)
  show False
  proof (cases "oom h (next_block h) (8 + 24 * unat (obj_grown_cap cap))")
    case True
    then show False using add_entry_oom [OF obj full] run assms(4) by simp
  next
    case False
    then have big: "2147483648 \<le> unat cap" using no by (auto simp: can_add_def word_less_nat_alt)
    then have g: "obj_grown_cap cap = cap * 2" by (auto simp: obj_grown_cap_def)
    have "cap \<noteq> 0" using big by auto
    then obtain b where "object_rep h slot b cap fs" using obj by (auto simp: object_fs_def)
    from add_wraps [OF this wf full big] False run show False unfolding g by simp
  qed
qed

section \<open>Publishing a buffer\<close>

lemma content_fields:
  assumes "obj_inv F slot h" and "object_fs h slot cap fs B"
  shows "set (map outline fs) \<subseteq> obj_fields slot h"
proof (cases "fs = []")
  case False
  then obtain b where "object_rep h slot b cap fs" using assms(2) by (auto simp: object_fs_def)
  then have "obj_now h slot b cap (map outline fs)" by (rule object_rep_now)
  then have "slot_holds h slot (Ptr b 0)" "obj_snap h slot b cap (map outline fs)" by (simp_all add: obj_now_def)
  then show ?thesis using obj_snap_fields obj_current(1) [OF assms(1)] by blast
qed simp

lemma evolves_private_mono:
  assumes "evolves (\<lambda>_. private_event P) h h'" and "P \<subseteq> P'"
  shows "evolves (\<lambda>_. private_event P') h h'"
proof -
  have "private_event P e \<Longrightarrow> private_event P' e" for e using assms(2) by (cases e) auto
  then show ?thesis by (intro conjunct1 [OF evolves_weaken [OF assms(1), where I = "\<lambda>_. True"]]) auto
qed

lemma builds_private:
  assumes "builds_at nb h h'"
  shows "evolves (\<lambda>_. private_event {nb}) h h'"
  using fresh_private by (intro conjunct1 [OF evolves_weaken [OF assms, where I = "\<lambda>_. True"]]) auto

lemma publish_evolves:
  assumes inv: "obj_inv F slot h" and bld: "builds_at (next_block h) h hm"
    and st: "atomic_store_ptr hm (padd slot 8) (Ptr (next_block h) 0) Release = Inr h'"
    and snap: "obj_snap h' slot (next_block h) cap fs" and fs: "set fs \<subseteq> obj_fields slot h"
  shows "evolves (obj_guar F slot) h h'"
proof -
  let ?nb = "next_block h"
  let ?e = "Write (Atomic Release) (blk slot) (off slot + 8) (ptr_cells (Ptr ?nb 0))"
  have nb: "?nb \<notin> obj_shared slot h" by (rule obj_inv_facts(4) [OF inv])
  have hm: "evolves (obj_guar F slot) h hm" "obj_inv F slot hm" "obj_shared slot hm = obj_shared slot h"
    "obj_fields slot hm = obj_fields slot h"
    using obj_evolves_private [OF builds_private [OF bld] inv] nb obj_inv_facts(5) [OF inv] by simp_all
  have h': "h' = apply_event ?e hm" by (rule store_slot_InrD [OF st])
  have s: "obj_snap hm slot ?nb cap fs"
  proof (rule obj_snap_keep [OF snap])
    fix c assume "c = ?nb \<or> c \<in> fblock ` set fs"
    then have "c \<noteq> blk slot" using snap by (auto simp: obj_snap_def)
    then show "blocks hm c = blocks h' c" by (simp add: h' blocks_put)
  qed
  then have "blocks hm ?nb \<noteq> None" by (auto simp: obj_snap_def)
  then have "?nb < next_block hm" using obj_inv_facts(1) [OF hm(2)] heap_wf_live by blast
  then have "obj_guar F slot hm ?e"
    using obj_guar_publish [OF hm(2) refl, of "Ptr ?nb 0"] s nb hm(3,4) fs obj_inv_facts(5) [OF inv] by blast
  then have "evolves (obj_guar F slot) hm h'" unfolding h' by (intro evolves_one) simp_all
  with hm(1) show ?thesis by (rule evolves_trans)
qed

lemma fail_evolves: "obj_inv F slot h \<Longrightarrow> evolves (obj_guar F slot) h (fail_block m h)"
  using obj_guar_private [of F slot h "AllocFail m" "{}"] evolves_one [of h "AllocFail m" "obj_guar F slot"]
  by simp

lemma add_entry_evolves:
  assumes inv: "obj_inv F slot h" and obj: "object_fs h slot cap fs B"
    and run: "object_add_entry h slot = Inr (e, h')" and e: "e \<noteq> Null"
  obtains b cap' data where "evolves (obj_guar F slot) h h'" and "e = Ptr b (8 + 24 * length fs)"
    and "obj_filling F slot h' b cap' (map outline fs) data" and "length fs < unat cap'"
proof -
  note f = obj_inv_facts [OF inv]
  note can = add_entry_can [OF obj f(1) run e]
  obtain b cap' where b: "e = Ptr b (8 + 24 * length fs)" "object_rep h' slot b cap' fs" "length fs < unat cap'"
    using add_spec [OF obj f(1) can] run by (metis Pair_inject sum.inject(2))
  from add_entry_run [OF run f(2)] consider "h' = h"
    | hm where "builds_at (next_block h) h hm"
        "atomic_store_ptr hm (padd slot 8) (Ptr (next_block h) 0) Release = Inr h'"
    using e by blast
  then have ev: "evolves (obj_guar F slot) h h'"
  proof cases
    case 1
    then show ?thesis by (simp add: evolves_refl)
  next
    case (2 hm)
    obtain q where q: "slot_holds h slot q" using inv by (auto simp: obj_inv_def)
    have nb: "next_block h \<noteq> blk slot" using f(4) obj_shared_intro(1) [of slot h] by metis
    have "blocks hm (blk slot) = blocks h (blk slot)"
      using builds_at_frame(1) [OF 2(1) nb, of "blk slot"] nb by simp
    then have "slot_holds hm slot q" using q slot_holds_cong by blast
    from slot_holds_publish [OF this] have "slot_holds h' slot (Ptr (next_block h) 0)"
      using store_slot_InrD [OF 2(2)] by simp
    moreover have "slot_holds h' slot (Ptr b 0)" using b(2) by (simp add: object_rep_def)
    ultimately have "b = next_block h" by (auto dest: slot_holds_unique)
    then show ?thesis
      using publish_evolves [OF inv 2 _ content_fields [OF inv obj]] object_rep_now [OF b(2)]
      unfolding obj_now_def by blast
  qed
  moreover have "obj_inv F slot h'" using obj_evolves [OF ev inv] by simp
  moreover obtain data where "blocks h' b = Some (counted (of_nat (length fs)) cap' data)"
    using b(2) by (rule object_repE)
  ultimately show ?thesis using that b object_rep_now [OF b(2)] by (auto simp: obj_filling_def)
qed

section \<open>Adding a field\<close>

lemma filling_private:
  assumes fill: "obj_filling F slot h b cap fs data" and ev: "evolves (\<lambda>_. private_event P) h h'"
    and P: "P \<inter> obj_shared slot h = {}" "P \<inter> F = {}"
  shows "evolves (obj_guar F slot) h h'" and "obj_filling F slot h' b cap fs data"
    and "obj_shared slot h' = obj_shared slot h"
proof -
  from fill obtain inv: "obj_inv F slot h" and slot: "slot_holds h slot (Ptr b 0)"
    and snap: "obj_snap h slot b cap fs" and blk: "blocks h b = Some (counted (of_nat (length fs)) cap data)"
    and b: "b \<in> published slot h" "set fs \<subseteq> obj_fields slot h"
    by (rule obj_fillingE)
  note e = obj_evolves_private [OF ev inv P]
  then show "evolves (obj_guar F slot) h h'" "obj_shared slot h' = obj_shared slot h" by simp_all
  have same: "blocks h' c = blocks h c" if "c \<in> obj_shared slot h" for c
    using private_frame(1) [OF ev] that P(1) obj_shared_live [OF inv that] by blast
  have "slot_holds h' slot (Ptr b 0)"
    using slot same [OF obj_shared_intro(1)] slot_holds_cong by blast
  moreover have "obj_snap h' slot b cap fs"
    using b obj_shared_intro(2,3) [of _ slot h] by (intro obj_snap_keep [OF snap] same) auto
  ultimately show "obj_filling F slot h' b cap fs data"
    using e blk same obj_shared_intro(2) [OF b(1)] by (simp add: obj_filling_def obj_now_def)
qed

lemma spare_evolves:
  assumes "obj_filling F slot h b cap fs d" and "24 * length fs \<le> j" and "j + length xs \<le> length d"
    and "h' = put Plain b (8 + j) xs h"
  shows "evolves (obj_guar F slot) h h'" and "obj_filling F slot h' b cap fs (patch d j xs)"
    and "obj_shared slot h' = obj_shared slot h"
  using obj_guar_spare [OF assms(1-3) refl] assms(4) evolves_one [of h "Write Plain b (8 + j) xs" "obj_guar F slot"]
  by simp_all

lemma filling_block:
  "obj_filling F slot h b cap fs d \<Longrightarrow> blocks h b = Some (counted (of_nat (length fs)) cap d)"
  by (simp add: obj_filling_def)

text \<open>The name hash, the type and the size of an entry are written behind the entries.\<close>

lemma head_evolves:
  assumes fill: "obj_filling F slot h1 b cap fs data" and len: "24 * length fs + 24 \<le> length data"
    and e: "e = Ptr b (8 + 24 * length fs)"
    and w: "entry_set_name_hash h1 e k = Inr h2" "entry_set_type_id h2 e ty = Inr h3" "entry_set_size h3 e sz = Inr h4"
  shows "evolves (obj_guar F slot) h1 h4"
    and "obj_filling F slot h4 b cap fs (patch (patch (patch data (24 * length fs) (word_cells 8 k))
      (24 * length fs + 8) (word_cells 2 ty)) (24 * length fs + 12) (word_cells 4 sz))"
proof -
  let ?n = "length fs"
  have h2: "h2 = put Plain b (8 + 24 * ?n) (word_cells 8 k) h1"
    using w(1) head_writes(1) [OF filling_block [OF fill] len, of k] e by simp
  note s2 = spare_evolves [OF fill _ _ h2]
  have f2: "obj_filling F slot h2 b cap fs (patch data (24 * ?n) (word_cells 8 k))" using s2(2) len by simp
  have h3: "h3 = put Plain b (8 + (24 * ?n + 8)) (word_cells 2 ty) h2"
    using w(2) head_writes(2) [OF filling_block [OF f2], of ?n ty] e len by simp
  note s3 = spare_evolves [OF f2 _ _ h3]
  have f3: "obj_filling F slot h3 b cap fs (patch (patch data (24 * ?n) (word_cells 8 k)) (24 * ?n + 8) (word_cells 2 ty))"
    using s3(2) len by simp
  have h4: "h4 = put Plain b (8 + (24 * ?n + 12)) (word_cells 4 sz) h3"
    using w(3) head_writes(3) [OF filling_block [OF f3], of ?n sz] e len by simp
  note s4 = spare_evolves [OF f3 _ _ h4]
  show "obj_filling F slot h4 b cap fs (patch (patch (patch data (24 * ?n) (word_cells 8 k))
      (24 * ?n + 8) (word_cells 2 ty)) (24 * ?n + 12) (word_cells 4 sz))"
    using s4(2) len by simp
  have "evolves (obj_guar F slot) h1 h2" "evolves (obj_guar F slot) h2 h3" "evolves (obj_guar F slot) h3 h4"
    using s2(1) s3(1) s4(1) len by simp_all
  then show "evolves (obj_guar F slot) h1 h4" using evolves_trans by blast
qed

text \<open>A value that was built in private is linked from the entry, which is committed.\<close>

lemma link_evolves:
  assumes fill: "obj_filling F slot h b cap fs d" and room: "length fs < unat cap"
    and bld: "evolves (\<lambda>_. private_event {c. next_block h \<le> c}) h h1"
    and u: "value_at h1 (next_block h) sb u"
      "value_type u = type_string \<Longrightarrow> str_inv {..<Suc (next_block h)} (Ptr (next_block h) 0) h1"
    and st: "24 * length fs \<le> j" "j + length xs \<le> length d" "h2 = put Plain b (8 + j) xs h1"
    and ent: "entry_in (patch d j xs) (length fs) (ObjField k (next_block h) sb u)" "k \<notin> fhash ` set fs"
    and com: "object_commit_add h2 slot = Inr h'"
  shows "evolves (obj_guar F slot) h h'"
proof -
  let ?nb = "next_block h" and ?G = "obj_guar F slot" and ?f = "outline (ObjField k (next_block h) sb u)"
  have inv: "obj_inv F slot h" using fill by (simp add: obj_filling_def)
  have own: "obj_shared slot h \<union> F \<subseteq> {..<?nb}" using obj_inv_facts(6) [OF inv] inv by (simp add: obj_inv_def)
  then have P: "{c. ?nb \<le> c} \<inter> obj_shared slot h = {}" "{c. ?nb \<le> c} \<inter> F = {}" by (force simp: not_less)+
  note s1 = filling_private [OF fill bld P]
  note s2 = spare_evolves [OF s1(2) st]
  have e2: "h2 = apply_event (Write Plain b (8 + j) xs) h1" by (simp add: st(3))
  have inv1: "heap_wf h1" using s1(2) obj_inv_facts(1) by (auto simp: obj_filling_def)
  obtain k' ys where "value_cells h1 ?nb (value_size u) k' ys" using value_at_cells [OF u(1)] .
  then have live: "?nb < next_block h1" using value_cells_live heap_wf_live [OF inv1] by blast
  have new: "?nb \<notin> obj_shared slot h1 \<union> F" using own unfolding s1(3) by auto
  have "b \<in> obj_shared slot h1" using s1(2) obj_shared_intro(2) by (blast elim: obj_fillingE)
  then have "?nb \<noteq> b" using new by blast
  then have "blocks h2 (fblock ?f) = blocks h1 (fblock ?f)" by (simp add: st(3) blocks_put)
  moreover have "outline_at h1 ?f" using u(1) by (intro field_at_outline) (simp add: field_at_def)
  ultimately have at: "outline_at h2 ?f" by (rule outline_at_cong)
  let ?c = "Write (Atomic Release) b 0 (word_cells 4 (of_nat (length fs) + 1 :: u32))"
  have "obj_guar F slot h2 ?c"
  proof (rule obj_guar_commit [OF s2(2) room _ _ at _ _ _ refl])
    show "entry_in (patch d j xs) (length fs) ?f" using ent(1) by simp
    show "fhash ?f \<notin> fhash ` set fs" using ent(2) by simp
    show "fblock ?f \<notin> obj_shared slot h2 \<union> F" using new s2(3) by simp
    show "fblock ?f < next_block h2" using live by (simp add: st(3))
    show "str_inv (obj_shared slot h2 \<union> F) (Ptr (fblock ?f) 0) h2" if "is_string ?f"
    proof -
      have str1: "str_inv (obj_shared slot h1 \<union> F) (Ptr ?nb 0) h1"
        using u(2) that own s1(3) by (intro str_inv_mono [OF u(2)]) (auto simp: is_string_type)
      have "str_inv (insert ?nb (obj_shared slot h1 \<union> F)) (Ptr ?nb 0) h2"
        unfolding e2 by (rule new_string_kept [OF s1(2) refl str1]) (use new live in auto)
      then show ?thesis unfolding s2(3) by (simp add: str_inv_mono [OF _ subset_insertI])
    qed
  qed
  moreover have "h' = apply_event ?c h2"
  proof -
    have "slot_holds h2 slot (Ptr b 0)" using s2(2) by (rule obj_fillingE)
    from commit_add_runs [OF this] filling_block [OF s2(2)] com show ?thesis by simp
  qed
  ultimately have "evolves ?G h2 h'" using evolves_one [of h2 ?c ?G] by simp
  then show ?thesis using s1(1) s2(1) evolves_trans by blast
qed

text \<open>The contract of a writer of values beside readers: into a zeroed block of its own it writes
  a value of the type, and touches only this block and new ones. A string it leaves as a shared string
  that nobody shares.\<close>

locale private_writer =
  fixes wr :: "heap \<Rightarrow> ptr \<Rightarrow> heap res" and ty :: u16 and sz :: nat
  assumes private_write: "heap_wf h \<Longrightarrow> blocks h vb = Some (replicate sz (Byte 0)) \<Longrightarrow>
      published (Ptr vb 0) h = {} \<Longrightarrow> wr h (Ptr vb 0) = Inr h' \<Longrightarrow>
      evolves (\<lambda>_. private_event (insert vb {c. next_block h \<le> c})) h h' \<and>
      (\<exists>sb v. value_type v = ty \<and> value_size v = sz \<and> value_at h' vb sb v) \<and>
      (ty = type_string \<longrightarrow> str_inv {..<next_block h} (Ptr vb 0) h')"
begin

lemma new_value_private:
  assumes wf: "heap_wf h" and m: "malloc h sz = (val, h1)" "memset h1 val 0 sz = Inr h2" "wr h2 val = Inr h'"
  obtains sb v where "val = Ptr (next_block h) 0" and "evolves (\<lambda>_. private_event {c. next_block h \<le> c}) h h'"
    and "value_type v = ty" and "value_size v = sz" and "value_at h' (next_block h) sb v"
    and "ty = type_string \<Longrightarrow> str_inv {..<Suc (next_block h)} (Ptr (next_block h) 0) h'"
proof -
  let ?nb = "next_block h"
  have h1: "val = Ptr ?nb 0" "h1 = new_block sz h"
    using m(1,2) by (auto simp: malloc_def memset_def store_cells.simps split: if_splits)
  have h2: "h2 = put Plain ?nb 0 (replicate sz (Byte 0)) h1"
    using m(2) by (simp add: h1 memset_at)
  have "evolves (\<lambda>_. private_event {c. ?nb \<le> c}) h h1"
    using evolves_one [of h "Alloc ?nb sz" "\<lambda>_. private_event {c. ?nb \<le> c}"] by (simp add: h1)
  moreover have "evolves (\<lambda>_. private_event {c. ?nb \<le> c}) h1 h2"
    using evolves_one [of h1 "Write Plain ?nb 0 (replicate sz (Byte 0))" "\<lambda>_. private_event {c. ?nb \<le> c}"]
    by (simp add: h2)
  ultimately have ev: "evolves (\<lambda>_. private_event {c. ?nb \<le> c}) h h2" by (rule evolves_trans)
  have nb2: "next_block h2 = Suc ?nb" by (simp add: h2 h1)
  have pub: "published (Ptr ?nb 0) h2 = {}"
  proof -
    let ?e = "Write Plain ?nb 0 (replicate sz (Byte 0))"
    have "event_ok h1 ?e" "blk (Ptr ?nb 0) < next_block h1" by (simp_all add: h1)
    from published_apply_event [OF this(1) disjI1 [OF this(2)]] show ?thesis by (simp add: h1 h2)
  qed
  have "heap_wf h2" "blocks h2 ?nb = Some (replicate sz (Byte 0))"
    using wf by (simp_all add: h2 h1)
  note w = private_write [OF this pub m(3) [unfolded h1]]
  have "evolves (\<lambda>_. private_event {c. ?nb \<le> c}) h2 h'"
    using w nb2 by (intro evolves_private_mono [OF conjunct1 [OF w]]) auto
  from evolves_trans [OF ev this] conjunct2 [OF w] show ?thesis
    using that h1(1) unfolding nb2 by blast
qed

lemma add_field_evolves:
  assumes inv: "obj_inv F slot h" and obj: "object_fs h slot cap fs B" and k: "field_pos k fs = None"
    and run: "set_scheme ty (of_nat sz) wr h slot k = Inr (r, h')" and sz: "sz < 4294967296"
  shows "evolves (obj_guar F slot) h h'"
proof -
  let ?n = "length fs" and ?gs = "map outline fs" and ?G = "obj_guar F slot"
  have un: "unat (of_nat sz :: u32) = sz" using sz by (simp add: unat_of_nat)
  have find: "object_find_entry_by_hash h slot k = Inr Null" by (rule object_fs_find_None [OF obj k])
  then obtain e h1 where add: "object_add_entry h slot = Inr (e, h1)"
    using run by (auto simp: set_scheme_def bindE_eq_Inr)
  show ?thesis
  proof (cases "e = Null")
    case True
    then obtain m where "h1 = fail_block m h"
      using add_entry_run [OF add obj_inv_facts(2) [OF inv]] by blast
    then have "h' = fail_block m h" using run find add True by (simp add: set_scheme_def)
    then show ?thesis using fail_evolves [OF inv] by simp
  next
    case False
    obtain b cap' data where ev1: "evolves ?G h h1" and e: "e = Ptr b (8 + 24 * ?n)"
      and f1: "obj_filling F slot h1 b cap' ?gs data" and room: "?n < unat cap'"
      using add_entry_evolves [OF inv obj add False] .
    obtain h2 h3 h4 where
        w: "entry_set_name_hash h1 e k = Inr h2" "entry_set_type_id h2 e ty = Inr h3"
          "entry_set_size h3 e (of_nat sz) = Inr h4"
        and rest: "(case malloc h4 sz of (val, h5) \<Rightarrow> bindE (memset h5 val 0 sz) (\<lambda>h6.
          bindE (wr h6 val) (\<lambda>h7. bindE (entry_set_value_ptr h7 e val) (\<lambda>h8.
          bindE (object_commit_add h8 slot) (\<lambda>h9. Inr (Some val, h9)))))) = Inr (r, h')"
      using run find add False by (auto simp: set_scheme_def bindE_eq_Inr un Let_def)
    obtain val h5 where v5: "malloc h4 sz = (val, h5)" by (cases "malloc h4 sz")
    from rest obtain h6 h7 h8 where v: "malloc h4 sz = (val, h5)" "memset h5 val 0 sz = Inr h6" "wr h6 val = Inr h7"
        and w8: "entry_set_value_ptr h7 e val = Inr h8" and w9: "object_commit_add h8 slot = Inr h'"
      by (auto simp: v5 bindE_eq_Inr)
    have len: "24 * length ?gs + 24 \<le> length data" using obj_fillingE [OF f1] room by force
    have e': "e = Ptr b (8 + 24 * length ?gs)" using e by simp
    note s4 = head_evolves [OF f1 len e' w]
    let ?d4 = "patch (patch (patch data (24 * ?n) (word_cells 8 k)) (24 * ?n + 8) (word_cells 2 ty))
      (24 * ?n + 12) (word_cells 4 (of_nat sz :: u32))"
    have f4: "obj_filling F slot h4 b cap' ?gs ?d4" using s4(2) by simp
    then have inv4: "obj_inv F slot h4" by (simp add: obj_filling_def)
    obtain sb u where val: "val = Ptr (next_block h4) 0"
      and p7: "evolves (\<lambda>_. private_event {c. next_block h4 \<le> c}) h4 h7"
      and u: "value_type u = ty" "value_size u = sz" "value_at h7 (next_block h4) sb u"
        "ty = type_string \<Longrightarrow> str_inv {..<Suc (next_block h4)} (Ptr (next_block h4) 0) h7"
      using new_value_private [OF obj_inv_facts(1) [OF inv4] v] by blast
    have P: "{c. next_block h4 \<le> c} \<inter> obj_shared slot h4 = {}" "{c. next_block h4 \<le> c} \<inter> F = {}"
      using obj_shared_live [OF inv4] inv4 by (force simp: obj_inv_def)+
    have h8: "h8 = put Plain b (8 + (24 * ?n + 16)) (ptr_cells val) h7"
      using w8 head_writes(4) [OF filling_block [OF filling_private(2) [OF f4 p7 P]], of ?n val] e len by simp
    have d8: "patch ?d4 (24 * ?n + 16) (ptr_cells val) = write_entry data ?n (ObjField k (next_block h4) sb u)"
      using u(1,2) val by (simp add: write_entry_def)
    have "evolves ?G h4 h'"
    proof (rule link_evolves [OF f4 _ p7 u(3) _ _ _ h8 _ _ w9])
      show "entry_in (patch ?d4 (24 * ?n + 16) (ptr_cells val)) (length ?gs) (ObjField k (next_block h4) sb u)"
        unfolding d8 using write_entry_facts(3) [of ?n data] len by simp
      show "k \<notin> fhash ` set ?gs" using k by (simp add: field_pos_None image_image)
    qed (use room len u(1,4) in simp_all)
    then show ?thesis using ev1 s4(1) evolves_trans by blast
  qed
qed

end

section \<open>The writers of the setters\<close>

lemma private_store:
  assumes "store_cells a h (Ptr vb k) xs = Inr h'"
  shows "evolves (\<lambda>_. private_event (insert vb S)) h h'"
  using assms evolves_one [of h "Write a vb k xs" "\<lambda>_. private_event (insert vb S)"]
  by (auto elim!: store_cells_InrD)

lemma scalar_private:
  assumes "\<And>h vb. value_cells h vb sz k xs \<Longrightarrow> value_at h vb None v" and "k + length xs \<le> sz"
    and "value_type v = ty" and "value_size v = sz" and "ty \<noteq> type_string"
  shows "private_writer (\<lambda>h val. store_cells Plain h (padd val k) xs) ty sz"
proof
  fix h vb h'
  assume z: "blocks h vb = Some (replicate sz (Byte 0))" and
    run: "store_cells Plain h (padd (Ptr vb 0) k) xs = Inr h'"
  have "value_cells h vb sz k (replicate (length xs) (Byte 0))"
    using z assms(2) by (simp add: value_cells_def)
  then have "value_cells (put Plain vb k xs h) vb sz k xs"
    by (rule value_cells_put [OF _ assms(2)])
  moreover have "h' = put Plain vb k xs h" using run z assms(2) by simp
  ultimately have "value_at h' vb None v" using assms(1) by simp
  then show "evolves (\<lambda>_. private_event (insert vb {c. next_block h \<le> c})) h h' \<and>
      (\<exists>sb v. value_type v = ty \<and> value_size v = sz \<and> value_at h' vb sb v) \<and>
      (ty = type_string \<longrightarrow> str_inv {..<next_block h} (Ptr vb 0) h')"
    using private_store [of Plain h vb k xs h'] run assms(3-5) by auto
qed

interpretation p_int32: private_writer "\<lambda>h val. store_u32 h (padd val 4) x" type_int32 8 for x
  unfolding store_u32_def by (rule scalar_private [where v = "VInt32 x"]) (simp_all add: type_ids)

interpretation p_int64: private_writer "\<lambda>h val. store_u64 h (padd val 8) x" type_int64 16 for x
  unfolding store_u64_def by (rule scalar_private [where v = "VInt64 x"]) (simp_all add: type_ids)

interpretation p_float64: private_writer "\<lambda>h val. store_u64 h (padd val 8) x" type_float64 16 for x
  unfolding store_u64_def by (rule scalar_private [where v = "VFloat64 x"]) (simp_all add: type_ids)

interpretation p_bool: private_writer "\<lambda>h val. store_u32 h (padd val 4) (if x \<noteq> 0 then 1 else 0)"
    type_bool 8 for x :: u32
  unfolding store_u32_def by (rule scalar_private [where v = "VBool (x \<noteq> 0)"]) (simp_all add: type_ids)

interpretation p_object: private_writer "\<lambda>h val. Inr h" type_object 24
proof
  fix h vb h'
  assume "blocks h vb = Some (replicate 24 (Byte 0))" and "(Inr h :: heap res) = Inr h'"
  then have "value_at h' vb None (VObject Null)" by (simp add: value_cells_def ptr_cells.simps)
  then show "evolves (\<lambda>_. private_event (insert vb {c. next_block h \<le> c})) h h' \<and>
      (\<exists>sb v. value_type v = type_object \<and> value_size v = 24 \<and> value_at h' vb sb v) \<and>
      (type_object = type_string \<longrightarrow> str_inv {..<next_block h} (Ptr vb 0) h')"
    using \<open>Inr h = Inr h'\<close>
    by (intro conjI exI [of _ None] exI [of _ "VObject Null"]) (auto simp: type_ids intro: evolves_refl)
qed

lemma string_set_private:
  assumes "msm_string_set h (Ptr vb 0) str len = Inr h'"
  shows "evolves (\<lambda>_. private_event (insert vb {c. next_block h \<le> c})) h h'"
proof -
  let ?P = "insert vb {c. next_block h \<le> c}"
  let ?e = "\<lambda>q. Write (Atomic Release) vb 8 (ptr_cells q)"
  have one: "evolves (\<lambda>_. private_event ?P) g (apply_event (?e q) g)" for g q
    using evolves_one [of g "?e q" "\<lambda>_. private_event ?P"] by simp
  consider "h' = h" | m where "h' = fail_block m h" | "h' = apply_event (?e Null) h"
    | hm where "builds_at (next_block h) h hm" "h' = apply_event (?e (Ptr (next_block h) 0)) hm"
    using string_set_run [OF assms] by auto
  then show ?thesis
  proof cases
    case 1
    then show ?thesis by (simp add: evolves_refl)
  next
    case (2 m)
    then show ?thesis using evolves_one [of h "AllocFail m" "\<lambda>_. private_event ?P"] by simp
  next
    case 3
    show ?thesis unfolding 3 by (rule one)
  next
    case (4 hm)
    have "evolves (\<lambda>_. private_event ?P) h hm"
      by (rule evolves_private_mono [OF builds_private [OF 4(1)]]) simp
    then show ?thesis unfolding 4(2) using one by (rule evolves_trans)
  qed
qed

lemma p_string:
  assumes "string_arg_ok str len"
  shows "private_writer (\<lambda>h val. msm_string_set h val str len) type_string 24"
proof
  fix h vb h'
  assume wf: "heap_wf h" and z: "blocks h vb = Some (replicate 24 (Byte 0))"
    and pub: "published (Ptr vb 0) h = {}" and run: "msm_string_set h (Ptr vb 0) str len = Inr h'"
  have null: "value_cells h vb 24 8 (ptr_cells Null)"
    using z by (simp add: value_cells_def ptr_cells.simps)
  have slot: "slot_holds h (Ptr vb 0) Null" by (rule value_cells_slot [OF null])
  have "str_inv {..<next_block h} (Ptr vb 0) h" using wf slot pub by (auto simp: str_inv_def)
  moreover from this have "evolves (str_guar {..<next_block h} (Ptr vb 0)) h h'"
    using run by (rule string_set_evolves [OF _ _ assms [unfolded string_arg_ok_def]])
  ultimately have inv': "str_inv {..<next_block h} (Ptr vb 0) h'" using str_evolves by blast
  have "\<exists>sb s. value_at h' vb sb (VString s)"
  proof (cases "str = None \<or> len = 0")
    case True
    then have "h' = put (Atomic Release) vb 8 (ptr_cells Null) h"
      using string_set_empty [OF slot True] run by simp
    then have "value_at h' vb None (VString [])"
      using value_cells_put [OF null, of "ptr_cells Null"] by simp
    then show ?thesis by blast
  next
    case False
    then obtain bs where str: "str = Some bs" and len: "len \<noteq> 0" "len \<noteq> - 1" "unat len \<le> length bs"
      using assms by (auto simp: string_arg_ok_def)
    have "unat len \<noteq> unat (- 1 :: u32)" using len(2) by (simp add: word_unat_eq_iff)
    then have n: "0 < unat len" "unat len < 4294967295"
      using len(1) unat_u32_less [of len] by (simp_all add: unat_minus_1_u32 unat_gt_0)
    show ?thesis
    proof (cases "oom h (next_block h) (8 + (unat len + 1))")
      case True
      have "h' = fail_block (8 + (unat len + 1)) h"
        using string_set_oom [OF _ len(1,2) True, of "Ptr vb 0" bs] run str by simp
      then have "value_at h' vb None (VString [])"
        using null value_cells_cong [of h' vb h] by simp
      then show ?thesis by blast
    next
      case False
      from slot wf n len(3) False obtain h1 where "msm_string_set h (Ptr vb 0) (Some bs) (of_nat (unat len)) = Inr h1"
          "publishes h h1 (Ptr vb 0) (Ptr (next_block h) 0)"
          "string_rep h1 (Ptr vb 0) (next_block h) (take (unat len) bs)"
        by (rule string_set_runs)
      moreover from this have "h1 = h'" using run str by simp
      ultimately have "value_at h' vb (Some (next_block h)) (VString (take (unat len) bs))"
        using publishes_value [OF _ null] by simp
      then show ?thesis by blast
    qed
  qed
  then obtain sb s where v: "value_at h' vb sb (VString s)" by blast
  have "value_type (VString s) = type_string" "value_size (VString s) = 24" by simp_all
  with v show "evolves (\<lambda>_. private_event (insert vb {c. next_block h \<le> c})) h h' \<and>
      (\<exists>sb v. value_type v = type_string \<and> value_size v = 24 \<and> value_at h' vb sb v) \<and>
      (type_string = type_string \<longrightarrow> str_inv {..<next_block h} (Ptr vb 0) h')"
    using string_set_private [OF run] inv' by blast
qed

text \<open>Setting a string that is there already: the new text is built in private and published in the
  slot of the value.\<close>

lemma set_text_evolves:
  assumes inv: "obj_inv F slot h" and now: "obj_now h slot b cap gs"
    and f: "f \<in> set gs" "is_string f" and run: "msm_string_set h (Ptr (fblock f) 0) str len = Inr h'"
    and ok: "string_arg_ok str len"
  shows "evolves (obj_guar F slot) h h'"
proof -
  let ?vb = "fblock f" and ?nb = "next_block h"
  let ?e = "\<lambda>q. Write (Atomic Release) ?vb 8 (ptr_cells q)"
  have slot: "slot_holds h slot (Ptr b 0)" and snap: "obj_snap h slot b cap gs"
    using now by (simp_all add: obj_now_def)
  have "f \<in> obj_fields slot h" using obj_snap_fields [OF obj_current(1) [OF inv slot] snap] f(1) by blast
  then have vb: "?vb \<in> obj_strings slot h" using f(2) by (auto simp: obj_strings_def)
  note str = obj_inv_string(1) [OF inv vb]
  have cur: "current_string slot h ?vb" using now f unfolding current_string_def by blast
  consider "h' = h" | m where "h' = fail_block m h" | "h' = apply_event (?e Null) h"
    | hm where "builds_at ?nb h hm" "h' = apply_event (?e (Ptr ?nb 0)) hm"
    using string_set_run [OF run] by auto
  then show ?thesis
  proof cases
    case 1
    then show ?thesis by (simp add: evolves_refl)
  next
    case 2
    then show ?thesis using fail_evolves [OF inv] by simp
  next
    case 3
    then show ?thesis
      using obj_guar_text [OF inv cur refl, of Null] evolves_one [of h "?e Null" "obj_guar F slot"] by simp
  next
    case (4 hm)
    have new: "?nb \<notin> obj_shared slot h \<union> F" using obj_inv_facts(4,5) [OF inv] by blast
    obtain data where fill: "obj_filling F slot h b cap gs data"
      using snap inv now by (auto simp: obj_filling_def obj_snap_def)
    have P: "{?nb} \<inter> obj_shared slot h = {}" "{?nb} \<inter> F = {}" using new by auto
    note hm = filling_private [OF fill builds_private [OF 4(1)] P]
    have "obj_now hm slot b cap gs" "obj_inv F slot hm" using hm(2) by (simp_all add: obj_filling_def)
    then have cur': "current_string slot hm ?vb" using f unfolding current_string_def by blast
    have "str_buffer (Ptr ?vb 0) h' ?nb"
      using string_set_published [OF str run _ 4(1)] ok 4(2) by (simp add: string_arg_ok_def)
    then have "obj_guar F slot hm (?e (Ptr ?nb 0))"
      using obj_guar_text [OF \<open>obj_inv F slot hm\<close> cur' refl, of "Ptr ?nb 0"] new hm(3) 4(2) by auto
    then have "evolves (obj_guar F slot) hm h'" unfolding 4(2) by (intro evolves_one) simp_all
    with hm(1) show ?thesis by (rule evolves_trans)
  qed
qed

lemma set_string_evolves:
  assumes inv: "obj_inv F slot h" and ok: "string_arg_ok str len"
    and run: "msm_object_set_string h slot (Some nm) str len = Inr (r, h')"
  shows "evolves (obj_guar F slot) h h'"
proof -
  let ?wr = "\<lambda>h val. msm_string_set h val str len"
  obtain cap fs B where obj: "object_fs h slot cap fs B" using obj_inv_fs [OF inv] by blast
  obtain p where set: "set_scheme type_string 24 ?wr h slot (field_key nm) = Inr (p, h')"
    using run obj_inv_facts(2) [OF inv] by (auto simp: set_string_scheme bindE_eq_Inr)
  show ?thesis
  proof (cases "field_pos (field_key nm) fs")
    case None
    then show ?thesis
      using private_writer.add_field_evolves [OF p_string [OF ok] inv obj None, of p h'] set by simp
  next
    case (Some j)
    obtain b where rep: "object_rep h slot b cap fs"
      and find: "object_find_entry_by_hash h slot (field_key nm) = Inr (Ptr b (8 + 24 * j))"
        "entry_type_id h (Ptr b (8 + 24 * j)) = Inr (value_type (fval (fs ! j)))"
        "entry_value_ptr h (Ptr b (8 + 24 * j)) = Inr (Ptr (fblock (fs ! j)) 0)"
      using object_fs_find_Some [OF obj Some] by metis
    have ty: "value_type (fval (fs ! j)) = type_string"
      and w: "msm_string_set h (Ptr (fblock (fs ! j)) 0) str len = Inr h'"
      using set find by (auto simp: set_scheme_def bindE_eq_Inr split: if_splits)
    have "outline (fs ! j) \<in> set (map outline fs)" using field_pos_Some [OF Some] by simp
    then show ?thesis
      using set_text_evolves [OF inv object_rep_now [OF rep] _ _ _ ok, of "outline (fs ! j)"] ty w
      by (simp add: is_string_type)
  qed
qed

section \<open>Removing a field\<close>

lemma remove_run:
  assumes "msm_object_remove h slot (Some nm) = Inr (r, h')"
  shows "h' = h \<or> (\<exists>m. h' = fail_block m h) \<or>
    h' = apply_event (Write (Atomic Release) (blk slot) (off slot + 8) (ptr_cells Null)) h \<or>
    (\<exists>hm. builds_at (next_block h) h hm \<and>
      atomic_store_ptr hm (padd slot 8) (Ptr (next_block h) 0) Release = Inr h')"
proof (rule ccontr)
  assume no: "\<not> ?thesis"
  have empty: False if "atomic_store_ptr h (padd slot 8) Null Release = Inr h'"
    using store_slot_InrD [OF that] no by blast
  have built: False
    if "atomic_store_u32 (new_block m h) (Ptr (next_block h) 0) n Relaxed = Inr h2"
      and "atomic_store_u32 h2 (Ptr (next_block h) 4) c Relaxed = Inr h3"
      and "h4 = h3 \<or> memcpy h3 (Ptr (next_block h) i) p k = Inr h4"
      and "h5 = h4 \<or> memcpy h4 (Ptr (next_block h) j) q l = Inr h5"
      and "atomic_store_ptr h5 (padd slot 8) (Ptr (next_block h) 0) Release = Inr h'"
    for m n h2 c h3 h4 i p k h5 j q l
  proof -
    have "builds_at (next_block h) h h3" by (rule build_header [OF disjI1 [OF refl] that(1,2)])
    then have "builds_at (next_block h) h h4" using that(3) build_copy by blast
    then have "builds_at (next_block h) h h5" using that(4) build_copy by blast
    then show False using that(5) no by blast
  qed
  show False
    using assms no
    by (auto simp: msm_object_remove_def obj_buf_defs bindE_eq_Inr Let_def malloc_def split: if_splits
        dest: built empty)
qed

lemma remove_publish_evolves:
  assumes inv: "obj_inv F slot h" and run: "msm_object_remove h slot (Some nm) = Inr (r, h')"
    and new: "object_rep h' slot (next_block h) cap' fs" and sub: "set (map outline fs) \<subseteq> obj_fields slot h"
  shows "evolves (obj_guar F slot) h h'"
proof -
  let ?nb = "next_block h" and ?null = "Write (Atomic Release) (blk slot) (off slot + 8) (ptr_cells Null)"
  have other: "\<not> slot_holds h slot (Ptr ?nb 0)"
    using obj_current(1) [OF inv] obj_inv_facts(4) [OF inv] obj_shared_intro(2) by blast
  have new_slot: "slot_holds h' slot (Ptr ?nb 0)" using new by (simp add: object_rep_def)
  have "blocks h' (blk slot) \<noteq> blocks h (blk slot)" using other new_slot slot_holds_cong by blast
  moreover have "h' \<noteq> apply_event ?null h"
  proof
    assume "h' = apply_event ?null h"
    moreover obtain q where "slot_holds h slot q" using inv by (auto simp: obj_inv_def)
    ultimately have "slot_holds h' slot Null" using slot_holds_publish by simp
    then show False using new_slot slot_holds_unique by blast
  qed
  ultimately obtain hm where "builds_at ?nb h hm" "atomic_store_ptr hm (padd slot 8) (Ptr ?nb 0) Release = Inr h'"
    using remove_run [OF run] by auto
  moreover have "obj_snap h' slot ?nb cap' (map outline fs)"
    using object_rep_now [OF new] by (simp add: obj_now_def)
  ultimately show ?thesis using publish_evolves [OF inv _ _ _ sub] by blast
qed

lemma remove_evolves:
  assumes inv: "obj_inv F slot h" and run: "msm_object_remove h slot (Some nm) = Inr (r, h')"
  shows "evolves (obj_guar F slot) h h'"
  using inv
proof (cases rule: obj_inv_content)
  case 1
  then have "h' = h" using run obj_inv_facts(2) [OF inv] by (simp add: msm_object_remove_def load_slot)
  then show ?thesis by (simp add: evolves_refl)
next
  case (2 b cap gs)
  let ?k = "hash_name nm (c_strlen nm)" and ?nb = "next_block h"
  obtain fs where gs: "map outline fs = gs" and whole: "object_rep h slot b cap fs"
    using now_object_rep [OF inv 2(2,1)] .
  have obj: "object_fs h slot cap fs (object_blocks slot b fs)"
    using whole unfolding object_fs_def by blast
  show ?thesis
  proof (cases "field_pos ?k fs")
    case None
    then show ?thesis using remove_missing [OF obj None] run by (simp add: evolves_refl)
  next
    case (Some j)
    let ?xs = "take j fs" and ?ys = "drop (Suc j) fs"
    have fs: "fs = ?xs @ fs ! j # ?ys" "fhash (fs ! j) = ?k" using field_pos_split [OF Some] by simp_all
    have rep: "object_rep h slot b cap (?xs @ fs ! j # ?ys)" using whole fs(1) by simp
    note found = remove_found [OF rep obj_inv_facts(1) [OF inv] fs(2)]
    have "set (map outline (?xs @ ?ys)) \<subseteq> set (map outline (?xs @ fs ! j # ?ys))" by auto
    then have sub: "set (map outline (?xs @ ?ys)) \<subseteq> obj_fields slot h"
      using content_fields [OF inv obj] unfolding fs(1) [symmetric] by blast
    show ?thesis
    proof (cases "?xs @ ?ys = []")
      case True
      let ?e = "Write (Atomic Release) (blk slot) (off slot + 8) (ptr_cells Null)"
      have "h' = apply_event ?e h" using found [unfolded if_P [OF True]] run by simp
      then show ?thesis
        using obj_guar_publish [OF inv refl, of Null] evolves_one [of h ?e "obj_guar F slot"] by simp
    next
      case ne: False
      note found = found [unfolded if_not_P [OF ne]]
      show ?thesis
      proof (cases "oom h ?nb (8 + 24 * length (?xs @ ?ys))")
        case True
        then have "h' = fail_block (8 + 24 * length (?xs @ ?ys)) h"
          using found [unfolded if_P [OF True]] run by simp
        then show ?thesis using fail_evolves [OF inv] by simp
      next
        case False
        then obtain cap' where new: "object_rep h' slot ?nb cap' (?xs @ ?ys)"
          using found [unfolded if_not_P [OF False]] run by auto
        show ?thesis by (rule remove_publish_evolves [OF inv run new sub])
      qed
    qed
  qed
qed

section \<open>The writer\<close>

text \<open>The writer adds a scalar field after a look at whether it exists: overwriting it in place would
  race with its readers. A string may be set at any time.\<close>

definition add_missing :: "ptr \<Rightarrow> u8 list \<Rightarrow> (heap \<Rightarrow> (int \<times> heap) res) \<Rightarrow> heap \<Rightarrow> heap res" where
  "add_missing slot nm setter h = bindE (msm_object_has_field h slot (Some nm)) (\<lambda>i.
     if i \<noteq> 0 then Inr h else bindE (setter h) (\<lambda>(_, h'). Inr h'))"

definition object_writer :: "ptr \<Rightarrow> (heap \<Rightarrow> heap res) set" where
  "object_writer slot =
     {add_missing slot nm (\<lambda>h. msm_object_set_int32 h slot (Some nm) x) | nm x. True} \<union>
     {add_missing slot nm (\<lambda>h. msm_object_set_int64 h slot (Some nm) x) | nm x. True} \<union>
     {add_missing slot nm (\<lambda>h. msm_object_set_float64 h slot (Some nm) x) | nm x. True} \<union>
     {add_missing slot nm (\<lambda>h. msm_object_set_bool h slot (Some nm) x) | nm x. True} \<union>
     {\<lambda>h. bindE (msm_object_set_string h slot (Some nm) str len) (\<lambda>(_, h'). Inr h') | nm str len.
        string_arg_ok str len} \<union>
     {\<lambda>h. bindE (msm_object_ensure_object h slot (Some nm)) (\<lambda>(_, h'). Inr h') | nm. True} \<union>
     {\<lambda>h. bindE (msm_object_remove h slot (Some nm)) (\<lambda>(_, h'). Inr h') | nm. True}"

lemma add_missing_evolves:
  assumes inv: "obj_inv F slot h" and w: "private_writer wr ty sz" and sz: "sz < 4294967296"
    and setter: "setter h = bindE (set_scheme ty (of_nat sz) wr h slot (field_key nm)) status_of"
    and run: "add_missing slot nm setter h = Inr h'"
  shows "evolves (obj_guar F slot) h h'"
proof -
  obtain cap fs B where obj: "object_fs h slot cap fs B" using obj_inv_fs [OF inv] by blast
  show ?thesis
  proof (cases "field_pos (field_key nm) fs")
    case None
    then have "msm_object_has_field h slot (Some nm) = Inr 0"
      using object_fs_find_None [OF obj None] obj_inv_facts(2) [OF inv]
      by (simp add: msm_object_has_field_def object_find_entry_def field_key_def)
    then obtain r h1 where "set_scheme ty (of_nat sz) wr h slot (field_key nm) = Inr (r, h1)" "h1 = h'"
      using run by (auto simp: add_missing_def setter bindE_eq_Inr)
    then show ?thesis using private_writer.add_field_evolves [OF w inv obj None _ sz] by blast
  next
    case (Some j)
    obtain b where "object_find_entry_by_hash h slot (field_key nm) = Inr (Ptr b (8 + 24 * j))"
      using object_fs_find_Some [OF obj Some] by metis
    then have "msm_object_has_field h slot (Some nm) = Inr 1"
      using obj_inv_facts(2) [OF inv] by (simp add: msm_object_has_field_def object_find_entry_def field_key_def)
    then show ?thesis using run by (simp add: add_missing_def evolves_refl)
  qed
qed

lemma ensure_object_evolves:
  assumes inv: "obj_inv F slot h" and run: "msm_object_ensure_object h slot (Some nm) = Inr (p, h')"
  shows "evolves (obj_guar F slot) h h'"
proof -
  obtain cap fs B where obj: "object_fs h slot cap fs B" using obj_inv_fs [OF inv] by blast
  obtain r where r: "set_scheme type_object 24 (\<lambda>h val. Inr h) h slot (field_key nm) = Inr (r, h')"
    using run obj_inv_facts(2) [OF inv] by (auto simp: ensure_object_scheme bindE_eq_Inr)
  show ?thesis
  proof (cases "field_pos (field_key nm) fs")
    case None
    then show ?thesis using p_object.add_field_evolves [OF inv obj None, of r h'] r by simp
  next
    case (Some j)
    obtain b where "object_find_entry_by_hash h slot (field_key nm) = Inr (Ptr b (8 + 24 * j))"
      using object_fs_find_Some [OF obj Some] by metis
    then have "h' = h" using r by (auto simp: set_scheme_def bindE_eq_Inr split: if_splits)
    then show ?thesis by (simp add: evolves_refl)
  qed
qed

interpretation obj: swmr "object_writer slot" "obj_inv F slot" "obj_guar F slot" for F slot
proof
  fix h e
  assume "obj_guar F slot h e"
  then show "obj_inv F slot (apply_event e h)" by (simp add: obj_guar_def)
next
  fix f h h'
  assume f: "f \<in> object_writer slot" and inv: "obj_inv F slot h" and run: "f h = Inr h'"
  have nn: "slot \<noteq> Null" by (rule obj_inv_facts(2) [OF inv])
  note add = add_missing_evolves [OF inv]
  consider nm x where "f = add_missing slot nm (\<lambda>h. msm_object_set_int32 h slot (Some nm) x)"
    | nm x where "f = add_missing slot nm (\<lambda>h. msm_object_set_int64 h slot (Some nm) x)"
    | nm x where "f = add_missing slot nm (\<lambda>h. msm_object_set_float64 h slot (Some nm) x)"
    | nm x where "f = add_missing slot nm (\<lambda>h. msm_object_set_bool h slot (Some nm) x)"
    | nm str len r where "msm_object_set_string h slot (Some nm) str len = Inr (r, h')" "string_arg_ok str len"
    | nm p where "msm_object_ensure_object h slot (Some nm) = Inr (p, h')"
    | nm r where "msm_object_remove h slot (Some nm) = Inr (r, h')"
    using f run unfolding object_writer_def by (auto simp: bindE_eq_Inr)
  then show "evolves (obj_guar F slot) h h'"
  proof cases
    case (1 nm x)
    then show ?thesis
      using add [OF p_int32.private_writer_axioms _ _ run [unfolded 1]] nn by (simp add: set_int32_scheme)
  next
    case (2 nm x)
    then show ?thesis
      using add [OF p_int64.private_writer_axioms _ _ run [unfolded 2]] nn by (simp add: set_int64_scheme)
  next
    case (3 nm x)
    then show ?thesis
      using add [OF p_float64.private_writer_axioms _ _ run [unfolded 3]] nn by (simp add: set_float64_scheme)
  next
    case (4 nm x)
    then show ?thesis
      using add [OF p_bool.private_writer_axioms _ _ run [unfolded 4]] nn by (simp add: set_bool_scheme)
  next
    case (5 nm str len r)
    then show ?thesis by (intro set_string_evolves [OF inv])
  next
    case 6
    then show ?thesis by (rule ensure_object_evolves [OF inv])
  next
    case 7
    then show ?thesis by (rule remove_evolves [OF inv])
  qed
qed

end
