(* ===== verification/Msm_Object_Queries.thy ===== *)
theory Msm_Object_Queries
  imports Msm_Object_Writer
begin

text \<open>
  What a reader of an object gets: from the moment it has loaded the pointer of the slot and the
  count, it works on a fixed list of fields, all the fields of the object at one moment, whatever
  the writer does; only the text of a string may be that of a later moment. Each reader of \<open>Msm_Object_Readers\<close> is shown to answer for such a moment.
\<close>

section \<open>What a reader that holds a buffer can count on\<close>

text \<open>The reader holds buffer \<open>b\<close> and has seen a count that covers the fields \<open>fs\<close>; these were
  all fields of the object at some moment since \<open>h0\<close>.\<close>

definition obj_view :: "nat set \<Rightarrow> ptr \<Rightarrow> heap \<Rightarrow> nat \<Rightarrow> u32 \<Rightarrow> obj_field list \<Rightarrow> heap \<Rightarrow> bool" where
  "obj_view F slot h0 b cap fs h \<longleftrightarrow> obj_inv F slot h \<and> b \<in> published slot h \<and>
     (\<exists>gs. obj_snap h slot b cap (fs @ gs)) \<and>
     (\<exists>hm. evolves (obj_guar F slot) h0 hm \<and> evolves (obj_guar F slot) hm h \<and> obj_inv F slot hm \<and>
        obj_now hm slot b cap fs)"

lemma obj_view_later:
  assumes "obj_view F slot h0 b cap fs h" and ev: "evolves (obj_guar F slot) h h'"
  shows "obj_view F slot h0 b cap fs h'"
proof -
  obtain gs hm where v: "obj_inv F slot h" "b \<in> published slot h" "obj_snap h slot b cap (fs @ gs)"
      "evolves (obj_guar F slot) h0 hm" "evolves (obj_guar F slot) hm h" "obj_inv F slot hm" "obj_now hm slot b cap fs"
    using assms(1) by (auto simp: obj_view_def)
  obtain gs' where "obj_snap h' slot b cap ((fs @ gs) @ gs')"
    using obj_snap_later [OF ev v(1-3)] by metis
  moreover have "evolves (obj_guar F slot) hm h'" using v(5) ev by (rule evolves_trans)
  ultimately show ?thesis
    using obj_evolves [OF ev v(1)] v(2,4,6,7) unfolding obj_view_def by (metis append_assoc subsetD)
qed

lemma obj_view_entry:
  assumes "obj_view F slot h0 b cap fs h" and j: "j < length fs"
  shows "entry_name_hash h (Ptr b (8 + 24 * j)) = Inr (fhash (fs ! j))"
    and "entry_type_id h (Ptr b (8 + 24 * j)) = Inr (value_type (fval (fs ! j)))"
    and "entry_value_ptr h (Ptr b (8 + 24 * j)) = Inr (Ptr (fblock (fs ! j)) 0)"
    and "outline_at h (fs ! j)"
proof -
  obtain gs where s: "obj_snap h slot b cap (fs @ gs)" using assms(1) by (auto simp: obj_view_def)
  obtain data where d: "blocks h b = Some (counted (of_nat (length (fs @ gs))) cap data)"
      "length data = 24 * unat cap" "entries_in data (fs @ gs)" "length (fs @ gs) \<le> unat cap"
      "\<forall>f \<in> set (fs @ gs). outline_at h f"
    using s by (rule obj_snapE)
  have e: "entry_in data j (fs ! j)"
    using d(3) j by (metis entries_in_def length_append nth_append trans_less_add1)
  have l: "24 * j + 24 \<le> length data" using d(2,4) j by simp
  show "entry_name_hash h (Ptr b (8 + 24 * j)) = Inr (fhash (fs ! j))"
    "entry_type_id h (Ptr b (8 + 24 * j)) = Inr (value_type (fval (fs ! j)))"
    "entry_value_ptr h (Ptr b (8 + 24 * j)) = Inr (Ptr (fblock (fs ! j)) 0)"
    using entry_loads [OF d(1) l e] by simp_all
  show "outline_at h (fs ! j)" using d(5) j by simp
qed

lemma view_hash_reads:
  assumes v: "obj_view F slot h0 b cap fs h" and j: "j < length fs"
    and k: "\<And>h'. obj_view F slot h0 b cap fs h' \<Longrightarrow> reads (obj_guar F slot) (f (fhash (fs ! j))) h' Q"
  shows "reads (obj_guar F slot) (bindR (entry_name_hashR (Ptr b (8 + 24 * j))) f) h Q"
  unfolding entry_name_hashR_def
proof (rule reads_word)
  fix h' assume "evolves (obj_guar F slot) h h'"
  then have "obj_view F slot h0 b cap fs h'" by (rule obj_view_later [OF v])
  then show "\<exists>x. bindE (load_cells h' (Ptr b (8 + 24 * j)) 8) decode_word = Inr x \<and>
      reads (obj_guar F slot) (f x) h' Q"
    using obj_view_entry(1) [of F slot h0 b cap fs h'] j k by (auto simp: entry_defs)
qed

lemma view_type_reads:
  assumes v: "obj_view F slot h0 b cap fs h" and j: "j < length fs"
    and k: "\<And>h'. obj_view F slot h0 b cap fs h' \<Longrightarrow>
      reads (obj_guar F slot) (f (value_type (fval (fs ! j)))) h' Q"
  shows "reads (obj_guar F slot) (bindR (entry_type_idR (Ptr b (8 + 24 * j))) f) h Q"
  unfolding entry_type_idR_def
proof (rule reads_word)
  fix h' assume "evolves (obj_guar F slot) h h'"
  then have "obj_view F slot h0 b cap fs h'" by (rule obj_view_later [OF v])
  then show "\<exists>x. bindE (load_cells h' (padd (Ptr b (8 + 24 * j)) 8) 2) decode_word = Inr x \<and>
      reads (obj_guar F slot) (f x) h' Q"
    using obj_view_entry(2) [of F slot h0 b cap fs h'] j k by (auto simp: entry_defs)
qed

lemma view_ptr_reads:
  assumes v: "obj_view F slot h0 b cap fs h" and j: "j < length fs"
    and k: "\<And>h'. obj_view F slot h0 b cap fs h' \<Longrightarrow>
      reads (obj_guar F slot) (f (Ptr (fblock (fs ! j)) 0)) h' Q"
  shows "reads (obj_guar F slot) (bindR (entry_value_ptrR (Ptr b (8 + 24 * j))) f) h Q"
  unfolding entry_value_ptrR_def
proof (rule reads_ptr)
  fix h' assume "evolves (obj_guar F slot) h h'"
  then have "obj_view F slot h0 b cap fs h'" by (rule obj_view_later [OF v])
  then show "\<exists>q. load_ptr h' (padd (Ptr b (8 + 24 * j)) 16) = Inr q \<and> reads (obj_guar F slot) (f q) h' Q"
    using obj_view_entry(3) [of F slot h0 b cap fs h'] j k by (auto simp: entry_value_ptr_def)
qed

section \<open>Finding an entry\<close>

lemma scan_reads:
  assumes "obj_view F slot h0 b cap fs h" and "length fs < 4294967296" and "unat i + r = length fs"
  shows "reads (obj_guar F slot) (find_entry_scanR (Ptr b 8) k i r) h (\<lambda>v h'. obj_view F slot h0 b cap fs h' \<and>
    v = (case field_pos k (drop (unat i) fs) of None \<Rightarrow> Null | Some j \<Rightarrow> Ptr b (8 + 24 * (unat i + j))))"
  using assms(1,3)
proof (induction r arbitrary: i h)
  case 0
  then show ?case using obj_view_later by auto
next
  case (Suc r)
  let ?Q = "\<lambda>v h'. obj_view F slot h0 b cap fs h' \<and> v = (case field_pos k (drop (unat i) fs) of
      None \<Rightarrow> Null | Some j \<Rightarrow> Ptr b (8 + 24 * (unat i + j)))"
  have i: "unat i < length fs" using Suc.prems(2) by simp
  have d: "drop (unat i) fs = fs ! unat i # drop (unat i + 1) fs"
    using i by (simp add: Cons_nth_drop_Suc)
  have "reads (obj_guar F slot) (bindR (entry_name_hashR (Ptr b (8 + 24 * unat i))) (\<lambda>x.
      if x = k then Return (Ptr b (8 + 24 * unat i)) else find_entry_scanR (Ptr b 8) k (i + 1) r)) h ?Q"
  proof (rule view_hash_reads [OF Suc.prems(1) i])
    fix h1 assume v1: "obj_view F slot h0 b cap fs h1"
    show "reads (obj_guar F slot) (if fhash (fs ! unat i) = k then Return (Ptr b (8 + 24 * unat i))
        else find_entry_scanR (Ptr b 8) k (i + 1) r) h1 ?Q"
    proof (cases "fhash (fs ! unat i) = k")
      case True
      then show ?thesis using obj_view_later [OF v1] by (auto simp: d)
    next
      case ne: False
      show ?thesis
      proof (cases "r = 0")
        case True
        then have "drop (unat i + 1) fs = []" using Suc.prems(2) by simp
        then show ?thesis using True ne d obj_view_later [OF v1] by auto
      next
        case False
        then have u: "unat (i + 1) = unat i + 1"
          using unat_plus_1_u32 [of i] Suc.prems(2) assms(2) by simp
        then have "unat (i + 1) + r = length fs" using Suc.prems(2) by simp
        from Suc.IH [OF v1 this] show ?thesis
          using ne by (auto simp: u d elim!: reads_mono split: option.splits)
      qed
    qed
  qed
  then show ?case by (simp add: Let_def)
qed

text \<open>\<open>obj_seen\<close>: the object had the fields \<open>fs\<close> at some moment between \<open>h0\<close> and \<open>h\<close>.\<close>

definition obj_seen :: "nat set \<Rightarrow> ptr \<Rightarrow> heap \<Rightarrow> obj_field list \<Rightarrow> heap \<Rightarrow> bool" where
  "obj_seen F slot h0 fs h \<longleftrightarrow> (\<exists>hm cap B. evolves (obj_guar F slot) h0 hm \<and> evolves (obj_guar F slot) hm h \<and>
     object_fs hm slot cap fs B)"

lemma obj_seen_later: "obj_seen F slot h0 fs h \<Longrightarrow> evolves (obj_guar F slot) h h' \<Longrightarrow> obj_seen F slot h0 fs h'"
  unfolding obj_seen_def using evolves_trans by blast

lemma field_pos_outline [simp]: "field_pos k (map outline fs) = field_pos k fs"
  by (induction fs) simp_all

lemma obj_view_seen:
  assumes "obj_view F slot h0 b cap fs h"
  obtains gs where "map outline gs = fs" and "obj_seen F slot h0 gs h"
proof -
  obtain hm where hm: "evolves (obj_guar F slot) h0 hm" "evolves (obj_guar F slot) hm h" "obj_inv F slot hm"
      "obj_now hm slot b cap fs"
    using assms by (auto simp: obj_view_def)
  then have "slot_holds hm slot (Ptr b 0)" by (simp add: obj_now_def)
  then obtain gs where gs: "map outline gs = fs" "object_rep hm slot b cap gs"
    using now_object_rep [OF hm(3,4)] obj_current(1) [OF hm(3)] by blast
  then have "obj_seen F slot h0 gs h" using hm(1,2) unfolding obj_seen_def object_fs_def by blast
  with gs(1) show ?thesis by (rule that)
qed

lemma view_missing:
  assumes "obj_view F slot h0 b cap fs h" and "field_pos k fs = None"
  obtains gs where "field_pos k gs = None" and "obj_seen F slot h0 gs h"
proof -
  obtain gs where gs: "map outline gs = fs" "obj_seen F slot h0 gs h" using obj_view_seen [OF assms(1)] .
  then have "field_pos k gs = None" using assms(2) by auto
  with gs(2) show ?thesis using that by blast
qed

lemma view_field:
  assumes "obj_view F slot h0 b cap fs h" and "field_pos k fs = Some j"
  obtains gs where "obj_seen F slot h0 gs h" and "outline (gs ! j) = fs ! j"
    and "fields_map gs k = Some (fval (gs ! j))" and "field_pos k gs = Some j"
proof -
  obtain gs where gs: "map outline gs = fs" "obj_seen F slot h0 gs h" using obj_view_seen [OF assms(1)] .
  then have j: "field_pos k gs = Some j" using assms(2) by auto
  then have "outline (gs ! j) = fs ! j" using gs(1) field_pos_Some [OF j] by (metis nth_map)
  with gs(2) show ?thesis using that j by (simp add: fields_map_pos)
qed

text \<open>Loading the pointer of the slot and then the count of the buffer.\<close>

lemma slot_reads:
  assumes inv: "obj_inv F slot h0"
    and null: "\<And>h. obj_seen F slot h0 [] h \<Longrightarrow> reads (obj_guar F slot) (f Null) h Q"
    and buf: "\<And>h b cap fs. obj_view F slot h0 b cap fs h \<Longrightarrow> reads (obj_guar F slot) (f (Ptr b 0)) h Q"
  shows "reads (obj_guar F slot) (bindR (atomic_load_ptrR (padd slot 8)) f) h0 Q"
proof (rule reads_atomic_ptr [where ord = Acquire])
  fix h assume ev: "evolves (obj_guar F slot) h0 h"
  have inv1: "obj_inv F slot h" using obj_evolves [OF ev inv] by simp
  then show "\<exists>q. atomic_load_ptr h (padd slot 8) Acquire = Inr q \<and> reads (obj_guar F slot) (f q) h Q"
  proof (cases rule: obj_inv_content)
    case 1
    then have "obj_seen F slot h0 [] h"
      using ev evolves_refl unfolding obj_seen_def object_fs_def by blast
    then show ?thesis using null load_slot [OF 1] by auto
  next
    case (2 b cap fs)
    then have "obj_view F slot h0 b cap fs h"
      using inv1 ev evolves_refl unfolding obj_view_def obj_now_def by (metis append_Nil2)
    then show ?thesis using buf load_slot [of h slot "Ptr b 0" Acquire] 2(2) by (auto simp: obj_now_def)
  qed
qed

lemma count_reads:
  assumes v: "obj_view F slot h0 b cap fs h"
    and k: "\<And>h' fs'. obj_view F slot h0 b cap fs' h' \<Longrightarrow> length fs' < 4294967296 \<Longrightarrow>
      reads (obj_guar F slot) (f (of_nat (length fs'))) h' Q"
  shows "reads (obj_guar F slot) (bindR (atomic_load_u32R (Ptr b 0)) f) h Q"
proof (rule reads_atomic_u32 [where ord = Acquire])
  fix h1 assume ev: "evolves (obj_guar F slot) h h1"
  obtain hm where v': "evolves (obj_guar F slot) h0 hm" "evolves (obj_guar F slot) hm h" "obj_inv F slot hm"
      "obj_now hm slot b cap fs"
    using v by (auto simp: obj_view_def)
  then have slot: "slot_holds hm slot (Ptr b 0)" "obj_snap hm slot b cap fs" by (simp_all add: obj_now_def)
  have ev1: "evolves (obj_guar F slot) hm h1" using v'(2) ev by (rule evolves_trans)
  note b = obj_current(1) [OF v'(3) slot(1)]
  obtain gs where g: "obj_snap h1 slot b cap (fs @ gs)" "gs = [] \<or> (\<exists>h2. evolves (obj_guar F slot) hm h2 \<and>
      evolves (obj_guar F slot) h2 h1 \<and> obj_now h2 slot b cap (fs @ gs))"
    using obj_snap_later [OF ev1 v'(3) b slot(2)] .
  have "\<exists>h2. evolves (obj_guar F slot) h0 h2 \<and> evolves (obj_guar F slot) h2 h1 \<and> obj_inv F slot h2 \<and>
      obj_now h2 slot b cap (fs @ gs)"
  proof (cases "gs = []")
    case True
    then show ?thesis using v' ev1 by auto
  next
    case False
    then obtain h2 where "evolves (obj_guar F slot) hm h2" "evolves (obj_guar F slot) h2 h1"
        "obj_now h2 slot b cap (fs @ gs)"
      using g(2) by blast
    then show ?thesis using evolves_trans [OF v'(1)] obj_evolves v'(3) by blast
  qed
  moreover have "obj_inv F slot h1" "b \<in> published slot h1" using obj_evolves [OF ev1 v'(3)] b by auto
  ultimately have "obj_view F slot h0 b cap (fs @ gs) h1"
    using g(1) unfolding obj_view_def by (metis append_Nil2)
  moreover obtain data where "blocks h1 b = Some (counted (of_nat (length (fs @ gs))) cap data)"
      "length (fs @ gs) < 4294967296"
    using g(1) by (rule obj_snapE)
  ultimately show "\<exists>v. atomic_load_u32 h1 (Ptr b 0) Acquire = Inr v \<and> reads (obj_guar F slot) (f v) h1 Q"
    using k [of "fs @ gs" h1] atomic_load_u32_size by blast
qed

text \<open>The search: what it returns is right for the fields of one moment.\<close>

definition obj_found :: "nat set \<Rightarrow> ptr \<Rightarrow> heap \<Rightarrow> u64 \<Rightarrow> ptr \<Rightarrow> heap \<Rightarrow> bool" where
  "obj_found F slot h0 k e h \<longleftrightarrow> e = Null \<and> (\<exists>fs. field_pos k fs = None \<and> obj_seen F slot h0 fs h) \<or>
     (\<exists>b cap fs j. obj_view F slot h0 b cap fs h \<and> field_pos k fs = Some j \<and> e = Ptr b (8 + 24 * j))"

lemma find_reads:
  assumes inv: "obj_inv F slot h0"
  shows "reads (obj_guar F slot) (object_find_entry_by_hashR slot k) h0 (obj_found F slot h0 k)"
  unfolding object_find_entry_by_hashR_def
proof (rule slot_reads [OF inv], goal_cases)
  case (1 h)
  then have "obj_found F slot h0 k Null h'" if "evolves (obj_guar F slot) h h'" for h'
    using obj_seen_later [OF 1 that] unfolding obj_found_def by (metis field_pos.simps(1))
  then show ?case by simp
next
  case (2 h b cap fs)
  have "reads (obj_guar F slot) (bindR (atomic_load_u32R (Ptr b 0)) (\<lambda>count. if count = 0 then Return Null
      else find_entry_scanR (obj_buf_entries (Ptr b 0)) k 0 (unat count))) h (obj_found F slot h0 k)"
  proof (rule count_reads [OF 2], goal_cases)
    case (1 h1 fs1)
    have un: "unat (of_nat (length fs1) :: u32) = length fs1" using 1(2) by (simp add: unat_of_nat)
    show ?case
    proof (cases "fs1 = []")
      case True
      have "obj_found F slot h0 k Null h'" if "evolves (obj_guar F slot) h1 h'" for h'
        using obj_view_seen [OF obj_view_later [OF 1(1) that]] True unfolding obj_found_def
        by (metis field_pos.simps(1) map_is_Nil_conv)
      then show ?thesis using True by simp
    next
      case False
      then have nz: "of_nat (length fs1) \<noteq> (0 :: u32)" using un by (metis length_0_conv unat_0)
      have "reads (obj_guar F slot) (find_entry_scanR (Ptr b 8) k 0 (length fs1)) h1 (obj_found F slot h0 k)"
        by (rule reads_mono [OF scan_reads [OF 1, of 0 "length fs1" k]])
          (auto simp: obj_found_def split: option.splits elim: view_missing)
      then show ?thesis using nz un by (simp add: obj_buf_entries_def)
    qed
  qed
  then show ?case by simp
qed

section \<open>The getters\<close>

text \<open>The getters of values are one scheme, as the setters are.\<close>

definition get_schemeR :: "u16 \<Rightarrow> 'v \<Rightarrow> (ptr \<Rightarrow> 'v reader) \<Rightarrow> ptr \<Rightarrow> u64 \<Rightarrow> 'v reader" where
  "get_schemeR ty dflt rd slot k =
     bindR (object_find_entry_by_hashR slot k) (\<lambda>e.
     if e = Null then Return dflt
     else bindR (entry_type_idR e) (\<lambda>t.
          if t \<noteq> ty then Return dflt else bindR (entry_value_ptrR e) rd))"

lemma get_schemes:
  assumes "slot \<noteq> Null"
  shows "msm_object_get_int32R slot (Some nm) = get_schemeR type_int32 0 (\<lambda>p. load_wordR (padd p 4) 4) slot (field_key nm)"
    and "msm_object_get_int64R slot (Some nm) = get_schemeR type_int64 0 (\<lambda>p. load_wordR (padd p 8) 8) slot (field_key nm)"
    and "msm_object_get_float64R slot (Some nm) = get_schemeR type_float64 0 (\<lambda>p. load_wordR (padd p 8) 8) slot (field_key nm)"
    and "msm_object_get_boolR slot (Some nm) = get_schemeR type_bool 0 (\<lambda>p. load_wordR (padd p 4) 4) slot (field_key nm)"
    and "bindR (msm_object_get_stringR slot (Some nm)) read_cstrR =
      get_schemeR type_string [] read_stringR slot (field_key nm)"
  using assms
  by (simp_all add: msm_object_get_int32R_def msm_object_get_int64R_def msm_object_get_float64R_def
      msm_object_get_boolR_def msm_object_get_stringR_def get_schemeR_def object_find_entryR_def
      field_key_def bindR_assoc read_stringR_def [abs_def] if_distrib [where f = "\<lambda>m. bindR m _"] cong: if_cong)

definition seen_value :: "nat set \<Rightarrow> ptr \<Rightarrow> heap \<Rightarrow> u64 \<Rightarrow> (obj_value option \<Rightarrow> 'v) \<Rightarrow> 'v \<Rightarrow> heap \<Rightarrow> bool" where
  "seen_value F slot h0 k out v h \<longleftrightarrow> (\<exists>fs. obj_seen F slot h0 fs h \<and> v = out (fields_map fs k))"

lemma seen_value_later:
  "seen_value F slot h0 k out v h \<Longrightarrow> evolves (obj_guar F slot) h h' \<Longrightarrow> seen_value F slot h0 k out v h'"
  unfolding seen_value_def using obj_seen_later by blast

lemma get_scheme_reads:
  assumes inv: "obj_inv F slot h0"
    and rd: "\<And>h b cap fs j. obj_view F slot h0 b cap fs h \<Longrightarrow> field_pos k fs = Some j \<Longrightarrow>
      value_type (fval (fs ! j)) = ty \<Longrightarrow>
      reads (obj_guar F slot) (rd (Ptr (fblock (fs ! j)) 0)) h (seen_value F slot h0 k out)"
    and out: "out None = dflt" "\<And>u. value_type u \<noteq> ty \<Longrightarrow> out (Some u) = dflt"
  shows "reads (obj_guar F slot) (get_schemeR ty dflt rd slot k) h0 (seen_value F slot h0 k out)"
  unfolding get_schemeR_def
proof (rule reads_bindR, rule reads_mono [OF find_reads [OF inv]])
  fix e h assume f: "obj_found F slot h0 k e h"
  let ?Q = "seen_value F slot h0 k out"
  show "reads (obj_guar F slot) (if e = Null then Return dflt
      else bindR (entry_type_idR e) (\<lambda>t. if t \<noteq> ty then Return dflt else bindR (entry_value_ptrR e) rd)) h ?Q"
  proof (cases "e = Null")
    case True
    then obtain fs where "field_pos k fs = None" "obj_seen F slot h0 fs h" using f by (auto simp: obj_found_def)
    then have "?Q dflt h" using out(1) by (force simp: seen_value_def fields_map_pos)
    then show ?thesis using True seen_value_later by auto
  next
    case False
    then obtain b cap fs j where v: "obj_view F slot h0 b cap fs h" and j: "field_pos k fs = Some j"
      and e: "e = Ptr b (8 + 24 * j)"
      using f by (auto simp: obj_found_def)
    note jl = conjunct1 [OF field_pos_Some [OF j]]
    have "reads (obj_guar F slot) (bindR (entry_type_idR (Ptr b (8 + 24 * j))) (\<lambda>t. if t \<noteq> ty then Return dflt
        else bindR (entry_value_ptrR (Ptr b (8 + 24 * j))) rd)) h ?Q"
    proof (rule view_type_reads [OF v jl])
      fix h1 assume v1: "obj_view F slot h0 b cap fs h1"
      obtain gs where gs: "obj_seen F slot h0 gs h1" "outline (gs ! j) = fs ! j"
          "fields_map gs k = Some (fval (gs ! j))"
        using view_field [OF v1 j] .
      then have "value_type (fval (gs ! j)) = value_type (fval (fs ! j))" using outline_simps(5) by metis
      then have "?Q dflt h1" if "value_type (fval (fs ! j)) \<noteq> ty"
        using gs(1,3) out(2) [of "fval (gs ! j)"] that by (auto simp: seen_value_def)
      moreover have "reads (obj_guar F slot) (bindR (entry_value_ptrR (Ptr b (8 + 24 * j))) rd) h1 ?Q"
        if ty: "value_type (fval (fs ! j)) = ty"
        by (rule view_ptr_reads [OF v1 jl]) (rule rd [OF _ j ty])
      ultimately show "reads (obj_guar F slot) (if value_type (fval (fs ! j)) \<noteq> ty then Return dflt
          else bindR (entry_value_ptrR (Ptr b (8 + 24 * j))) rd) h1 ?Q"
        using seen_value_later by auto
    qed
    then show ?thesis by (simp add: e cong: if_cong)
  qed
qed

text \<open>The reads of the values themselves.\<close>

lemma value_word_reads:
  assumes "\<And>h'. evolves G h h' \<Longrightarrow> bindE (load_cells h' (Ptr vb k) n) decode_word = Inr x"
  shows "reads G (load_wordR (padd (Ptr vb 0) k) n) h (\<lambda>v h'. v = x)"
  using reads_word [of G h "Ptr vb k" n Return "\<lambda>v h'. v = x"] assms by simp

text \<open>A value that is no string was the value of the field when the reader saw the field.\<close>

lemma scalar_value_reads:
  assumes v: "obj_view F slot h0 b cap fs h" and j: "field_pos k fs = Some j"
    and ty: "value_type (fval (fs ! j)) = ty" "ty \<noteq> type_string"
    and rd: "\<And>h vb sb u. value_at h vb sb u \<Longrightarrow> value_type u = ty \<Longrightarrow>
      bindE (load_cells h (Ptr vb i) n) decode_word = Inr (out (Some u))"
  shows "reads (obj_guar F slot) (load_wordR (padd (Ptr (fblock (fs ! j)) 0) i) n) h (seen_value F slot h0 k out)"
proof -
  let ?G = "obj_guar F slot" and ?f = "fs ! j"
  have ns: "\<not> is_string ?f" using ty by (simp add: is_string_type)
  have "field_at h' ?f" if "evolves ?G h h'" for h'
    using obj_view_entry(4) [OF obj_view_later [OF v that], of j] field_pos_Some [OF j] ns
    by (simp add: outline_at_def)
  then have "reads ?G (load_wordR (padd (Ptr (fblock ?f) 0) i) n) h (\<lambda>v h'. v = out (Some (fval ?f)))"
    by (intro value_word_reads rd [OF _ ty(1)]) (simp add: field_at_def)
  from reads_since [OF this evolves_refl] show ?thesis
  proof (rule reads_mono)
    fix x h' assume x: "x = out (Some (fval ?f)) \<and> evolves ?G h h'"
    obtain gs where gs: "obj_seen F slot h0 gs h" "outline (gs ! j) = ?f" "fields_map gs k = Some (fval (gs ! j))"
      using view_field [OF v j] .
    then have "gs ! j = ?f" using ns by (metis outline_def outline_simps(3))
    then have "seen_value F slot h0 k out x h" using x gs(1,3) by (auto simp: seen_value_def)
    then show "seen_value F slot h0 k out x h'" by (rule seen_value_later [OF _ conjunct2 [OF x]])
  qed
qed

text \<open>The text of a string was the value of the field at a later moment, when the field was still
  there.\<close>

lemma string_value_reads:
  assumes v: "obj_view F slot h0 b cap fs h" and j: "field_pos k fs = Some j"
    and ty: "value_type (fval (fs ! j)) = type_string"
  shows "reads (obj_guar F slot) (read_stringR (Ptr (fblock (fs ! j)) 0)) h
    (seen_value F slot h0 k (\<lambda>u. case u of Some (VString s) \<Rightarrow> takeWhile (\<lambda>c. c \<noteq> 0) s | _ \<Rightarrow> []))"
proof -
  let ?G = "obj_guar F slot" and ?f = "fs ! j" and ?vb = "fblock (fs ! j)"
  let ?Q = "seen_value F slot h0 k (\<lambda>u. case u of Some (VString s) \<Rightarrow> takeWhile (\<lambda>c. c \<noteq> 0) s | _ \<Rightarrow> [])"
  note jl = field_pos_Some [OF j]
  have str: "is_string ?f" using ty by (simp add: is_string_type)
  obtain hm where hm: "evolves ?G h0 hm" "evolves ?G hm h" "obj_inv F slot hm" "obj_now hm slot b cap fs"
    using v by (auto simp: obj_view_def)
  then have now: "slot_holds hm slot (Ptr b 0)" "obj_snap hm slot b cap fs" by (simp_all add: obj_now_def)
  have f: "?f \<in> obj_fields slot hm"
    using obj_snap_fields [OF obj_current(1) [OF hm(3) now(1)] now(2)] jl by auto
  have cur: "current_string slot hm ?vb" using hm(4) jl str unfolding current_string_def by (metis nth_mem)
  have vb: "obj_inv F slot h' \<and> ?vb \<in> obj_strings slot h'" if "evolves ?G hm h'" for h'
    using obj_evolves [OF that hm(3)] obj_fields_later [OF that hm(3)] f str by (auto simp: obj_strings_def)
  have "reads ?G (read_stringR (Ptr ?vb 0)) h (text_seen ?G (Ptr ?vb 0) h)"
  proof (rule read_string_stable)
    show "\<exists>F. str_inv F (Ptr ?vb 0) h'" if "evolves ?G h h'" for h'
      using vb [OF evolves_trans [OF hm(2) that]] obj_inv_string(1) by blast
    show "blocks h2 c = blocks h1 c" if "evolves ?G h h1" "evolves ?G h1 h2" "c \<in> published (Ptr ?vb 0) h1" for h1 h2 c
      using vb [OF evolves_trans [OF hm(2) that(1)]] obj_string_later [OF that(2)] that(3) by blast
  qed
  then show ?thesis
  proof (rule reads_mono)
    fix x h' assume "text_seen ?G (Ptr ?vb 0) h x h'"
    then obtain h1 s where h1: "evolves ?G h h1" "evolves ?G h1 h'" "string_at h1 (Ptr ?vb 0) s"
        "x = takeWhile (\<lambda>c. c \<noteq> 0) s"
      by (auto simp: text_seen_def)
    obtain hk where hk: "evolves ?G hm hk" "evolves ?G hk h1" "obj_inv F slot hk" "current_string slot hk ?vb"
        "string_at hk (Ptr ?vb 0) s"
      using string_moment [OF evolves_trans [OF hm(2) h1(1)] hm(3) cur h1(3)] .
    obtain c cap' fs' g where g: "obj_now hk slot c cap' fs'" "g \<in> set fs'" "is_string g" "fblock g = ?vb"
      using hk(4) by (auto simp: current_string_def)
    then have now': "slot_holds hk slot (Ptr c 0)" "obj_snap hk slot c cap' fs'" by (simp_all add: obj_now_def)
    note p = obj_current(1) [OF hk(3) now'(1)]
    have "inj_on fblock (obj_fields slot hk)" using hk(3) by (simp add: obj_inv_def)
    moreover have "?f \<in> obj_fields slot hk" "g \<in> obj_fields slot hk"
      using obj_fields_later [OF hk(1) hm(3)] f obj_snap_fields [OF p now'(2)] g(2) by auto
    ultimately have gf: "g = ?f" using g(4) by (simp add: inj_on_def)
    obtain gs where gs: "map outline gs = fs'" "object_rep hk slot c cap' gs"
      using now_object_rep [OF hk(3) g(1) p] .
    obtain w where w: "w \<in> set gs" "outline w = ?f" using gs(1) g(2) gf by auto
    have "field_at hk w" "distinct (map fhash gs)" using gs(2) w(1) by (auto simp: object_rep_def)
    moreover have ws: "fblock w = ?vb" "fhash w = k" "is_string w"
      using w(2) str jl by (metis outline_simps(2), metis outline_simps(1), metis outline_simps(3))
    moreover obtain u where u: "fval w = VString u" using ws(3) by (auto simp: is_string_def)
    ultimately have "string_at hk (Ptr ?vb 0) u"
      by (auto simp: field_at_def string_at_def dest: value_cells_slot split: option.splits)
    then have "u = s" using string_at_unique [OF hk(5)] by simp
    moreover have "fields_map gs k = Some (fval w)"
      using \<open>distinct (map fhash gs)\<close> w(1) ws(2) by (auto simp: fields_map_def o_def intro!: map_of_is_SomeI)
    moreover have "obj_seen F slot h0 gs h'"
      using evolves_trans [OF hm(1) hk(1)] evolves_trans [OF hk(2) h1(2)] gs(2)
      unfolding obj_seen_def object_fs_def by blast
    ultimately show "?Q x h'" using h1(4) u by (auto simp: seen_value_def intro!: exI [of _ gs])
  qed
qed

section \<open>Queries\<close>

text \<open>What a reader can ask, the program it runs, and the answer for contents \<open>M\<close>.\<close>

datatype obj_query = AskInt32 "u8 list" | AskInt64 "u8 list" | AskFloat64 "u8 list" | AskBool "u8 list"
  | AskString "u8 list" | AskField "u8 list" | AskType "u8 list" | AskCount

datatype obj_answer = Word32 u32 | Word64 u64 | Text "u8 list" | Status int | Tag u16

fun query_reader :: "ptr \<Rightarrow> obj_query \<Rightarrow> obj_answer reader" where
  "query_reader slot (AskInt32 nm) = bindR (msm_object_get_int32R slot (Some nm)) (\<lambda>v. Return (Word32 v))"
| "query_reader slot (AskInt64 nm) = bindR (msm_object_get_int64R slot (Some nm)) (\<lambda>v. Return (Word64 v))"
| "query_reader slot (AskFloat64 nm) = bindR (msm_object_get_float64R slot (Some nm)) (\<lambda>v. Return (Word64 v))"
| "query_reader slot (AskBool nm) = bindR (msm_object_get_boolR slot (Some nm)) (\<lambda>v. Return (Word32 v))"
| "query_reader slot (AskString nm) =
     bindR (bindR (msm_object_get_stringR slot (Some nm)) read_cstrR) (\<lambda>s. Return (Text s))"
| "query_reader slot (AskField nm) = bindR (msm_object_has_fieldR slot (Some nm)) (\<lambda>v. Return (Status v))"
| "query_reader slot (AskType nm) = bindR (msm_object_get_typeR slot (Some nm)) (\<lambda>v. Return (Tag v))"
| "query_reader slot AskCount = bindR (msm_object_field_countR slot) (\<lambda>v. Return (Word32 v))"

fun int32_out :: "obj_value option \<Rightarrow> u32" where
  "int32_out (Some (VInt32 x)) = x" | "int32_out _ = 0"

fun int64_out :: "obj_value option \<Rightarrow> u64" where
  "int64_out (Some (VInt64 x)) = x" | "int64_out _ = 0"

fun float64_out :: "obj_value option \<Rightarrow> u64" where
  "float64_out (Some (VFloat64 x)) = x" | "float64_out _ = 0"

fun bool_out :: "obj_value option \<Rightarrow> u32" where
  "bool_out (Some (VBool x)) = (if x then 1 else 0)" | "bool_out _ = 0"

fun string_out :: "obj_value option \<Rightarrow> u8 list" where
  "string_out (Some (VString s)) = takeWhile (\<lambda>c. c \<noteq> 0) s" | "string_out _ = []"

fun type_out :: "obj_value option \<Rightarrow> u16" where
  "type_out (Some v) = value_type v" | "type_out None = 0"

fun answer :: "obj_query \<Rightarrow> (u64 \<rightharpoonup> obj_value) \<Rightarrow> obj_answer" where
  "answer (AskInt32 nm) M = Word32 (int32_out (M (field_key nm)))"
| "answer (AskInt64 nm) M = Word64 (int64_out (M (field_key nm)))"
| "answer (AskFloat64 nm) M = Word64 (float64_out (M (field_key nm)))"
| "answer (AskBool nm) M = Word32 (bool_out (M (field_key nm)))"
| "answer (AskString nm) M = Text (string_out (M (field_key nm)))"
| "answer (AskField nm) M = Status (if field_key nm \<in> dom M then 1 else 0)"
| "answer (AskType nm) M = Tag (type_out (M (field_key nm)))"
| "answer AskCount M = Word32 (of_nat (card (dom M)))"

definition obj_answered :: "nat set \<Rightarrow> ptr \<Rightarrow> heap \<Rightarrow> obj_query \<Rightarrow> obj_answer \<Rightarrow> heap \<Rightarrow> bool" where
  "obj_answered F slot h0 q a h \<longleftrightarrow> (\<exists>fs. obj_seen F slot h0 fs h \<and> a = answer q (fields_map fs))"

lemma obj_answered_later:
  "obj_answered F slot h0 q a h \<Longrightarrow> evolves (obj_guar F slot) h h' \<Longrightarrow> obj_answered F slot h0 q a h'"
  unfolding obj_answered_def using obj_seen_later by blast

lemma answered_value:
  assumes "reads (obj_guar F slot) r h0 (seen_value F slot h0 k out)" and "\<And>M. answer q M = C (out (M k))"
  shows "reads (obj_guar F slot) (bindR r (\<lambda>v. Return (C v))) h0 (obj_answered F slot h0 q)"
proof (rule reads_bindR, rule reads_mono [OF assms(1)])
  fix v h assume "seen_value F slot h0 k out v h"
  then have "obj_answered F slot h0 q (C v) h" using assms(2) by (auto simp: seen_value_def obj_answered_def)
  then show "reads (obj_guar F slot) (Return (C v)) h (obj_answered F slot h0 q)"
    using obj_answered_later by simp
qed

lemma scalar_query_reads:
  fixes out :: "obj_value option \<Rightarrow> 'w::len word"
  assumes inv: "obj_inv F slot h0" and q: "\<And>M. answer q M = C (out (M k))"
    and rd: "\<And>h vb sb u. value_at h vb sb u \<Longrightarrow> value_type u = ty \<Longrightarrow>
      bindE (load_cells h (Ptr vb i) n) decode_word = Inr (out (Some u))"
    and out: "out None = 0" "\<And>u. value_type u \<noteq> ty \<Longrightarrow> out (Some u) = 0" and "ty \<noteq> type_string"
  shows "reads (obj_guar F slot) (bindR (get_schemeR ty 0 (\<lambda>p. load_wordR (padd p i) n) slot k) (\<lambda>v. Return (C v)))
    h0 (obj_answered F slot h0 q)"
proof (rule answered_value [where q = q and out = out, OF _ q], rule get_scheme_reads [OF inv _ out])
  fix h b cap fs j
  assume "obj_view F slot h0 b cap fs h" "field_pos k fs = Some j" "value_type (fval (fs ! j)) = ty"
  then show "reads (obj_guar F slot) (load_wordR (padd (Ptr (fblock (fs ! j)) 0) i) n) h (seen_value F slot h0 k out)"
    using assms(6) rd by (rule scalar_value_reads)
qed

lemma value_queries:
  assumes inv: "obj_inv F slot h0"
  shows "reads (obj_guar F slot) (query_reader slot (AskInt32 nm)) h0 (obj_answered F slot h0 (AskInt32 nm))"
    and "reads (obj_guar F slot) (query_reader slot (AskInt64 nm)) h0 (obj_answered F slot h0 (AskInt64 nm))"
    and "reads (obj_guar F slot) (query_reader slot (AskFloat64 nm)) h0 (obj_answered F slot h0 (AskFloat64 nm))"
    and "reads (obj_guar F slot) (query_reader slot (AskBool nm)) h0 (obj_answered F slot h0 (AskBool nm))"
    and "reads (obj_guar F slot) (query_reader slot (AskString nm)) h0 (obj_answered F slot h0 (AskString nm))"
proof -
  note g = get_schemes [OF obj_inv_facts(2) [OF inv]]
  have out: "value_type u \<noteq> type_int32 \<Longrightarrow> int32_out (Some u) = 0" "value_type u \<noteq> type_int64 \<Longrightarrow> int64_out (Some u) = 0"
    "value_type u \<noteq> type_float64 \<Longrightarrow> float64_out (Some u) = 0" "value_type u \<noteq> type_bool \<Longrightarrow> bool_out (Some u) = 0"
    "value_type u \<noteq> type_string \<Longrightarrow> string_out (Some u) = []" for u
    by (cases u; simp)+
  have w4: "bindE (load_cells h (Ptr vb 4) 4) decode_word = Inr x" if "value_cells h vb 8 4 (word_cells 4 x)"
    for h vb and x :: u32
    using load_value(1) [OF that] by (simp add: load_u32_def)
  have w8: "bindE (load_cells h (Ptr vb 8) 8) decode_word = Inr x" if "value_cells h vb 16 8 (word_cells 8 x)"
    for h vb and x :: u64
    using load_value(2) [OF that] by (simp add: load_u64_def)
  have ne: "type_int32 \<noteq> type_string" "type_int64 \<noteq> type_string" "type_float64 \<noteq> type_string"
    "type_bool \<noteq> type_string"
    by (simp_all add: type_ids)
  note scalar = scalar_query_reads [OF inv]
  show "reads (obj_guar F slot) (query_reader slot (AskInt32 nm)) h0 (obj_answered F slot h0 (AskInt32 nm))"
    unfolding query_reader.simps g
    by (rule scalar [where out = int32_out, OF _ _ _ _ ne(1)]) (auto dest!: value_type_inverts intro: w4 out(1))
  show "reads (obj_guar F slot) (query_reader slot (AskInt64 nm)) h0 (obj_answered F slot h0 (AskInt64 nm))"
    unfolding query_reader.simps g
    by (rule scalar [where out = int64_out, OF _ _ _ _ ne(2)]) (auto dest!: value_type_inverts intro: w8 out(2))
  show "reads (obj_guar F slot) (query_reader slot (AskFloat64 nm)) h0 (obj_answered F slot h0 (AskFloat64 nm))"
    unfolding query_reader.simps g
    by (rule scalar [where out = float64_out, OF _ _ _ _ ne(3)]) (auto dest!: value_type_inverts intro: w8 out(3))
  show "reads (obj_guar F slot) (query_reader slot (AskBool nm)) h0 (obj_answered F slot h0 (AskBool nm))"
    unfolding query_reader.simps g
    by (rule scalar [where out = bool_out, OF _ _ _ _ ne(4)]) (auto dest!: value_type_inverts intro: w4 out(4))
  show "reads (obj_guar F slot) (query_reader slot (AskString nm)) h0 (obj_answered F slot h0 (AskString nm))"
    unfolding query_reader.simps g
  proof (rule answered_value [where out = string_out], rule get_scheme_reads [OF inv])
    have "string_out = (\<lambda>u. case u of Some (VString s) \<Rightarrow> takeWhile (\<lambda>c. c \<noteq> 0) s | _ \<Rightarrow> [])"
      by (intro ext) (simp split: option.split obj_value.split)
    then show "reads (obj_guar F slot) (read_stringR (Ptr (fblock (fs ! j)) 0)) h
        (seen_value F slot h0 (field_key nm) string_out)"
      if "obj_view F slot h0 b cap fs h" "field_pos (field_key nm) fs = Some j"
        "value_type (fval (fs ! j)) = type_string" for h b cap fs j
      using string_value_reads [OF that] by simp
  qed (use out in simp_all)
qed

lemma card_dom_seen:
  assumes "obj_seen F slot h0 fs h"
  shows "card (dom (fields_map fs)) = length fs"
proof -
  have "distinct (map fhash fs)"
    using assms by (auto simp: obj_seen_def object_fs_def object_rep_def)
  from distinct_card [OF this] show ?thesis by (simp add: dom_fields_map)
qed

lemma answered_return:
  "obj_answered F slot h0 q a h \<Longrightarrow> reads (obj_guar F slot) (Return a) h (obj_answered F slot h0 q)"
  using obj_answered_later by simp

lemma found_answered:
  assumes "obj_found F slot h0 (field_key nm) e h"
  shows "obj_answered F slot h0 (AskField nm) (Status (if e \<noteq> Null then 1 else 0)) h"
  using assms unfolding obj_found_def
proof
  assume "e = Null \<and> (\<exists>fs. field_pos (field_key nm) fs = None \<and> obj_seen F slot h0 fs h)"
  then show ?thesis by (auto simp: obj_answered_def dom_fields_map field_pos_None)
next
  assume "\<exists>b cap fs j. obj_view F slot h0 b cap fs h \<and> field_pos (field_key nm) fs = Some j \<and>
    e = Ptr b (8 + 24 * j)"
  then obtain b cap fs j where v: "obj_view F slot h0 b cap fs h" "field_pos (field_key nm) fs = Some j"
    and e: "e = Ptr b (8 + 24 * j)"
    by blast
  obtain gs where "obj_seen F slot h0 gs h" "fields_map gs (field_key nm) = Some (fval (gs ! j))"
    using view_field [OF v] .
  then show ?thesis using e by (auto simp: obj_answered_def domIff intro!: exI [of _ gs])
qed

lemma has_field_query:
  assumes inv: "obj_inv F slot h0"
  shows "reads (obj_guar F slot) (query_reader slot (AskField nm)) h0 (obj_answered F slot h0 (AskField nm))"
proof -
  have "query_reader slot (AskField nm) = bindR (object_find_entry_by_hashR slot (field_key nm))
      (\<lambda>e. Return (Status (if e \<noteq> Null then 1 else 0)))"
    using obj_inv_facts(2) [OF inv]
    by (simp add: msm_object_has_fieldR_def object_find_entryR_def field_key_def bindR_assoc)
  then show ?thesis
    using answered_return [OF found_answered] by (auto intro!: reads_bindR intro: reads_mono [OF find_reads [OF inv]])
qed

lemma view_type_answered:
  assumes "obj_view F slot h0 b cap fs h" and "field_pos (field_key nm) fs = Some j"
  shows "obj_answered F slot h0 (AskType nm) (Tag (value_type (fval (fs ! j)))) h"
proof -
  obtain gs where gs: "obj_seen F slot h0 gs h" "outline (gs ! j) = fs ! j"
      "fields_map gs (field_key nm) = Some (fval (gs ! j))"
    using view_field [OF assms] .
  then have "value_type (fval (gs ! j)) = value_type (fval (fs ! j))" using outline_simps(5) by metis
  then show ?thesis using gs(1,3) by (auto simp: obj_answered_def intro!: exI [of _ gs])
qed

lemma type_query:
  assumes inv: "obj_inv F slot h0"
  shows "reads (obj_guar F slot) (query_reader slot (AskType nm)) h0 (obj_answered F slot h0 (AskType nm))"
proof -
  let ?G = "obj_guar F slot" and ?k = "field_key nm" and ?A = "obj_answered F slot h0 (AskType nm)"
  have ty: "query_reader slot (AskType nm) = bindR (object_find_entry_by_hashR slot ?k) (\<lambda>e.
      if e = Null then Return (Tag 0) else bindR (entry_type_idR e) (\<lambda>t. Return (Tag t)))"
    using obj_inv_facts(2) [OF inv]
    by (simp add: msm_object_get_typeR_def object_find_entryR_def field_key_def bindR_assoc
        if_distrib [where f = "\<lambda>m. bindR m _"] cong: if_cong)
  show ?thesis
    unfolding ty
  proof (rule reads_bindR, rule reads_mono [OF find_reads [OF inv]])
    fix e h assume "obj_found F slot h0 ?k e h"
    then consider fs where "e = Null" "field_pos ?k fs = None" "obj_seen F slot h0 fs h"
      | b cap fs j where "obj_view F slot h0 b cap fs h" "field_pos ?k fs = Some j" "e = Ptr b (8 + 24 * j)"
      by (auto simp: obj_found_def)
    then show "reads ?G (if e = Null then Return (Tag 0) else bindR (entry_type_idR e) (\<lambda>t. Return (Tag t))) h ?A"
    proof cases
      case (1 fs)
      then have "?A (Tag 0) h" by (auto simp: obj_answered_def fields_map_pos intro!: exI [of _ fs])
      then show ?thesis using answered_return 1(1) by simp
    next
      case (2 b cap fs j)
      have j: "j < length fs" using field_pos_Some [OF 2(2)] by simp
      have "reads ?G (bindR (entry_type_idR (Ptr b (8 + 24 * j))) (\<lambda>t. Return (Tag t))) h ?A"
        by (rule view_type_reads [OF 2(1) j]) (rule answered_return [OF view_type_answered [OF _ 2(2)]])
      then show ?thesis using 2(3) by simp
    qed
  qed
qed

lemma count_query:
  assumes inv: "obj_inv F slot h0"
  shows "reads (obj_guar F slot) (query_reader slot AskCount) h0 (obj_answered F slot h0 AskCount)"
proof -
  let ?G = "obj_guar F slot" and ?A = "obj_answered F slot h0 AskCount"
  have cnt: "query_reader slot AskCount = bindR (atomic_load_ptrR (padd slot 8)) (\<lambda>buf.
      if buf = Null then Return (Word32 0) else bindR (atomic_load_u32R buf) (\<lambda>v. Return (Word32 v)))"
    using obj_inv_facts(2) [OF inv] by (simp add: msm_object_field_countR_def bindR_assoc
        if_distrib [where f = "\<lambda>m. bindR m _"] cong: if_cong)
  have counted: "?A (Word32 (of_nat (length fs))) h" if "obj_seen F slot h0 fs h" for fs h
    using that card_dom_seen [OF that] by (auto simp: obj_answered_def)
  have viewed: "?A (Word32 (of_nat (length fs))) h" if v: "obj_view F slot h0 b cap fs h" for b cap fs h
  proof -
    obtain gs where "map outline gs = fs" "obj_seen F slot h0 gs h" using obj_view_seen [OF v] .
    then show ?thesis using counted [of gs h] by auto
  qed
  show ?thesis
    unfolding cnt
  proof (rule slot_reads [OF inv], goal_cases)
    case (1 h)
    then show ?case using answered_return [OF counted [OF 1]] by simp
  next
    case (2 h b cap fs)
    have "reads ?G (bindR (atomic_load_u32R (Ptr b 0)) (\<lambda>v. Return (Word32 v))) h ?A"
      by (rule count_reads [OF 2]) (rule answered_return [OF viewed])
    then show ?case by simp
  qed
qed

lemma query_reads:
  "obj_inv F slot h0 \<Longrightarrow> reads (obj_guar F slot) (query_reader slot q) h0 (obj_answered F slot h0 q)"
  by (cases q; simp only: value_queries has_field_query type_query count_query)

end
