(* ===== verification/Msm_Array_Swmr.thy ===== *)
theory Msm_Array_Swmr
  imports Msm_Array Msm_Swmr
begin

text \<open>
  Arrays under one writer and concurrent readers. The writer reserves and pushes by the two-step
  protocol; a reader runs \<open>msm_array_size\<close> or \<open>msm_array_get\<close> and reads the element it is
  given. What is shared: the slot's pointer, the size field of every buffer that was ever published
  in the slot, and the elements below that size.
\<close>

section \<open>The programs\<close>

text \<open>A push by the protocol of \<^verbatim>\<open>msm_allocator.h\<close>: prepare, fill, commit.\<close>

definition push_element :: "ptr \<Rightarrow> u32 \<Rightarrow> cell list \<Rightarrow> heap \<Rightarrow> heap res" where
  "push_element slot isz xs h =
     bindE (msm_array_prepare_push h slot isz) (\<lambda>(p, h1).
     bindE (store_cells Plain h1 p xs) (\<lambda>h2. msm_array_commit_push h2 slot))"

definition array_writer :: "ptr \<Rightarrow> u32 \<Rightarrow> (heap \<Rightarrow> heap res) set" where
  "array_writer slot isz =
     range (\<lambda>c h. msm_array_reserve h slot c isz) \<union> push_element slot isz ` {xs. length xs = unat isz}"

definition msm_array_sizeR :: "ptr \<Rightarrow> u32 reader" where
  "msm_array_sizeR slot =
     (if slot = Null then Return 0
      else bindR (atomic_load_ptrR (padd slot 8)) (\<lambda>buf.
        if buf = Null then Return 0 else atomic_load_u32R buf))"

definition msm_array_getR :: "ptr \<Rightarrow> u32 \<Rightarrow> u32 \<Rightarrow> ptr reader" where
  "msm_array_getR slot i isz =
     (if slot = Null \<or> isz = 0 then Return Null
      else bindR (atomic_load_ptrR (padd slot 8)) (\<lambda>buf.
        if buf = Null then Return Null
        else bindR (atomic_load_u32R buf) (\<lambda>sz.
          if sz \<le> i then Return Null
          else Return (padd (arr_buf_data buf) (unat (size_mul i isz))))))"

text \<open>A reader of an element: get its address, then read its bytes.\<close>

definition read_elementR :: "ptr \<Rightarrow> u32 \<Rightarrow> u32 \<Rightarrow> cell list option reader" where
  "read_elementR slot i isz =
     bindR (msm_array_getR slot i isz) (\<lambda>p.
       if p = Null then Return None else bindR (readR p (unat isz)) (\<lambda>xs. Return (Some xs)))"

lemma run_msm_array_sizeR: "run_reader h (msm_array_sizeR slot) = msm_array_size h slot"
  by (simp add: msm_array_sizeR_def msm_array_size_def arr_buf_size_def cong: if_cong)

lemma run_msm_array_getR: "run_reader h (msm_array_getR slot i isz) = msm_array_get h slot i isz"
  by (simp add: msm_array_getR_def msm_array_get_def arr_buf_size_def cong: if_cong)

section \<open>The shared state\<close>

definition arr_buffer :: "ptr \<Rightarrow> u32 \<Rightarrow> heap \<Rightarrow> cell list list \<Rightarrow> nat \<Rightarrow> bool" where
  "arr_buffer slot isz h es b \<longleftrightarrow> b \<noteq> blk slot \<and>
     (\<exists>n cap data. blocks h b = Some (counted n cap data) \<and> n \<le> cap \<and>
        length data = unat cap * unat isz \<and> unat n \<le> length es \<and>
        elements (unat isz) (unat n) data = take (unat n) es)"

text \<open>\<open>F\<close> are blocks of others, live ones, that the writer of this array keeps off.\<close>

definition arr_inv :: "nat set \<Rightarrow> ptr \<Rightarrow> u32 \<Rightarrow> heap \<Rightarrow> bool" where
  "arr_inv F slot isz h \<longleftrightarrow> heap_wf h \<and> isz \<noteq> 0 \<and>
     F \<inter> published slot h = {} \<and> F \<subseteq> {..<next_block h} \<and>
     (\<exists>cap es. array_at h slot isz cap es \<and>
        (\<forall>b. slot_holds h slot (Ptr b 0) \<longrightarrow> b \<in> published slot h) \<and>
        (\<forall>b \<in> published slot h. arr_buffer slot isz h es b))"

text \<open>What a reader can rely on: the contents only grow at the end, and so does the size field of
  every published buffer.\<close>

definition arr_grows :: "ptr \<Rightarrow> u32 \<Rightarrow> heap \<Rightarrow> heap \<Rightarrow> bool" where
  "arr_grows slot isz h h' \<longleftrightarrow>
     (\<forall>cap es cap' es'. array_at h slot isz cap es \<longrightarrow> array_at h' slot isz cap' es' \<longrightarrow>
        take (length es) es' = es) \<and>
     (\<forall>b \<in> published slot h. \<forall>n cap data. blocks h b = Some (counted n cap data) \<longrightarrow>
        (\<exists>n' cap' data'. blocks h' b = Some (counted n' cap' data') \<and> n \<le> n'))"

definition arr_plain :: "ptr \<Rightarrow> u32 \<Rightarrow> heap \<Rightarrow> nat \<Rightarrow> nat \<Rightarrow> bool" where
  "arr_plain slot isz h b j \<longleftrightarrow> b \<in> published slot h \<and>
     (\<exists>n cap data. blocks h b = Some (counted n cap data) \<and> 8 \<le> j \<and> j < 8 + unat n * unat isz)"

definition arr_sync :: "ptr \<Rightarrow> heap \<Rightarrow> (nat \<times> nat \<times> nat) set" where
  "arr_sync slot h = {(blk slot, off slot + 8, 8)} \<union> {(b, 0, 4) | b. b \<in> published slot h}"

definition arr_guar :: "nat set \<Rightarrow> ptr \<Rightarrow> u32 \<Rightarrow> heap \<Rightarrow> event \<Rightarrow> bool" where
  "arr_guar F slot isz h e \<longleftrightarrow> arr_inv F slot isz (apply_event e h) \<and>
     arr_grows slot isz h (apply_event e h) \<and> published slot h \<subseteq> published slot (apply_event e h) \<and>
     race_free (arr_plain slot isz h) (arr_sync slot h) e \<and> avoids F slot e"

lemma array_at_unique:
  assumes "array_at h slot isz cap es" and "array_at h slot isz cap' es'"
  shows "cap = cap'" and "es = es'"
  using assms by (auto simp: array_at_def array_rep_def dest: slot_holds_unique)

lemma array_at_slot: "array_at h slot isz cap es \<Longrightarrow> \<exists>q. slot_holds h slot q \<and> (q = Null \<or> (\<exists>b. q = Ptr b 0))"
  by (auto simp: array_at_def array_rep_def)

lemma arr_invE:
  assumes "arr_inv F slot isz h"
  obtains cap es where "heap_wf h" and "isz \<noteq> 0" and "array_at h slot isz cap es"
    and "\<And>b. slot_holds h slot (Ptr b 0) \<Longrightarrow> b \<in> published slot h"
    and "\<And>b. b \<in> published slot h \<Longrightarrow> arr_buffer slot isz h es b"
    and "slot \<noteq> Null" and "blocks h (blk slot) \<noteq> None" and "blk slot \<notin> published slot h"
    and "next_block h \<notin> published slot h" and "next_block h \<noteq> blk slot" and "next_block h \<notin> F"
proof -
  obtain cap es where *: "heap_wf h" "isz \<noteq> 0" "array_at h slot isz cap es"
    "\<And>b. slot_holds h slot (Ptr b 0) \<Longrightarrow> b \<in> published slot h"
    "\<And>b. b \<in> published slot h \<Longrightarrow> arr_buffer slot isz h es b"
    using assms by (auto simp: arr_inv_def)
  obtain q where q: "slot_holds h slot q" using array_at_slot [OF *(3)] by blast
  have "next_block h \<notin> published slot h"
    using *(1,5) by (fastforce simp: arr_buffer_def dest: heap_wf_live)
  moreover have "blk slot \<notin> published slot h" using *(5) by (auto simp: arr_buffer_def)
  moreover have "next_block h \<notin> F" using assms by (auto simp: arr_inv_def)
  ultimately show ?thesis
    using that * q slot_holds_live [OF q] slot_holds_fresh [OF *(1) q] by (metis slot_holds_not_Null)
qed

lemma arr_grows_refl: "arr_inv F slot isz h \<Longrightarrow> arr_grows slot isz h h"
  using array_at_unique by (fastforce simp: arr_grows_def)

lemma arr_grows_trans:
  assumes "arr_grows slot isz h h1" and "arr_grows slot isz h1 h2" and "arr_inv F slot isz h1"
    and "published slot h \<subseteq> published slot h1"
  shows "arr_grows slot isz h h2"
proof -
  obtain cap1 es1 where 1: "array_at h1 slot isz cap1 es1" using assms(3) by (auto simp: arr_inv_def)
  have "take (length es) es2 = es"
    if a: "array_at h slot isz cap es" "array_at h2 slot isz cap2 es2" for cap es cap2 es2
  proof -
    have "take (length es) es1 = es" "take (length es1) es2 = es1"
      using assms(1,2) 1 a unfolding arr_grows_def by blast+
    then have "take (length es) (take (length es1) es2) = es" by simp
    moreover have "length es \<le> length es1"
      using \<open>take (length es) es1 = es\<close> by (metis length_take min.cobounded1)
    ultimately show ?thesis by (simp add: min_absorb1)
  qed
  moreover have "\<exists>n2 cap2 data2. blocks h2 b = Some (counted n2 cap2 data2) \<and> n \<le> n2"
    if pb: "b \<in> published slot h" "blocks h b = Some (counted n cap data)" for b n cap data
  proof -
    obtain n1 cap1 data1 where "blocks h1 b = Some (counted n1 cap1 data1)" "n \<le> n1"
      using assms(1) pb unfolding arr_grows_def by blast
    moreover have "b \<in> published slot h1" using pb(1) assms(4) by blast
    ultimately show ?thesis using assms(2) unfolding arr_grows_def by (meson order_trans)
  qed
  ultimately show ?thesis by (auto simp: arr_grows_def)
qed

lemma arr_evolves:
  assumes "evolves (arr_guar F slot isz) h h'" and "arr_inv F slot isz h"
  shows "arr_inv F slot isz h' \<and> arr_grows slot isz h h' \<and> published slot h \<subseteq> published slot h'"
  using assms
proof (induction rule: evolves.induct)
  case (evolves_refl h)
  then show ?case by (simp add: arr_grows_refl)
next
  case (evolves_step h e h')
  then show ?case
    using arr_grows_trans [of slot isz h "apply_event e h" h'] by (auto simp: arr_guar_def)
qed

section \<open>The writes that keep the contract\<close>

lemma array_at_cong:
  assumes s: "\<And>q. slot_holds h' slot q = slot_holds h slot q"
    and "\<And>b. slot_holds h slot (Ptr b 0) \<Longrightarrow> blocks h' b = blocks h b"
  shows "array_at h' slot isz cap es = array_at h slot isz cap es"
proof -
  have "array_rep h' slot isz b n c d = array_rep h slot isz b n c d" for b n c d
    using assms(2) [of b] by (auto simp: array_rep_def s)
  then show ?thesis by (simp add: array_at_def s)
qed

text \<open>A write that leaves the slot and the published buffers alone.\<close>

lemma arr_inv_elsewhere:
  assumes inv: "arr_inv F slot isz h" and wf: "heap_wf h'" and nx: "next_block h \<le> next_block h'"
    and pub: "published slot h' = published slot h"
    and s: "\<And>q. slot_holds h' slot q = slot_holds h slot q"
    and same: "\<And>c. c \<in> published slot h \<Longrightarrow> blocks h' c = blocks h c"
  shows "arr_inv F slot isz h' \<and> arr_grows slot isz h h'"
proof -
  obtain cap es where h: "isz \<noteq> 0" "array_at h slot isz cap es"
      "\<And>b. slot_holds h slot (Ptr b 0) \<Longrightarrow> b \<in> published slot h"
      "\<And>b. b \<in> published slot h \<Longrightarrow> arr_buffer slot isz h es b"
    using inv by (auto simp: arr_inv_def)
  have at: "array_at h' slot isz c xs = array_at h slot isz c xs" for c xs
    using s same h(3) by (intro array_at_cong) auto
  have "arr_buffer slot isz h' es b" if "b \<in> published slot h" for b
    using h(4) [OF that] same that by (auto simp: arr_buffer_def)
  moreover have "F \<inter> published slot h = {} \<and> F \<subseteq> {..<next_block h'}" using inv nx by (auto simp: arr_inv_def)
  ultimately have "arr_inv F slot isz h'" using h wf pub by (auto simp: arr_inv_def at s)
  moreover have "arr_grows slot isz h h'"
    using arr_grows_refl [OF inv] same by (simp add: arr_grows_def at)
  ultimately show ?thesis by blast
qed

lemma arr_guar_fresh:
  assumes "arr_inv F slot isz h" and "nb \<notin> published slot h" and "nb \<noteq> blk slot"
    and "event_ok h e" and "fresh_event nb e" and "nb \<notin> F"
  shows "arr_guar F slot isz h e \<and> arr_inv F slot isz (apply_event e h) \<and>
    nb \<notin> published slot (apply_event e h)"
proof -
  let ?h' = "apply_event e h"
  have pub: "published slot ?h' = published slot h"
    using assms(3-5) published_fresh by blast
  have "blocks ?h' c = blocks h c" if "c \<noteq> nb" for c
    using assms(4,5) that by (cases e) (auto simp: blocks_put)
  then have "blocks ?h' c = blocks h c" if "c \<in> published slot h \<or> c = blk slot" for c
    using assms(2,3) that by metis
  moreover from this have "slot_holds ?h' slot q = slot_holds h slot q" for q
    by (intro slot_holds_cong) simp
  ultimately have inv: "arr_inv F slot isz ?h' \<and> arr_grows slot isz h ?h'"
    using assms(1) pub next_block_event by (intro arr_inv_elsewhere) (auto simp: arr_inv_def)
  have "touches e b j \<Longrightarrow> b = nb" for b j using assms(5) by (cases e) auto
  then have "race_free (arr_plain slot isz h) (arr_sync slot h) e"
    using assms(2,3) by (intro race_freeI) (auto simp: arr_plain_def arr_sync_def)
  with inv pub assms(2) avoids_fresh [OF assms(5,6)] show ?thesis by (simp add: arr_guar_def)
qed

lemma arr_evolves_fresh:
  assumes "builds_at nb h h'" and "arr_inv F slot isz h" and "nb \<notin> published slot h" and "nb \<noteq> blk slot"
    and "nb \<notin> F"
  shows "evolves (arr_guar F slot isz) h h' \<and> arr_inv F slot isz h' \<and> nb \<notin> published slot h'"
proof -
  let ?I = "\<lambda>h. arr_inv F slot isz h \<and> nb \<notin> published slot h"
  have "evolves (arr_guar F slot isz) h h' \<and> ?I h'"
    using assms(1)
  proof (rule evolves_weaken [where I = ?I])
    show "?I h" using assms(2,3) by simp
  qed (use arr_guar_fresh assms(4,5) in blast)
  then show ?thesis by simp
qed

text \<open>The release store that publishes a new buffer with the same contents.\<close>

lemma arr_guar_publish:
  assumes inv: "arr_inv F slot isz h" and at: "array_at h slot isz cap es"
    and nb: "nb \<notin> published slot h" "nb \<noteq> blk slot" "nb \<notin> F"
    and e: "e = Write (Atomic Release) (blk slot) (off slot + 8) (ptr_cells (Ptr nb 0))"
    and new: "array_at (apply_event e h) slot isz cap' es"
  shows "arr_guar F slot isz h e"
proof -
  let ?h' = "apply_event e h"
  obtain q where q: "slot_holds h slot q" using array_at_slot [OF at] by blast
  have slot': "slot_holds ?h' slot (Ptr nb 0)"
    using slot_holds_publish [OF q] by (simp add: e)
  then obtain n data where rep': "array_rep ?h' slot isz nb n cap' data"
      and es: "es = elements (unat isz) (unat n) data"
    using new by (auto simp: array_at_def array_rep_def dest: slot_holds_unique)
  have pub: "published slot ?h' = insert nb (published slot h)"
    by (subst published_apply_event) (auto simp: e)
  have same: "blocks ?h' c = blocks h c" if "c \<noteq> blk slot" for c
    using that by (simp add: e blocks_put)
  have inv_es: "arr_buffer slot isz h es b" if "b \<in> published slot h" for b
    using inv that array_at_unique(2) [OF at] by (auto simp: arr_inv_def)
  have "arr_buffer slot isz ?h' es nb"
    using rep' es nb(2) by (auto simp: arr_buffer_def array_rep_def)
  moreover have "arr_buffer slot isz ?h' es b" if "b \<in> published slot h" for b
    using inv_es [OF that] same [of b] by (auto simp: arr_buffer_def)
  ultimately have inv': "arr_inv F slot isz ?h'"
    using inv new slot' pub nb(3) by (auto simp: arr_inv_def e dest: slot_holds_unique)
  have "arr_grows slot isz h ?h'"
    unfolding arr_grows_def
  proof (intro conjI allI impI ballI)
    fix c1 es1 c2 es2
    assume "array_at h slot isz c1 es1" "array_at ?h' slot isz c2 es2"
    then show "take (length es1) es2 = es1"
      using array_at_unique(2) [OF at] array_at_unique(2) [OF new] by auto
  next
    fix b n1 cap1 data1
    assume "b \<in> published slot h" "blocks h b = Some (counted n1 cap1 data1)"
    then show "\<exists>n' cap' data'. blocks ?h' b = Some (counted n' cap' data') \<and> n1 \<le> n'"
      using inv_es same by (auto simp: arr_buffer_def)
  qed
  moreover have "race_free (arr_plain slot isz h) (arr_sync slot h) e"
    using inv_es by (intro race_freeI) (auto simp: e arr_plain_def arr_sync_def arr_buffer_def)
  moreover have "avoids F slot e" by (simp add: e avoids_slot)
  ultimately show ?thesis using inv' pub by (auto simp: arr_guar_def)
qed

text \<open>A write to the current buffer behind its last element.\<close>

lemma arr_guar_spare:
  assumes inv: "arr_inv F slot isz h" and rep: "array_rep h slot isz b n cap data"
    and k: "unat n * unat isz \<le> k" "k + length xs \<le> length data"
    and e: "e = Write a b (8 + k) xs"
  shows "arr_guar F slot isz h e \<and> array_rep (apply_event e h) slot isz b n cap (patch data k xs) \<and>
    elements (unat isz) (unat n) (patch data k xs) = elements (unat isz) (unat n) data"
proof -
  let ?h' = "apply_event e h" and ?es = "elements (unat isz) (unat n) data"
  have b: "b \<noteq> blk slot" "slot_holds h slot (Ptr b 0)" "blocks h b = Some (counted n cap data)"
    using rep by (auto elim: array_repE)
  have el: "elements (unat isz) (unat n) (patch data k xs) = ?es"
    using k by (intro elements_cong) (simp add: take_patch_before)
  have rep': "array_rep ?h' slot isz b n cap (patch data k xs)"
    using array_rep_put_data [OF rep k(2)] by (simp add: e)
  have at: "array_at h slot isz cap ?es" and at': "array_at ?h' slot isz cap ?es"
    using array_at_rep [OF rep] array_at_rep [OF rep'] el by simp_all
  have pub: "published slot ?h' = published slot h"
    using b(1) by (subst published_apply_event) (auto simp: e)
  have inv_es: "arr_buffer slot isz h ?es c" if "c \<in> published slot h" for c
    using inv that array_at_unique(2) [OF at] by (auto simp: arr_inv_def)
  have same: "blocks ?h' c = blocks h c" if "c \<noteq> b" for c
    using that by (simp add: e blocks_put)
  have blk': "blocks ?h' b = Some (counted n cap (patch data k xs))"
    using rep' by (auto elim: array_repE)
  have slot: "slot_holds ?h' slot q = slot_holds h slot q" for q
    using b(1) same by (intro slot_holds_cong) auto
  have len: "length (patch data k xs) = unat cap * unat isz" "n \<le> cap"
    using rep k(2) by (auto simp: array_rep_def)
  have bufs: "arr_buffer slot isz ?h' ?es c" if "c \<in> published slot h" for c
  proof (cases "c = b")
    case True
    then show ?thesis using blk' b(1) len el by (auto simp: arr_buffer_def)
  next
    case False
    then show ?thesis using inv_es [OF that] same [OF False] by (auto simp: arr_buffer_def)
  qed
  have bp: "b \<in> published slot h" using inv b(2) by (auto simp: arr_inv_def)
  have inv': "arr_inv F slot isz ?h'"
    using inv at' bufs pub slot live_later [of F h e] by (auto simp: arr_inv_def)
  have "arr_grows slot isz h ?h'"
    unfolding arr_grows_def
  proof (intro conjI allI impI ballI)
    fix c1 es1 c2 es2
    assume "array_at h slot isz c1 es1" "array_at ?h' slot isz c2 es2"
    then show "take (length es1) es2 = es1"
      using array_at_unique(2) [OF at] array_at_unique(2) [OF at'] by auto
  next
    fix c n1 cap1 data1
    assume "c \<in> published slot h" "blocks h c = Some (counted n1 cap1 data1)"
    then show "\<exists>n' cap' data'. blocks ?h' c = Some (counted n' cap' data') \<and> n1 \<le> n'"
      using same [of c] blk' b(3) by (cases "c = b") auto
  qed
  moreover have "race_free (arr_plain slot isz h) (arr_sync slot h) e"
    using b k by (intro race_freeI) (auto simp: e arr_plain_def arr_sync_def)
  moreover have "avoids F slot e" using inv bp by (auto simp: e arr_inv_def intro: avoids_block)
  ultimately show ?thesis using inv' pub rep' el by (auto simp: arr_guar_def)
qed

text \<open>The release store that commits a push.\<close>

lemma arr_guar_commit:
  assumes inv: "arr_inv F slot isz h" and rep: "array_rep h slot isz b n cap data" and room: "n < cap"
    and e: "e = Write (Atomic Release) b 0 (word_cells 4 (n + 1))"
  shows "arr_guar F slot isz h e"
proof -
  let ?h' = "apply_event e h" and ?x = "piece data (unat n * unat isz) (unat isz)"
  let ?es = "elements (unat isz) (unat n) data"
  note c = commit_push_rep(2,3) [OF rep room]
  have rep': "array_rep ?h' slot isz b (n + 1) cap data" using c(1) by (simp add: e)
  have el: "elements (unat isz) (unat (n + 1)) data = ?es @ [?x]" by (simp add: c(2) elements_Suc)
  have b: "b \<noteq> blk slot" "slot_holds h slot (Ptr b 0)" "blocks h b = Some (counted n cap data)"
    using rep by (auto elim: array_repE)
  have at: "array_at h slot isz cap ?es" and at': "array_at ?h' slot isz cap (?es @ [?x])"
    using array_at_rep [OF rep] array_at_rep [OF rep'] el by simp_all
  have pub: "published slot ?h' = published slot h"
    using b(1) by (subst published_apply_event) (auto simp: e)
  have same: "blocks ?h' c = blocks h c" if "c \<noteq> b" for c
    using that by (simp add: e blocks_put)
  have blk': "blocks ?h' b = Some (counted (n + 1) cap data)"
    using rep' by (auto elim: array_repE)
  have slot: "slot_holds ?h' slot q = slot_holds h slot q" for q
    using b(1) same by (intro slot_holds_cong) auto
  have bp: "b \<in> published slot h" using inv b(2) by (auto simp: arr_inv_def)
  have bufs: "arr_buffer slot isz ?h' (?es @ [?x]) c" if "c \<in> published slot h" for c
  proof (cases "c = b")
    case True
    then show ?thesis
      using rep' blk' b(1) c(2) el by (auto simp: arr_buffer_def array_rep_def)
  next
    case False
    have "arr_buffer slot isz h ?es c"
      using inv that array_at_unique(2) [OF at] by (auto simp: arr_inv_def)
    then show ?thesis using same [OF False] by (auto simp: arr_buffer_def)
  qed
  then have inv': "arr_inv F slot isz ?h'"
    using inv at' pub slot by (auto simp: arr_inv_def e)
  have le: "n \<le> n + 1" using c(2) by (simp add: word_le_nat_alt)
  have "arr_grows slot isz h ?h'"
    unfolding arr_grows_def
  proof (intro conjI allI impI ballI)
    fix c1 es1 c2 es2
    assume "array_at h slot isz c1 es1" "array_at ?h' slot isz c2 es2"
    then show "take (length es1) es2 = es1"
      using array_at_unique(2) [OF at, of c1 es1] array_at_unique(2) [OF at', of c2 es2]
      by (metis append_eq_conv_conj)
  next
    fix c n1 cap1 data1
    assume "c \<in> published slot h" "blocks h c = Some (counted n1 cap1 data1)"
    then show "\<exists>n' cap' data'. blocks ?h' c = Some (counted n' cap' data') \<and> n1 \<le> n'"
      using same [of c] blk' b(3) le by (cases "c = b") auto
  qed
  moreover have "race_free (arr_plain slot isz h) (arr_sync slot h) e"
    using b(1) by (intro race_freeI) (auto simp: e arr_plain_def arr_sync_def)
  moreover have "avoids F slot e" using inv bp by (auto simp: e arr_inv_def intro: avoids_block)
  ultimately show ?thesis using inv' pub by (auto simp: arr_guar_def)
qed

section \<open>The operations of the writer\<close>

text \<open>What \<open>msm_array_reserve\<close> does when it does something: it builds a buffer in private and
  publishes it.\<close>

lemma reserve_run:
  assumes "msm_array_reserve h slot c isz = Inr h'"
  shows "h' = h \<or> (\<exists>m. h' = fail_block m h) \<or>
    (\<exists>hm. builds_at (next_block h) h hm \<and>
      atomic_store_ptr hm (padd slot 8) (Ptr (next_block h) 0) Release = Inr h')"
proof (rule ccontr)
  assume no: "\<not> ?thesis"
  then have never: "\<And>hm. builds_at (next_block h) h hm \<Longrightarrow>
      atomic_store_ptr hm (padd slot 8) (Ptr (next_block h) 0) Release = Inr h' \<Longrightarrow> False"
    by blast
  have built: False
    if "memset (new_block m h) (Ptr (next_block h) 0) v m' = Inr h1"
      and "atomic_store_u32 h1 (Ptr (next_block h) 0) n Relaxed = Inr h2"
      and "atomic_store_u32 h2 (Ptr (next_block h) 4) c Relaxed = Inr h3"
      and "h4 = h3 \<or> memcpy h3 (Ptr (next_block h) 8) q k = Inr h4"
      and "atomic_store_ptr h4 (padd slot 8) (Ptr (next_block h) 0) Release = Inr h'"
    for m v m' n h1 h2 h3 h4 q k
    using build_header [OF disjI2 [OF that(1)] that(2,3)] build_copy that(4,5) never by blast
  show False
    using assms no
    by (auto simp: msm_array_reserve_def arr_buf_defs bindE_eq_Inr Let_def malloc_def split: if_splits
        dest: built)
qed

lemma slot_holds_contents:
  assumes "array_at h slot isz cap es" and "slot_holds h slot q"
  obtains "q = Null" and "cap = 0" and "es = []"
    | b n data where "q = Ptr b 0" and "array_rep h slot isz b n cap data"
        and "es = elements (unat isz) (unat n) data"
  using assms by (auto simp: array_at_def array_rep_def dest: slot_holds_unique)

lemma reserve_evolves:
  assumes inv: "arr_inv F slot isz h" and at: "array_at h slot isz cap es"
    and run: "msm_array_reserve h slot c isz = Inr h'"
  obtains cap' where "evolves (arr_guar F slot isz) h h'" and "array_at h' slot isz cap' es"
proof -
  let ?nb = "next_block h"
  have h: "heap_wf h" "isz \<noteq> 0" "?nb \<notin> published slot h" "?nb \<noteq> blk slot" "?nb \<notin> F"
    using inv by (auto elim: arr_invE)
  obtain cap' where at': "array_at h' slot isz cap' es"
    using reserve_contents [OF at h(1,2) run] .
  consider "h' = h" | m where "h' = fail_block m h"
    | hm where "builds_at ?nb h hm" "atomic_store_ptr hm (padd slot 8) (Ptr ?nb 0) Release = Inr h'"
    using reserve_run [OF run] by blast
  then have "evolves (arr_guar F slot isz) h h'"
  proof cases
    case 1
    then show ?thesis by (simp add: evolves_refl)
  next
    case (2 m)
    then show ?thesis
      using arr_guar_fresh [OF inv h(3,4) _ _ h(5), of "AllocFail m"] evolves_one [of h "AllocFail m"] by simp
  next
    case (3 hm)
    let ?e = "Write (Atomic Release) (blk slot) (off slot + 8) (ptr_cells (Ptr ?nb 0))"
    have hm: "evolves (arr_guar F slot isz) h hm" "arr_inv F slot isz hm" "?nb \<notin> published slot hm"
      using arr_evolves_fresh [OF 3(1) inv h(3,4,5)] by auto
    have same: "blocks hm c = blocks h c" if "c \<noteq> ?nb" for c
      using builds_at_frame(1) [OF 3(1) h(4) that] .
    have "slot_holds hm slot q = slot_holds h slot q" for q
      using same h(4) by (intro slot_holds_cong) auto
    then have "array_at hm slot isz cap es"
      using at same h(3) inv array_at_cong [of hm slot h isz cap es] by (metis arr_inv_def)
    moreover have e: "h' = apply_event ?e hm" using store_slot_InrD [OF 3(2)] .
    ultimately have "arr_guar F slot isz hm ?e"
      using arr_guar_publish [OF hm(2) _ hm(3) h(4,5) refl] at' by blast
    then have "evolves (arr_guar F slot isz) hm h'" unfolding e by (intro evolves_one) simp_all
    with hm(1) show ?thesis by (rule evolves_trans)
  qed
  with at' show ?thesis using that by blast
qed

text \<open>After \<open>msm_array_prepare_push\<close>: the element behind the last one is zeroed, and nothing else
  that a reader can see has changed.\<close>

lemma reserve_reload:
  assumes inv: "arr_inv F slot isz h" and at: "array_at h slot isz cap es"
    and run: "msm_array_reserve h slot c isz = Inr h0" "atomic_load_ptr h0 (padd slot 8) Relaxed = Inr q0"
    and q0: "q0 \<noteq> Null" and es: "length es = k"
  shows "\<exists>cap0 b n data0. evolves (arr_guar F slot isz) h h0 \<and> array_rep h0 slot isz b n cap0 data0 \<and>
      elements (unat isz) (unat n) data0 = es \<and> q0 = Ptr b 0 \<and> unat n = k"
proof -
  obtain cap0 where ev: "evolves (arr_guar F slot isz) h h0" and at0: "array_at h0 slot isz cap0 es"
    using reserve_evolves [OF inv at run(1)] .
  obtain q1 where q1: "slot_holds h0 slot q1" using array_at_slot [OF at0] by blast
  then have [simp]: "q1 = q0" using load_slot [OF q1, of Relaxed] run(2) by simp
  from at0 q1 obtain b n data where "q0 = Ptr b 0" "array_rep h0 slot isz b n cap0 data"
      "es = elements (unat isz) (unat n) data"
    using q0 by (cases rule: slot_holds_contents) auto
  moreover from this es have "unat n = k" by (metis length_elements)
  ultimately show ?thesis using ev by blast
qed

text \<open>Up to the reset of the new element: the array has room for it.\<close>

lemma prepare_room:
  assumes inv: "arr_inv F slot isz h" and at: "array_at h slot isz cap es"
    and run: "msm_array_prepare_push h slot isz = Inr (p, h1)" and p: "p \<noteq> Null"
  shows "\<exists>h0 cap0 b n data0. evolves (arr_guar F slot isz) h h0 \<and> array_rep h0 slot isz b n cap0 data0 \<and>
      elements (unat isz) (unat n) data0 = es \<and> p = Ptr b (8 + unat n * unat isz) \<and>
      memset h0 p 0 (unat isz) = Inr h1"
proof -
  have h: "heap_wf h" "isz \<noteq> 0" "slot \<noteq> Null" using inv by (auto elim: arr_invE)
  obtain q where q: "slot_holds h slot q" using array_at_slot [OF at] by blast
  show ?thesis
    using at q
  proof (cases rule: slot_holds_contents)
    case 1
    then obtain h0 q0 where 0: "msm_array_reserve h slot 8 isz = Inr h0"
        "atomic_load_ptr h0 (padd slot 8) Relaxed = Inr q0" "q0 \<noteq> Null"
        "p = padd q0 8" "memset h0 p 0 (unat isz) = Inr h1"
      using run h p load_slot [OF q]
      by (auto simp: msm_array_prepare_push_def bindE_eq_Inr Let_def arr_buf_data_def split: if_splits)
    show ?thesis using reserve_reload [OF inv at 0(1-3), of 0] 1(3) 0(4,5) by fastforce
  next
    case (2 b n data)
    note rd = load_slot [OF q] atomic_load_u32_size [of h b n cap data] atomic_load_u32_cap [of h b n cap data]
    have blk: "blocks h b = Some (counted n cap data)" using 2(2) by (auto elim: array_repE)
    show ?thesis
    proof (cases "n < cap")
      case True
      then have "p = Ptr b (8 + unat n * unat isz) \<and> memset h p 0 (unat isz) = Inr h1"
        using run h 2(1) rd blk
        by (auto simp: msm_array_prepare_push_def bindE_eq_Inr Let_def arr_buf_defs split: if_splits)
      then show ?thesis using 2(2,3) evolves_refl by blast
    next
      case False
      then obtain h0 q0 c where 0: "msm_array_reserve h slot c isz = Inr h0"
          "atomic_load_ptr h0 (padd slot 8) Relaxed = Inr q0" "q0 \<noteq> Null"
          "p = padd q0 (8 + unat n * unat isz)" "memset h0 p 0 (unat isz) = Inr h1"
        using run h p 2(1) rd blk
        by (auto simp: msm_array_prepare_push_def bindE_eq_Inr Let_def arr_buf_defs split: if_splits)
      have "length es = unat n" using 2(3) by (metis length_elements)
      from reserve_reload [OF inv at 0(1-3) this] 0(4,5) show ?thesis by fastforce
    qed
  qed
qed

lemma prepare_evolves:
  assumes inv: "arr_inv F slot isz h" and at: "array_at h slot isz cap es"
    and run: "msm_array_prepare_push h slot isz = Inr (p, h1)" and p: "p \<noteq> Null"
  obtains b n cap' data where "evolves (arr_guar F slot isz) h h1" and "n < cap'"
    and "array_rep h1 slot isz b n cap' data" and "elements (unat isz) (unat n) data = es"
    and "p = Ptr b (8 + unat n * unat isz)"
proof -
  let ?z = "replicate (unat isz) (Byte 0)"
  have isz: "isz \<noteq> 0" using inv by (auto elim: arr_invE)
  obtain h0 cap0 b n data0 where ev: "evolves (arr_guar F slot isz) h h0"
    and rep: "array_rep h0 slot isz b n cap0 data0" and es: "elements (unat isz) (unat n) data0 = es"
    and pb: "p = Ptr b (8 + unat n * unat isz)" and m: "memset h0 p 0 (unat isz) = Inr h1"
    using prepare_room [OF inv at run p] by blast
  let ?e = "Write Plain b (8 + unat n * unat isz) ?z"
  have blk: "blocks h0 b = Some (counted n cap0 data0)" and len: "length data0 = unat cap0 * unat isz"
    using rep by (auto elim: array_repE)
  have bound: "unat n * unat isz + unat isz \<le> length data0" and h1: "h1 = apply_event ?e h0"
    using m blk by (auto simp: pb memset_def elim!: store_cells_InrD)
  have inv0: "arr_inv F slot isz h0" using arr_evolves [OF ev inv] by simp
  have s: "arr_guar F slot isz h0 ?e \<and> array_rep h1 slot isz b n cap0 (patch data0 (unat n * unat isz) ?z) \<and>
      elements (unat isz) (unat n) (patch data0 (unat n * unat isz) ?z) = es"
    using arr_guar_spare [OF inv0 rep, of "unat n * unat isz" ?z ?e Plain] bound es h1 by simp
  have "evolves (arr_guar F slot isz) h0 h1" unfolding h1 using s by (intro evolves_one) simp_all
  then have "evolves (arr_guar F slot isz) h h1" using ev by (rule evolves_trans [rotated])
  moreover have "n < cap0"
  proof -
    have "(unat n + 1) * unat isz \<le> unat cap0 * unat isz" using bound len by (simp add: add.commute)
    moreover have "0 < unat isz" using isz by (simp add: unat_gt_0)
    ultimately have "unat n + 1 \<le> unat cap0" using mult_le_cancel2 by blast
    then show ?thesis by (simp add: word_less_nat_alt)
  qed
  ultimately show ?thesis using s pb that by blast
qed

lemma push_evolves:
  assumes inv: "arr_inv F slot isz h" and xs: "length xs = unat isz"
    and run: "push_element slot isz xs h = Inr h'"
  shows "evolves (arr_guar F slot isz) h h'"
proof -
  obtain p h1 h2 where 1: "msm_array_prepare_push h slot isz = Inr (p, h1)"
      "store_cells Plain h1 p xs = Inr h2" "msm_array_commit_push h2 slot = Inr h'"
    using run by (auto simp: push_element_def bindE_eq_Inr)
  then have p: "p \<noteq> Null" by auto
  obtain cap es where at: "array_at h slot isz cap es" using inv by (auto simp: arr_inv_def)
  obtain b n cap' data where 2: "evolves (arr_guar F slot isz) h h1" "n < cap'"
      "array_rep h1 slot isz b n cap' data" "p = Ptr b (8 + unat n * unat isz)"
    using prepare_evolves [OF inv at 1(1) p] .
  let ?e = "Write Plain b (8 + unat n * unat isz) xs" and ?k = "unat n * unat isz"
  have inv1: "arr_inv F slot isz h1" using arr_evolves [OF 2(1) inv] by simp
  have k: "?k + length xs \<le> length data"
    using element_range [OF 2(3), of "unat n"] 2(2) xs by (simp add: word_less_nat_alt)
  have h2: "h2 = apply_event ?e h1" using 1(2) by (auto simp: 2(4) elim!: store_cells_InrD)
  have s: "arr_guar F slot isz h1 ?e \<and> array_rep h2 slot isz b n cap' (patch data ?k xs)"
    using arr_guar_spare [OF inv1 2(3) _ k, of ?e Plain] h2 by simp
  have ev2: "evolves (arr_guar F slot isz) h1 h2" unfolding h2 using s by (intro evolves_one) simp_all
  then have inv2: "arr_inv F slot isz h2" using arr_evolves inv1 by blast
  let ?c = "Write (Atomic Release) b 0 (word_cells 4 (n + 1))"
  have "h' = apply_event ?c h2" using commit_push_rep(1) [OF conjunct2 [OF s] 2(2)] 1(3) by simp
  moreover have "arr_guar F slot isz h2 ?c" using arr_guar_commit [OF inv2 conjunct2 [OF s] 2(2)] by blast
  ultimately have "evolves (arr_guar F slot isz) h2 h'"
    using evolves_one [of h2 ?c "arr_guar F slot isz"] by simp
  with 2(1) ev2 show ?thesis by (meson evolves_trans)
qed

interpretation arr: swmr "array_writer slot isz" "arr_inv F slot isz" "arr_guar F slot isz" for F slot isz
proof
  fix h e
  assume "arr_guar F slot isz h e"
  then show "arr_inv F slot isz (apply_event e h)" by (simp add: arr_guar_def)
next
  fix f h h'
  assume f: "f \<in> array_writer slot isz" and inv: "arr_inv F slot isz h" and run: "f h = Inr h'"
  then consider c where "msm_array_reserve h slot c isz = Inr h'"
    | xs where "length xs = unat isz" "push_element slot isz xs h = Inr h'"
    by (auto simp: array_writer_def)
  then show "evolves (arr_guar F slot isz) h h'"
  proof cases
    case (1 c)
    obtain cap es where at: "array_at h slot isz cap es" using inv by (auto simp: arr_inv_def)
    show ?thesis using reserve_evolves [OF inv at 1] .
  next
    case (2 xs)
    then show ?thesis using push_evolves [OF inv] by blast
  qed
qed

end
