(* ===== verification/Msm_Array_Swmr_Props.thy ===== *)
theory Msm_Array_Swmr_Props
  imports Msm_Array_Swmr Msm_Array_Props
begin

text \<open>
  What concurrent readers of an array see, and that the writer's protocol is free of data races.
  All statements start from a slot without a buffer, run the writer for any time, start any number
  of readers at any point, also within an operation of the writer, and interleave freely from there.
\<close>

section \<open>Readers\<close>

lemma arr_current:
  assumes "arr_inv F slot isz h"
  obtains cap es where "array_at h slot isz cap es" and "slot_holds h slot Null" and "es = []"
  | cap es b n data where "array_at h slot isz cap es" and "slot_holds h slot (Ptr b 0)"
      and "b \<in> published slot h" and "blocks h b = Some (counted n cap data)" and "unat n = length es"
proof -
  obtain cap es where h: "array_at h slot isz cap es"
      "\<And>b. slot_holds h slot (Ptr b 0) \<Longrightarrow> b \<in> published slot h"
    using assms by (auto simp: arr_inv_def)
  obtain q where q: "slot_holds h slot q" using array_at_slot [OF h(1)] by blast
  from h(1) q show ?thesis
  proof (cases rule: slot_holds_contents)
    case 1
    then show ?thesis using that(1) h(1) q by blast
  next
    case (2 b n data)
    then show ?thesis using that(2) [OF h(1), of b n data] h(2) q by (auto elim!: array_repE)
  qed
qed

text \<open>A published buffer, some time later.\<close>

lemma arr_later:
  assumes "evolves (arr_guar F slot isz) h h'" and "arr_inv F slot isz h" and "b \<in> published slot h"
    and "blocks h b = Some (counted n cap data)"
  obtains n' cap' data' cape es where "blocks h' b = Some (counted n' cap' data')" and "n \<le> n'"
    and "array_at h' slot isz cape es" and "unat n' \<le> length es" and "length data' = unat cap' * unat isz"
    and "n' \<le> cap'" and "elements (unat isz) (unat n') data' = take (unat n') es"
proof -
  note ev = arr_evolves [OF assms(1,2)]
  then obtain n' cap' data' where n': "blocks h' b = Some (counted n' cap' data')" "n \<le> n'"
    using assms(3,4) unfolding arr_grows_def by blast
  obtain cape es where es: "array_at h' slot isz cape es" "arr_buffer slot isz h' es b"
    using ev assms(3) by (auto simp: arr_inv_def)
  show ?thesis using that n' es unfolding arr_buffer_def by auto
qed

lemma element_of_buffer:
  assumes "blocks h b = Some (counted n cap data)" and "length data = unat cap * unat isz" and "n \<le> cap"
    and "elements (unat isz) (unat n) data = take (unat n) es" and "unat i < unat n" and "unat n \<le> length es"
  shows "load_cells h (padd (arr_buf_data (Ptr b 0)) (unat (size_mul i isz))) (unat isz) =
    Inr (es ! unat i)"
proof -
  have "unat i * unat isz + unat isz = (unat i + 1) * unat isz" by simp
  also have "\<dots> \<le> unat cap * unat isz"
    using assms(3,5) by (intro mult_right_mono) (auto simp: word_le_nat_alt)
  finally have bound: "unat i * unat isz + unat isz \<le> length data" using assms(2) by simp
  have "es ! unat i = elements (unat isz) (unat n) data ! unat i" using assms(4,5) by simp
  then have "es ! unat i = piece data (unat i * unat isz) (unat isz)"
    using assms(5) by (simp add: nth_elements)
  then show ?thesis using assms(1) bound by (simp add: arr_buf_defs add.assoc)
qed

definition element_seen :: "ptr \<Rightarrow> u32 \<Rightarrow> u32 \<Rightarrow> cell list list \<Rightarrow> cell list option \<Rightarrow> heap \<Rightarrow> bool" where
  "element_seen slot isz i es0 v h \<longleftrightarrow>
     (case v of None \<Rightarrow> length es0 \<le> unat i
      | Some xs \<Rightarrow> \<exists>cap es. array_at h slot isz cap es \<and> unat i < length es \<and> xs = es ! unat i)"

lemma element_seen_later:
  assumes "element_seen slot isz i es0 v h" and "arr_inv F slot isz h" and "evolves (arr_guar F slot isz) h h'"
  shows "element_seen slot isz i es0 v h'"
proof (cases v)
  case (Some xs)
  then obtain cap es where es: "array_at h slot isz cap es" "unat i < length es" "xs = es ! unat i"
    using assms(1) by (auto simp: element_seen_def)
  note ev = arr_evolves [OF assms(3,2)]
  then obtain cap' es' where "array_at h' slot isz cap' es'" by (auto simp: arr_inv_def)
  moreover from this have "take (length es) es' = es" using es(1) ev unfolding arr_grows_def by blast
  moreover from this have "unat i < length es'" "es' ! unat i = es ! unat i"
    using es(2) by (metis length_take min_less_iff_conj, metis nth_take)
  ultimately show ?thesis using es(3) by (fastforce simp: Some element_seen_def)
qed (use assms(1) in \<open>simp add: element_seen_def\<close>)

text \<open>The tail of the reader, from the load of the size of a published buffer on.\<close>

abbreviation element_rest :: "ptr \<Rightarrow> u32 \<Rightarrow> u32 \<Rightarrow> cell list option reader" where
  "element_rest buf i isz \<equiv> bindR (readR (padd (arr_buf_data buf) (unat (size_mul i isz))) (unat isz))
     (\<lambda>xs. Return (Some xs))"

lemma element_data_reads:
  assumes h2: "arr_inv F slot isz h2" "b \<in> published slot h2" "blocks h2 b = Some (counted n c d)" "i < n"
  shows "reads (arr_guar F slot isz) (element_rest (Ptr b 0) i isz) h2 (element_seen slot isz i es0)"
proof (rule reads_cells)
  let ?G = "arr_guar F slot isz" and ?Q = "element_seen slot isz i es0"
  fix h3
  assume ev: "evolves ?G h2 h3"
  have inv3: "arr_inv F slot isz h3" using arr_evolves [OF ev h2(1)] by simp
  obtain n' cap' data' cape es where b3: "blocks h3 b = Some (counted n' cap' data')" "n \<le> n'"
      "array_at h3 slot isz cape es" "unat n' \<le> length es" "length data' = unat cap' * unat isz"
      "n' \<le> cap'" "elements (unat isz) (unat n') data' = take (unat n') es"
    using arr_later [OF ev h2(1-3)] .
  have i: "unat i < unat n'" using h2(4) b3(2) by (simp add: word_less_nat_alt word_le_nat_alt)
  have "?Q (Some (es ! unat i)) h3" using b3(3,4) i by (fastforce simp: element_seen_def)
  then have "reads ?G (Return (Some (es ! unat i))) h3 ?Q"
    by (intro reads_return) (rule element_seen_later [OF _ inv3])
  then show "\<exists>xs. load_cells h3 (padd (arr_buf_data (Ptr b 0)) (unat (size_mul i isz))) (unat isz) = Inr xs \<and>
      reads ?G (Return (Some xs)) h3 ?Q"
    using element_of_buffer [OF b3(1,5,6,7) i b3(4)] by blast
qed

lemma element_none_reads:
  "length es0 \<le> unat i \<Longrightarrow> reads (arr_guar F slot isz) (Return None) h (element_seen slot isz i es0)"
  by (intro reads_return) (simp add: element_seen_def)

lemma element_size_reads:
  assumes h1: "arr_inv F slot isz h1" "b \<in> published slot h1" "blocks h1 b = Some (counted n c d)"
    and n: "length es0 \<le> unat n"
  shows "reads (arr_guar F slot isz) (bindR (atomic_load_u32R (Ptr b 0))
      (\<lambda>sz. if sz \<le> i then Return None else element_rest (Ptr b 0) i isz)) h1 (element_seen slot isz i es0)"
proof (rule reads_atomic_u32 [where ord = Acquire])
  let ?G = "arr_guar F slot isz" and ?Q = "element_seen slot isz i es0"
  fix h2
  assume ev: "evolves ?G h1 h2"
  have inv2: "arr_inv F slot isz h2" "b \<in> published slot h2"
    using arr_evolves [OF ev h1(1)] h1(2) by auto
  obtain n' cap' data' cape es where b2: "blocks h2 b = Some (counted n' cap' data')" "n \<le> n'"
    using arr_later [OF ev h1(1-3)] .
  have "length es0 \<le> unat i" if "n' \<le> i"
    using that n b2(2) by (simp add: word_le_nat_alt)
  then show "\<exists>v. atomic_load_u32 h2 (Ptr b 0) Acquire = Inr v \<and>
      reads ?G (if v \<le> i then Return None else element_rest (Ptr b 0) i isz) h2 ?Q"
    using element_none_reads element_data_reads [OF inv2 b2(1)] atomic_load_u32_size [OF b2(1)] by auto
qed

lemma read_element_reads:
  assumes inv: "arr_inv F slot isz h" and at: "array_at h slot isz cap es0"
  shows "reads (arr_guar F slot isz) (read_elementR slot i isz) h (element_seen slot isz i es0)"
proof -
  let ?G = "arr_guar F slot isz" and ?Q = "element_seen slot isz i es0"
  let ?rest = "\<lambda>buf. if buf = Null then Return None else bindR (atomic_load_u32R buf)
      (\<lambda>sz. if sz \<le> i then Return None else element_rest buf i isz)"
  have nn: "slot \<noteq> Null" "isz \<noteq> 0" using inv by (auto elim: arr_invE)
  have "read_elementR slot i isz = bindR (atomic_load_ptrR (padd slot 8)) ?rest"
    using nn by (auto simp: read_elementR_def msm_array_getR_def bindR_assoc arr_buf_data_def
        if_distrib [where f = "\<lambda>m. bindR m _"] cong: if_cong intro!: arg_cong2 [of _ _ _ _ bindR])
  moreover have "reads ?G (bindR (atomic_load_ptrR (padd slot 8)) ?rest) h ?Q"
  proof (rule reads_atomic_ptr [where ord = Acquire])
    fix h1
    assume ev: "evolves ?G h h1"
    have inv1: "arr_inv F slot isz h1" using arr_evolves [OF ev inv] by simp
    have pre: "length es0 \<le> length es1" if "array_at h1 slot isz cap1 es1" for cap1 es1
      using arr_evolves [OF ev inv] at that unfolding arr_grows_def
      by (metis length_take min.cobounded1)
    from inv1 show "\<exists>q. atomic_load_ptr h1 (padd slot 8) Acquire = Inr q \<and> reads ?G (?rest q) h1 ?Q"
    proof (cases rule: arr_current)
      case (1 cap1 es1)
      then show ?thesis using pre [OF 1(1)] element_none_reads load_slot [OF 1(2)] by auto
    next
      case (2 cap1 es1 b n data)
      then show ?thesis
        using pre [OF 2(1)] element_size_reads [OF inv1 2(3,4)] load_slot [OF 2(2)] by auto
    qed
  qed
  ultimately show ?thesis by simp
qed

section \<open>The properties\<close>

lemma arr_inv_null:
  assumes "heap_wf h" and "slot_holds h slot Null" and "published slot h = {}" and "isz \<noteq> 0"
    and "F \<subseteq> {..<next_block h}"
  shows "arr_inv F slot isz h"
  using assms by (auto simp: arr_inv_def array_at_def dest: slot_holds_unique)

lemmas arr_inv_start = arr_inv_null [OF _ _ _ _ empty_subsetI]

lemma start_heap_inv: "isz \<noteq> 0 \<Longrightarrow> arr_inv {} (Ptr 0 0) isz start_heap"
  by (rule arr_inv_start) (simp_all add: start_heap_def heap_wf_def slot_holds_def ptr_cells.simps)

text \<open>A run for the witnesses: the writer pushes one element, then a reader reads it.\<close>

lemma push_one_run:
  obtains h' cap where "swmr_run (array_writer (Ptr 0 0) 8) \<lparr>shared = start_heap, pending = [], threads = []\<rparr>
      \<lparr>shared = h', pending = [], threads = []\<rparr>"
    and "array_at h' (Ptr 0 0) 8 cap [replicate 8 (Byte 7)]"
    and "run_reader h' (read_elementR (Ptr 0 0) 0 8) = Inr (Some (replicate 8 (Byte 7)))"
proof -
  let ?xs = "replicate 8 (Byte 7)"
  obtain p h1 h2 h' cap where 1: "msm_array_prepare_push start_heap (Ptr 0 0) 8 = Inr (p, h1)"
      "store_cells Plain h1 p ?xs = Inr h2" "msm_array_commit_push h2 (Ptr 0 0) = Inr h'"
      "array_at h' (Ptr 0 0) 8 cap ([] @ [?xs])"
    by (rule push_protocol_runs [OF start_heap_array start_heap_facts(1), of 8 ?xs])
      (auto simp: can_push_def grown_cap_def)
  have run: "push_element (Ptr 0 0) 8 ?xs start_heap = Inr h'" using 1 by (simp add: push_element_def)
  have f: "push_element (Ptr 0 0) 8 ?xs \<in> array_writer (Ptr 0 0) 8" by (simp add: array_writer_def)
  have ev: "evolves (arr_guar {} (Ptr 0 0) 8) start_heap h'"
    using arr.ops_evolve [OF f start_heap_inv run] by simp
  obtain p where "msm_array_get h' (Ptr 0 0) 0 8 = Inr p" "p \<noteq> Null" "load_cells h' p 8 = Inr ?xs"
    using array_reads(4) [OF 1(4), of 0] by auto
  then have "run_reader h' (read_elementR (Ptr 0 0) 0 8) = Inr (Some ?xs)"
    by (simp add: read_elementR_def run_msm_array_getR)
  then show ?thesis using that [OF run_operation [OF f run ev]] 1(4) by simp
qed

text \<open>Claim C3. Reads of array elements concurrent with one writer that reserves and pushes: no
  interleaving makes a reader fault; an index that was in range when the reader started is found
  in range; and the bytes that are returned are exactly the element with that index, never a
  partly written or an uncommitted one.\<close>

theorem array_swmr_reads:
  assumes "heap_wf h" and "slot_holds h slot Null" and "published slot h = {}" and "isz \<noteq> 0"
    and "swmr_run (array_writer slot isz) \<lparr>shared = h, pending = [], threads = []\<rparr> s0"
    and "array_at (shared s0) slot isz cap0 es0"
    and "swmr_run (array_writer slot isz) (s0\<lparr>threads := map (\<lambda>i. read_elementR slot i isz) idxs\<rparr>) s"
    and "j < length (threads s)"
  shows "threads s ! j \<noteq> Fail e \<and>
    (threads s ! j = Return None \<longrightarrow> length es0 \<le> unat (idxs ! j)) \<and>
    (threads s ! j = Return (Some xs) \<longrightarrow> (\<exists>cap es. array_at (shared s) slot isz cap es \<and>
      unat (idxs ! j) < length es \<and> xs = es ! unat (idxs ! j)))"
proof -
  let ?Q = "\<lambda>j. element_seen slot isz (idxs ! j) es0"
  note inv = arr_inv_start [OF assms(1-4)]
  have inv0: "arr_inv {} slot isz (shared s0)"
    using arr.writer_consistent [OF inv assms(5)] by (simp add: arr.consistent_def)
  have "reads (arr_guar {} slot isz) (map (\<lambda>i. read_elementR slot i isz) idxs ! j) (shared s0) (?Q j)"
    if "j < length (map (\<lambda>i. read_elementR slot i isz) idxs)" for j
    using that read_element_reads [OF inv0 assms(6)] by simp
  from arr.readers_correct(1,2) [OF inv assms(5,7) this assms(8)] show ?thesis
    by (auto simp: element_seen_def)
qed

theorem array_swmr_reads_witness:
  "\<exists>s0 s xs. swmr_run (array_writer (Ptr 0 0) 8) \<lparr>shared = start_heap, pending = [], threads = []\<rparr> s0 \<and>
     swmr_run (array_writer (Ptr 0 0) 8) (s0\<lparr>threads := [read_elementR (Ptr 0 0) 0 8]\<rparr>) s \<and>
     threads s = [Return (Some xs)] \<and> (\<exists>cap es. array_at (shared s) (Ptr 0 0) 8 cap es \<and> xs = es ! 0)"
proof -
  obtain h' cap where w: "swmr_run (array_writer (Ptr 0 0) 8)
        \<lparr>shared = start_heap, pending = [], threads = []\<rparr>
        (\<lparr>shared = h', pending = [], threads = []\<rparr> :: cell list option system)"
      "array_at h' (Ptr 0 0) 8 cap [replicate 8 (Byte 7)]"
      "run_reader h' (read_elementR (Ptr 0 0) 0 8) = Inr (Some (replicate 8 (Byte 7)))"
    by (rule push_one_run)
  let ?full = "\<lparr>shared = h', pending = [], threads = []\<rparr> :: cell list option system"
  let ?seen = "\<lparr>shared = h', pending = [], threads = [Return (Some (replicate 8 (Byte 7)))]\<rparr>"
  have r: "swmr_run (array_writer (Ptr 0 0) 8) (?full\<lparr>threads := map (\<lambda>i. read_elementR (Ptr 0 0) i 8) [0]\<rparr>) ?seen"
    using run_undisturbed [OF w(3)] by simp
  have p: "published (Ptr 0 0) start_heap = {}" by (simp add: start_heap_def)
  have "\<exists>cap es. array_at (shared ?seen) (Ptr 0 0) 8 cap es \<and> replicate 8 (Byte 7) = es ! 0"
    using array_swmr_reads [OF start_heap_facts(1,2) p _ w(1) _ r, where j = 0] w(2) by force
  then show ?thesis using w(1) r by (intro exI [of _ ?full] exI [of _ ?seen]) auto
qed

text \<open>The writer's protocol has no data races: whatever write comes next, it touches no
  element that readers may read, and the slot's pointer and the size fields of published buffers
  only as release stores of the whole field; no published buffer is freed.\<close>

lemma array_swmr_race_free:
  assumes "heap_wf h" and "slot_holds h slot Null" and "published slot h = {}" and "isz \<noteq> 0"
    and "swmr_run (array_writer slot isz) \<lparr>shared = h, pending = [], threads = []\<rparr> s"
    and "pending s = e # es"
  shows "race_free (arr_plain slot isz (shared s)) (arr_sync slot (shared s)) e \<and>
    arr_grows slot isz (shared s) (apply_event e (shared s)) \<and>
    (\<forall>b \<in> published slot (shared s). e \<noteq> Free b)"
proof -
  have "arr_guar {} slot isz (shared s) e"
    using arr.next_write_guarded [OF arr_inv_start [OF assms(1-4)] assms(5,6)] by simp
  then have *: "race_free (arr_plain slot isz (shared s)) (arr_sync slot (shared s)) e"
    "arr_grows slot isz (shared s) (apply_event e (shared s))"
    by (simp_all add: arr_guar_def)
  have "e \<noteq> Free b" if "b \<in> published slot (shared s)" for b
  proof
    assume "e = Free b"
    moreover have "(b, 0, 4) \<in> arr_sync slot (shared s)" using that by (simp add: arr_sync_def)
    ultimately show False using *(1) by (force simp: race_free_def)
  qed
  with * show ?thesis by blast
qed

text \<open>The readers of the interleaving are the functions of the C interface: run without
  interference they return what \<open>msm_array_get\<close> and \<open>msm_array_size\<close> return, faults included.\<close>

lemma array_readers_faithful:
  "run_reader h (msm_array_getR slot i isz) = msm_array_get h slot i isz \<and>
   run_reader h (msm_array_sizeR slot) = msm_array_size h slot"
  by (simp add: run_msm_array_getR run_msm_array_sizeR)

lemma push_back_evolves:
  assumes inv: "arr_inv F slot isz h" and at: "array_at h slot isz cap es"
    and run: "msm_array_push_back h slot isz = Inr (p, h')" and "p \<noteq> Null"
  shows "evolves (arr_guar F slot isz) h h'"
proof -
  obtain h1 where 1: "msm_array_prepare_push h slot isz = Inr (p, h1)"
      "msm_array_commit_push h1 slot = Inr h'"
    using run assms(4) by (auto simp: msm_array_push_back_def bindE_eq_Inr split: if_splits)
  obtain b n cap' data where 2: "evolves (arr_guar F slot isz) h h1" "n < cap'"
      "array_rep h1 slot isz b n cap' data"
    using prepare_evolves [OF inv at 1(1) assms(4)] .
  let ?c = "Write (Atomic Release) b 0 (word_cells 4 (n + 1))"
  have "arr_guar F slot isz h1 ?c"
    using arr_guar_commit [OF _ 2(3,2)] arr_evolves [OF 2(1) inv] by blast
  then have "evolves (arr_guar F slot isz) h1 h'"
    using commit_push_rep(1) [OF 2(3,2)] 1(2) evolves_one [of h1 ?c "arr_guar F slot isz"] by simp
  with 2(1) show ?thesis by (rule evolves_trans)
qed

text \<open>Claim C28. The one-step \<open>msm_array_push_back\<close> is not safe under concurrent readers: the
  element is published before its value is written, and the write of the value then races with
  readers of the element.\<close>

theorem array_push_back_races:
  assumes "arr_inv {} slot isz h" and "array_at h slot isz cap es" and "can_push h isz cap (length es)"
    and "length xs = unat isz"
  shows "\<exists>b k h'. msm_array_push_back h slot isz = Inr (Ptr b k, h') \<and> arr_inv {} slot isz h' \<and>
    \<not> race_free (arr_plain slot isz h') (arr_sync slot h') (Write Plain b k xs)"
proof -
  have h: "heap_wf h" and isz: "isz \<noteq> 0" using assms(1) by (auto elim: arr_invE)
  obtain b n data h' cap' where
      p: "msm_array_push_back h slot isz = Inr (Ptr b (8 + unat n * unat isz), h')"
      and rep: "array_rep h' slot isz b (n + 1) cap' data" and n: "unat (n + 1) = Suc (unat n)"
    by (rule push_back_rep [OF assms(2) h isz assms(3)])
  have inv': "arr_inv {} slot isz h'" using push_back_evolves [OF assms(1,2) p] arr_evolves assms(1) by blast
  have "b \<in> published slot h'" using inv' rep by (auto simp: arr_inv_def array_rep_def)
  moreover have "blocks h' b = Some (counted (n + 1) cap' data)" using rep by (auto elim: array_repE)
  moreover have "0 < unat isz" using isz by (simp add: unat_gt_0)
  ultimately have "arr_plain slot isz h' b (8 + unat n * unat isz)"
    using n by (auto simp: arr_plain_def)
  moreover have "touches (Write Plain b (8 + unat n * unat isz) xs) b (8 + unat n * unat isz)"
    using assms(4) isz by (simp add: unat_gt_0)
  ultimately show ?thesis using p inv' unfolding race_free_def by blast
qed

theorem array_push_back_races_witness:
  "\<exists>b k h'. msm_array_push_back start_heap (Ptr 0 0) 8 = Inr (Ptr b k, h') \<and>
     \<not> race_free (arr_plain (Ptr 0 0) 8 h') (arr_sync (Ptr 0 0) h') (Write Plain b k (replicate 8 (Byte 7)))"
  using array_push_back_races [OF start_heap_inv start_heap_array, of 8 "replicate 8 (Byte 7)"]
  by (auto simp: can_push_def grown_cap_def)

text \<open>Claim C29. \<open>msm_array_clear\<close> is not safe under concurrent readers: it keeps the buffer, and
  the next push reuses the elements a reader may still be reading. In an array that only ever held
  elements of ones, twos and threes, a reader is given an element of zeros.\<close>

theorem array_clear_breaks_readers:
  "\<exists>s. swmr_run {\<lambda>h. msm_array_clear h (Ptr 0 0), push_element (Ptr 0 0) 8 (replicate 8 (Byte 3))}
     \<lparr>shared = pair_heap (\<lambda>_ _. False), pending = [], threads = [read_elementR (Ptr 0 0) 0 8]\<rparr> s \<and>
   threads s = [Return (Some (replicate 8 (Byte 0)))]"
proof -
  let ?ops = "{\<lambda>h. msm_array_clear h (Ptr 0 0), push_element (Ptr 0 0) 8 (replicate 8 (Byte 3))}"
  let ?h = "pair_heap (\<lambda>_ _. False)" and ?d = "replicate 8 (Byte 1) @ replicate 8 (Byte 2)"
  let ?z = "replicate 8 (Byte 0) :: cell list"
  note rep = pair_heap_rep [of "\<lambda>_ _. False"]
  \<comment> \<open>the heaps after the clearing, the zeroing and the rest of the push\<close>
  let ?e1 = "Write (Atomic Release) 1 0 (word_cells 4 (0 :: u32))" and ?e2 = "Write Plain 1 8 ?z"
  let ?e3 = "Write Plain 1 8 (replicate 8 (Byte 3))"
    and ?e4 = "Write (Atomic Release) 1 0 (word_cells 4 (1 :: u32))"
  let ?h1 = "apply_event ?e1 ?h" and ?h2 = "apply_event ?e2 (apply_event ?e1 ?h)"
  let ?h4 = "apply_event ?e4 (apply_event ?e3 ?h2)"
  have clear: "msm_array_clear ?h (Ptr 0 0) = Inr ?h1" using clear_rep(1) [OF rep] by simp
  have rep1: "array_rep ?h1 (Ptr 0 0) 8 1 0 2 ?d" using clear_rep(2) [OF rep] by simp
  have prep: "msm_array_prepare_push ?h1 (Ptr 0 0) 8 = Inr (Ptr 1 8, ?h2)"
    using prepare_push_room [OF rep1] by simp
  have rep2: "array_rep ?h2 (Ptr 0 0) 8 1 0 2 (patch ?d 0 ?z)"
    using array_rep_put_data [OF rep1, of 0 ?z Plain] by simp
  have rep3: "array_rep (apply_event ?e3 ?h2) (Ptr 0 0) 8 1 0 2 (patch (patch ?d 0 ?z) 0 (replicate 8 (Byte 3)))"
    using array_rep_put_data [OF rep2, of 0 "replicate 8 (Byte 3)" Plain] by simp
  have blk2: "blocks ?h2 1 = Some (counted 0 2 (patch ?d 0 ?z))" using rep2 by (auto elim: array_repE)
  have fill: "store_cells Plain ?h2 (Ptr 1 8) (replicate 8 (Byte 3)) = Inr (apply_event ?e3 ?h2)"
    using store_cells_Some [OF blk2, of 8 "replicate 8 (Byte 3)" Plain] by simp
  have "msm_array_commit_push (apply_event ?e3 ?h2) (Ptr 0 0) = Inr ?h4"
    using commit_push_rep(1) [OF rep3] by simp
  with prep fill have push: "push_element (Ptr 0 0) 8 (replicate 8 (Byte 3)) ?h1 = Inr ?h4"
    by (simp only: push_element_def bindE.simps prod.case)
  have ev1: "events_of ?h ?h1 = [?e1]" and ev2: "events_of ?h1 ?h4 = [?e2, ?e3, ?e4]"
    by (simp_all add: events_of_def)
  \<comment> \<open>what the reader loads\<close>
  have blk: "blocks ?h 1 = Some (counted 2 2 ?d)" using rep by (auto elim: array_repE)
  have l1: "load_cells ?h (Ptr 0 8) 8 = Inr (ptr_cells (Ptr 1 0))"
    by (simp add: pair_heap_def piece_append_right)
  have l2: "load_cells ?h (Ptr 1 0) 4 = Inr (word_cells 4 (2 :: u32))" using blk by simp
  have l3: "load_cells ?h2 (Ptr 1 8) 8 = Inr ?z" using blk2 by simp
  have "swmr_run ?ops \<lparr>shared = ?h, pending = [], threads = [read_elementR (Ptr 0 0) 0 8]\<rparr>
      \<lparr>shared = ?h2, pending = [?e3, ?e4], threads = [Return (Some ?z)]\<rparr>"
    apply (simp add: read_elementR_def msm_array_getR_def atomic_load_ptrR_def load_ptrR_def readR_def
        del: apply_event.simps One_nat_def)
    apply (rule run_load [OF l1])
    apply (simp add: atomic_load_u32R_def load_wordR_def readR_def del: apply_event.simps One_nat_def)
    apply (rule run_load [OF l2])
    apply (simp add: arr_buf_defs readR_def del: apply_event.simps One_nat_def)
    apply (rule run_call [where f = "\<lambda>h. msm_array_clear h (Ptr 0 0)", OF _ clear], simp, subst ev1, rule run_store)
    apply (rule run_call [where f = "push_element (Ptr 0 0) 8 (replicate 8 (Byte 3))", OF _ push], simp)
    apply (subst ev2, rule run_store)
    apply (rule run_load [OF l3])
    apply (rule rtranclp.rtrancl_refl)
    done
  then show ?thesis by fastforce
qed

end
