(* ===== verification/Msm_Object_Swmr_Props.thy ===== *)
theory Msm_Object_Swmr_Props
  imports Msm_Object_Queries Msm_Array_Swmr_Props
begin

text \<open>
  Objects beside readers, the properties: every query of a reader is answered as the object was at
  one moment of the query, also while strings are set anew; no write of the writer races with
  readers; and overwriting a scalar field, which is not among the operations of the writer, does.
\<close>

section \<open>The properties\<close>

lemma obj_nothing:
  assumes "published slot h = {}"
  shows "obj_fields slot h = {}" and "obj_strings slot h = {}" and "obj_shared slot h = {blk slot}"
  using assms by (simp_all add: obj_shared_def obj_core_def obj_texts_def obj_strings_def obj_fields_def)

lemma obj_inv_null:
  "heap_wf h \<Longrightarrow> slot_holds h slot Null \<Longrightarrow> published slot h = {} \<Longrightarrow> F \<subseteq> {..<next_block h} \<Longrightarrow>
   obj_inv F slot h"
  by (auto simp: obj_inv_def obj_nothing disjoint_texts_def)

lemmas obj_inv_start = obj_inv_null [OF _ _ _ empty_subsetI]

lemma obj_answered_between:
  assumes "obj_answered F slot h0 q a h"
  shows "\<exists>es1 es2 h1 cap M B. events_of h0 h = es1 @ es2 \<and> h1 = replay es1 h0 \<and>
    object_at h1 slot cap M B \<and> a = answer q M"
proof -
  obtain fs h1 cap B where "a = answer q (fields_map fs)" "evolves (obj_guar F slot) h0 h1"
      "evolves (obj_guar F slot) h1 h" "object_fs h1 slot cap fs B"
    using assms by (auto simp: obj_answered_def obj_seen_def)
  moreover from evolves_between [OF this(2,3)]
  obtain es1 es2 where "events_of h0 h = es1 @ es2" "h1 = replay es1 h0" by blast
  ultimately show ?thesis unfolding object_at_def by blast
qed

text \<open>Claim C5. Queries of an object concurrent with one writer that adds and removes fields, and sets
  strings that are there or not: the getters of all types, strings read to their end, the existence, the type and the number of fields.
  No interleaving makes a reader fault, and its answer is right for the contents \<open>M\<close> that the
  object had at one moment between the start of the query and its end (the state \<open>h1\<close>, one that
  the run went through): queries are linearizable.\<close>

theorem object_swmr_reads:
  assumes "heap_wf h" and "slot_holds h slot Null" and "published slot h = {}"
    and "swmr_run (object_writer slot) \<lparr>shared = h, pending = [], threads = []\<rparr> s0"
    and "swmr_run (object_writer slot) (s0\<lparr>threads := map (query_reader slot) qs\<rparr>) s"
    and "j < length (threads s)"
  shows "threads s ! j \<noteq> Fail e \<and>
    (threads s ! j = Return a \<longrightarrow> (\<exists>es1 es2 h1 cap M B. events_of (shared s0) (shared s) = es1 @ es2 \<and>
      h1 = replay es1 (shared s0) \<and> object_at h1 slot cap M B \<and> a = answer (qs ! j) M))"
proof -
  note inv = obj_inv_start [OF assms(1-3)]
  have inv0: "obj_inv {} slot (shared s0)"
    using obj.writer_consistent [OF inv assms(4)] by (simp add: obj.consistent_def)
  have "reads (obj_guar {} slot) (map (query_reader slot) qs ! i) (shared s0) (obj_answered {} slot (shared s0) (qs ! i))"
    if "i < length (map (query_reader slot) qs)" for i
    using that query_reads [OF inv0] by simp
  note r = obj.readers_correct(1,2) [OF inv assms(4,5) this assms(6)]
  show ?thesis using r(1) obj_answered_between [OF r(2)] by blast
qed

text \<open>A run for the witnesses: the writer adds the field \<open>"hp"\<close>.\<close>

lemma add_hp_run:
  obtains h' cap B where "add_missing (Ptr 0 0) hp (\<lambda>h. msm_object_set_int32 h (Ptr 0 0) (Some hp) 7) start_heap = Inr h'"
    and "evolves (obj_guar {} (Ptr 0 0)) start_heap h'" and "obj_inv {} (Ptr 0 0) h'"
    and "object_at h' (Ptr 0 0) cap [field_key hp \<mapsto> VInt32 7] B"
proof -
  let ?set = "\<lambda>h. msm_object_set_int32 h (Ptr 0 0) (Some hp) 7"
  have p: "published (Ptr 0 0) start_heap = {}" by (simp add: start_heap_def)
  note inv = obj_inv_start [OF start_heap_facts(1,2) p]
  obtain h' cap B where h': "?set start_heap = Inr (0, h')"
      "object_at h' (Ptr 0 0) cap [field_key hp \<mapsto> VInt32 7] B"
    using set_int32_contract [OF start_heap_object, of hp 7] by (auto simp: set_contract_def)
  have "msm_object_has_field start_heap (Ptr 0 0) (Some hp) = Inr 0"
    using find_missing [OF start_heap_object, of hp] by (simp add: msm_object_has_field_def)
  then have run: "add_missing (Ptr 0 0) hp ?set start_heap = Inr h'" using h'(1) by (simp add: add_missing_def)
  have f: "add_missing (Ptr 0 0) hp ?set \<in> object_writer (Ptr 0 0)"
    unfolding object_writer_def by blast
  have ev: "evolves (obj_guar {} (Ptr 0 0)) start_heap h'" by (rule obj.ops_evolve [OF f inv run])
  have "obj_inv {} (Ptr 0 0) h'" using obj_evolves [OF ev inv] by simp
  with run ev show ?thesis using h'(2) by (rule that)
qed

theorem object_swmr_reads_witness:
  "\<exists>s0 s. swmr_run (object_writer (Ptr 0 0)) \<lparr>shared = start_heap, pending = [], threads = []\<rparr> s0 \<and>
     swmr_run (object_writer (Ptr 0 0)) (s0\<lparr>threads := [query_reader (Ptr 0 0) (AskInt32 hp)]\<rparr>) s \<and>
     threads s = [Return (Word32 7)]"
proof -
  let ?set = "\<lambda>h. msm_object_set_int32 h (Ptr 0 0) (Some hp) 7" and ?ops = "object_writer (Ptr 0 0)"
  obtain h' cap B where h': "add_missing (Ptr 0 0) hp ?set start_heap = Inr h'"
      "evolves (obj_guar {} (Ptr 0 0)) start_heap h'" "obj_inv {} (Ptr 0 0) h'"
      "object_at h' (Ptr 0 0) cap [field_key hp \<mapsto> VInt32 7] B"
    by (rule add_hp_run)
  have p: "published (Ptr 0 0) start_heap = {}" by (simp add: start_heap_def)
  have f: "add_missing (Ptr 0 0) hp ?set \<in> ?ops" unfolding object_writer_def by blast
  obtain a where a: "run_reader h' (query_reader (Ptr 0 0) (AskInt32 hp)) = Inr a"
    using reads_run [OF query_reads [OF h'(3)]] by blast
  let ?full = "\<lparr>shared = h', pending = [], threads = []\<rparr> :: obj_answer system"
  let ?seen = "\<lparr>shared = h', pending = [], threads = [Return a]\<rparr>"
  have w: "swmr_run ?ops \<lparr>shared = start_heap, pending = [], threads = []\<rparr> ?full"
    by (rule run_operation [OF f h'(1,2)])
  have r: "swmr_run ?ops (?full\<lparr>threads := map (query_reader (Ptr 0 0)) [AskInt32 hp]\<rparr>) ?seen"
    using run_undisturbed [OF a] by simp
  obtain cap1 M B1 where M: "object_at h' (Ptr 0 0) cap1 M B1" "a = answer (AskInt32 hp) M"
    using object_swmr_reads [OF start_heap_facts(1,2) p w r, where j = 0 and a = a] by (auto simp: events_of_def)
  have "int32_out (M (field_key hp)) = (case M (field_key hp) of Some (VInt32 x) \<Rightarrow> x | _ \<Rightarrow> 0)"
    by (cases "M (field_key hp)" rule: int32_out.cases) simp_all
  then have "a = Word32 7" using object_gets [OF M(1), of hp] object_gets [OF h'(4), of hp] M(2) by simp
  then show ?thesis using w r by (intro exI [of _ ?full] exI [of _ ?seen]) simp
qed

text \<open>Claim C6. The writer of an object has no data races: whatever write comes next, it touches no
  entry below the count of a buffer that was ever published and no value that such an entry points
  to, meets the pointer of the slot, the counts and the pointers of strings only as release stores, and
  frees nothing that readers may hold; a buffer that a reader holds keeps saying what it said, and
  the text of a string that a reader holds stays as it is.\<close>

theorem object_swmr_race_free:
  assumes "heap_wf h" and "slot_holds h slot Null" and "published slot h = {}"
    and "swmr_run (object_writer slot) \<lparr>shared = h, pending = [], threads = []\<rparr> s"
    and "pending s = e # es"
  shows "race_free (obj_plain slot (shared s)) (obj_sync slot (shared s)) e \<and>
    obj_grows slot (shared s) (apply_event e (shared s)) \<and>
    (\<forall>c \<in> obj_texts slot (shared s). blocks (apply_event e (shared s)) c = blocks (shared s) c) \<and>
    (\<forall>b \<in> obj_shared slot (shared s). e \<noteq> Free b)"
proof -
  have g: "obj_inv {} slot (shared s)" "obj_guar {} slot (shared s) e"
    using obj.next_write_guarded [OF obj_inv_start [OF assms(1-3)] assms(4,5)] by simp_all
  then have r: "race_free (obj_plain slot (shared s)) (obj_sync slot (shared s)) e" by (simp add: obj_guar_def)
  have "e \<noteq> Free b" if b: "b \<in> obj_shared slot (shared s)" for b
  proof
    assume e: "e = Free b"
    have "\<not> obj_plain slot (shared s) b 0" using r e by (auto simp: race_free_def)
    moreover have no: "(b, k, w) \<notin> obj_sync slot (shared s)" if "0 < w" for k w
    proof
      assume "(b, k, w) \<in> obj_sync slot (shared s)"
      moreover have "k \<le> k \<and> k < k + w \<and> touches e b k" using that e by simp
      ultimately show False using r e unfolding race_free_def by fast
    qed
    have "b \<noteq> blk slot" "b \<notin> published slot (shared s)" "b \<notin> obj_strings slot (shared s)"
      using no [of 8 "off slot + 8"] no [of 4 0] no [of 8 8] by (auto simp: obj_sync_def)
    moreover from b have "b = blk slot \<or> b \<in> published slot (shared s) \<or> b \<in> obj_texts slot (shared s) \<or>
        (\<exists>f \<in> obj_fields slot (shared s). b = fblock f)"
      by (auto simp: obj_shared_def obj_core_def)
    ultimately show False
      using \<open>\<not> obj_plain slot (shared s) b 0\<close> unfolding obj_plain_def obj_strings_def by blast
  qed
  moreover have "\<forall>c \<in> obj_texts slot (shared s). blocks (apply_event e (shared s)) c = blocks (shared s) c"
    using g(2) by (auto simp: obj_guar_def texts_kept_def obj_texts_def)
  ultimately show ?thesis using g r by (simp add: obj_guar_def)
qed

theorem object_swmr_race_free_witness:
  "\<exists>s e es. swmr_run (object_writer (Ptr 0 0))
     \<lparr>shared = start_heap, pending = [], threads = [] :: obj_answer reader list\<rparr> s \<and>
     pending s = e # es \<and> race_free (obj_plain (Ptr 0 0) (shared s)) (obj_sync (Ptr 0 0) (shared s)) e"
proof -
  let ?f = "add_missing (Ptr 0 0) hp (\<lambda>h. msm_object_set_int32 h (Ptr 0 0) (Some hp) 7)"
  let ?ops = "object_writer (Ptr 0 0)"
  let ?start = "\<lparr>shared = start_heap, pending = [], threads = [] :: obj_answer reader list\<rparr>"
  obtain h' cap B where h': "?f start_heap = Inr h'" "evolves (obj_guar {} (Ptr 0 0)) start_heap h'"
      "object_at h' (Ptr 0 0) cap [field_key hp \<mapsto> VInt32 7] B"
    using add_hp_run by metis
  have f: "?f \<in> ?ops" unfolding object_writer_def by blast
  have "events_of start_heap h' \<noteq> []"
  proof
    assume "events_of start_heap h' = []"
    then have "h' = start_heap" using evolves_allowed [OF h'(2)] by simp
    then show False using object_gets [OF h'(3), of hp] object_gets [OF start_heap_object, of hp] by simp
  qed
  then obtain e es where e: "events_of start_heap h' = e # es" by (cases "events_of start_heap h'") auto
  let ?called = "?start\<lparr>pending := events_of start_heap h'\<rparr>"
  have run: "swmr_run ?ops ?start ?called"
    using run_call [of ?f ?ops start_heap h' "[]" ?called] f h'(1) by simp
  have p: "published (Ptr 0 0) start_heap = {}" by (simp add: start_heap_def)
  show ?thesis
    using object_swmr_race_free [OF start_heap_facts(1,2) p run, of e es] run e
    by (intro exI [of _ ?called] exI [of _ e] exI [of _ es]) simp
qed

text \<open>Claim C27. Setting a scalar field that already exists is not safe beside readers: the one write
  it makes is a plain store into the value block, which readers of the field load plainly: a data
  race, whatever the old and the new value are.\<close>

theorem object_overwrite_races:
  assumes inv: "obj_inv {} slot h" and obj: "object_at h slot cap M B"
    and M: "M (field_key nm) = Some (VInt32 u)"
  shows "\<exists>e. msm_object_set_int32 h slot (Some nm) x = Inr (0, apply_event e h) \<and>
    \<not> race_free (obj_plain slot h) (obj_sync slot h) e"
proof -
  obtain fs where fs: "object_fs h slot cap fs B" "M = fields_map fs" using obj by (auto simp: object_at_def)
  obtain j where j: "field_pos (field_key nm) fs = Some j" "fval (fs ! j) = VInt32 u"
    using M fs(2) by (auto simp: fields_map_pos split: option.splits)
  let ?f = "fs ! j" and ?k = "field_key nm"
  obtain b where rep: "object_rep h slot b cap fs"
    and find: "object_find_entry_by_hash h slot ?k = Inr (Ptr b (8 + 24 * j))"
      "entry_type_id h (Ptr b (8 + 24 * j)) = Inr (value_type (fval ?f))"
      "entry_value_ptr h (Ptr b (8 + 24 * j)) = Inr (Ptr (fblock ?f) 0)" "field_at h ?f"
    using object_fs_find_Some [OF fs(1) j(1)] by metis
  let ?e = "Write Plain (fblock ?f) 4 (word_cells 4 x)"
  have "\<exists>cs. blocks h (fblock ?f) = Some cs \<and> length cs = 8"
    using find(4) j(2) by (auto simp: field_at_def value_cells_def)
  then have "store_u32 h (Ptr (fblock ?f) 4) x = Inr (apply_event ?e h)"
    by (auto simp: store_u32_def)
  then have run: "msm_object_set_int32 h slot (Some nm) x = Inr (0, apply_event ?e h)"
    using find j(2) obj_inv_facts(2) [OF inv] by (simp add: set_int32_scheme set_scheme_def)
  have "?f \<in> set fs" using field_pos_Some [OF j(1)] by simp
  moreover have "outline ?f = ?f" and ns: "\<not> is_string ?f" using j(2) by (simp_all add: outline_def is_string_def)
  moreover have now: "slot_holds h slot (Ptr b 0)" "obj_snap h slot b cap (map outline fs)"
    using object_rep_now [OF rep] by (simp_all add: obj_now_def)
  ultimately have "?f \<in> obj_fields slot h"
    using obj_snap_fields [OF obj_current(1) [OF inv now(1)] now(2)] by force
  then have "obj_plain slot h (fblock ?f) 4" using ns unfolding obj_plain_def by blast
  then have "\<not> race_free (obj_plain slot h) (obj_sync slot h) ?e" by (force simp: race_free_def)
  with run show ?thesis by blast
qed

theorem object_overwrite_races_witness:
  "\<exists>h' e. obj_inv {} (Ptr 0 0) h' \<and> msm_object_set_int32 h' (Ptr 0 0) (Some hp) 8 = Inr (0, apply_event e h') \<and>
     \<not> race_free (obj_plain (Ptr 0 0) h') (obj_sync (Ptr 0 0) h') e"
proof -
  obtain h' cap B where "obj_inv {} (Ptr 0 0) h'" "object_at h' (Ptr 0 0) cap [field_key hp \<mapsto> VInt32 7] B"
    using add_hp_run by metis
  then show ?thesis using object_overwrite_races [of "Ptr 0 0" h' cap _ B hp 7 8] by fastforce
qed

end
