(* ===== verification/Msm_Shared_Slot.thy ===== *)
theory Msm_Shared_Slot
  imports Msm_Object_Swmr_Props
begin

text \<open>
  What a shared value owes to its neighbours. An array, a string and an object each live behind a slot
  and own the buffers they have published; \<open>shared_slot\<close> states what the three have in common:
  their writer keeps off the blocks of others, and an operation on another slot leaves them, and what
  their readers rely on, as they are. The contract is what a segment with several of them needs.
\<close>

section \<open>The contract\<close>

locale shared_slot =
  fixes slot :: ptr
    and ops :: "(heap \<Rightarrow> heap res) set"
    and inv :: "nat set \<Rightarrow> heap \<Rightarrow> bool"
    and guar :: "nat set \<Rightarrow> heap \<Rightarrow> event \<Rightarrow> bool"
    and owned :: "heap \<Rightarrow> nat set"
  assumes guar_inv: "guar F h e \<Longrightarrow> inv F (apply_event e h)"
    and ops_evolve: "f \<in> ops \<Longrightarrow> inv F h \<Longrightarrow> f h = Inr h' \<Longrightarrow> evolves (guar F) h h'"
    and guar_avoids: "guar F h e \<Longrightarrow> avoids F slot e"
    and guar_alone: "guar F h e \<Longrightarrow> guar {} h e"
    and inv_others: "inv F h \<longleftrightarrow> inv {} h \<and> F \<inter> owned h = {} \<and> F \<subseteq> {..<next_block h}"
    and owned_live: "inv {} h \<Longrightarrow> insert (blk slot) (owned h) \<subseteq> {..<next_block h}"
    and undisturbed: "inv {} h \<Longrightarrow> event_ok h e \<Longrightarrow> avoids F other e \<Longrightarrow>
      insert (blk slot) (owned h) \<subseteq> F \<Longrightarrow> apart slot other \<Longrightarrow> blk other \<notin> owned h \<Longrightarrow>
      guar {} h e \<and> owned (apply_event e h) = owned h"

section \<open>Arrays\<close>

lemma arr_undisturbed:
  assumes inv: "arr_inv {} slot isz h" and e: "event_ok h e" "avoids F other e"
    and F: "insert (blk slot) (published slot h) \<subseteq> F" and ap: "apart slot other"
    and o: "blk other \<notin> published slot h"
  shows "arr_guar {} slot isz h e \<and> published slot (apply_event e h) = published slot h"
proof -
  obtain cap es where wf: "heap_wf h" and at: "array_at h slot isz cap es"
    and buf: "\<And>b. b \<in> published slot h \<Longrightarrow> arr_buffer slot isz h es b"
    and root: "blk slot \<notin> published slot h"
    using inv by (auto elim: arr_invE)
  obtain p where p: "slot_holds h slot p" using array_at_slot [OF at] by blast
  have pub: "published slot (apply_event e h) = published slot h"
    using F heap_wf_live [OF wf] slot_holds_live [OF p] by (intro avoids_published [OF e(2,1) _ ap]) auto
  have live: "c < next_block h" if "c \<in> published slot h" for c
    using buf [OF that] wf by (auto simp: arr_buffer_def dest: heap_wf_live)
  have same: "blocks (apply_event e h) c = blocks h c" if c: "c \<in> published slot h" for c
    using F c o live [OF c] by (intro avoids_blocks [OF e(2,1)]) auto
  have "slot_holds (apply_event e h) slot q = slot_holds h slot q" for q
    using F by (intro avoids_slot_iff [OF e(2,1) _ p ap wf]) simp
  note inv' = arr_inv_elsewhere [OF inv heap_wf_apply_event [OF wf] next_block_event pub this same]
  have "race_free (arr_plain slot isz h) (arr_sync slot h) e"
    by (rule avoids_race_free [OF e(2) F ap o]) (auto simp: arr_plain_def arr_sync_def)
  then show ?thesis using inv' pub by (simp add: arr_guar_def)
qed

interpretation arr_slot: shared_slot slot "array_writer slot isz" "\<lambda>F. arr_inv F slot isz"
    "\<lambda>F. arr_guar F slot isz" "published slot" for slot isz
proof
  fix F h e
  assume g: "arr_guar F slot isz h e"
  then show "arr_inv F slot isz (apply_event e h)" "avoids F slot e" by (simp_all add: arr_guar_def)
  from g show "arr_guar {} slot isz h e" by (simp add: arr_guar_def arr_inv_def)
next
  fix f F h h'
  assume "f \<in> array_writer slot isz" "arr_inv F slot isz h" "f h = Inr h'"
  then show "evolves (arr_guar F slot isz) h h'" by (rule arr.ops_evolve)
next
  fix h assume inv: "arr_inv {} slot isz h"
  show "insert (blk slot) (published slot h) \<subseteq> {..<next_block h}"
    using inv by (elim arr_invE) (fastforce simp: arr_buffer_def dest: heap_wf_live)
next
  fix h e F other
  assume "arr_inv {} slot isz h" "event_ok h e" "avoids F other e"
    "insert (blk slot) (published slot h) \<subseteq> F" "apart slot other" "blk other \<notin> published slot h"
  then show "arr_guar {} slot isz h e \<and> published slot (apply_event e h) = published slot h"
    by (rule arr_undisturbed)
qed (auto simp: arr_inv_def)

section \<open>Strings\<close>

lemma str_undisturbed:
  assumes inv: "str_inv {} slot h" and e: "event_ok h e" "avoids F other e"
    and F: "insert (blk slot) (published slot h) \<subseteq> F" and ap: "apart slot other"
    and o: "blk other \<notin> published slot h"
  shows "str_guar {} slot h e \<and> published slot (apply_event e h) = published slot h"
proof -
  note wf = str_inv_facts(1) [OF inv]
  obtain p where p: "slot_holds h slot p" using inv by (auto simp: str_inv_def)
  have pub: "published slot (apply_event e h) = published slot h"
    using F by (intro avoids_published [OF e(2,1) _ ap str_inv_live(1) [OF inv]]) simp
  have live: "c < next_block h" if "c \<in> published slot h" for c
    using inv that wf by (auto simp: str_inv_def str_buffer_def dest: heap_wf_live)
  have same: "blocks (apply_event e h) c = blocks h c" if c: "c \<in> published slot h" for c
    using F c o live [OF c] by (intro avoids_blocks [OF e(2,1)]) auto
  have slot: "slot_holds (apply_event e h) slot q = slot_holds h slot q" for q
    using F by (intro avoids_slot_iff [OF e(2,1) _ p ap wf]) simp
  have inv': "str_inv {} slot (apply_event e h)"
    using inv wf by (auto simp: str_inv_def pub slot str_buffer_def same)
  have "race_free (\<lambda>b j. b \<in> published slot h) {(blk slot, off slot + 8, 8)} e"
    by (rule avoids_race_free [OF e(2) F ap o]) auto
  then show ?thesis using inv' pub same by (simp add: str_guar_def)
qed

interpretation str_slot: shared_slot slot "string_writer slot" "\<lambda>F. str_inv F slot"
    "\<lambda>F. str_guar F slot" "published slot" for slot
proof
  fix F h e
  assume g: "str_guar F slot h e"
  then show "str_inv F slot (apply_event e h)" "avoids F slot e" by (simp_all add: str_guar_def)
  from g show "str_guar {} slot h e" by (simp add: str_guar_def str_inv_def)
next
  fix f F h h'
  assume "f \<in> string_writer slot" "str_inv F slot h" "f h = Inr h'"
  then show "evolves (str_guar F slot) h h'" by (rule str.ops_evolve)
next
  fix h assume inv: "str_inv {} slot h"
  then obtain p where "slot_holds h slot p" by (auto simp: str_inv_def)
  then have "blk slot < next_block h"
    using str_inv_facts(1) [OF inv] by (auto elim!: slot_holdsE dest: heap_wf_live)
  then show "insert (blk slot) (published slot h) \<subseteq> {..<next_block h}"
    using inv by (auto simp: str_inv_def str_buffer_def dest: heap_wf_live)
next
  fix h e F other
  assume "str_inv {} slot h" "event_ok h e" "avoids F other e"
    "insert (blk slot) (published slot h) \<subseteq> F" "apart slot other" "blk other \<notin> published slot h"
  then show "str_guar {} slot h e \<and> published slot (apply_event e h) = published slot h"
    by (rule str_undisturbed)
qed (auto simp: str_inv_def)

section \<open>Objects\<close>

definition obj_owned :: "ptr \<Rightarrow> heap \<Rightarrow> nat set" where
  "obj_owned slot h = obj_shared slot h - {blk slot}"

lemma obj_undisturbed:
  assumes inv: "obj_inv {} slot h" and e: "event_ok h e" "avoids F other e"
    and F: "insert (blk slot) (obj_owned slot h) \<subseteq> F" and ap: "apart slot other"
    and o: "blk other \<notin> obj_owned slot h"
  shows "obj_guar {} slot h e \<and> obj_owned slot (apply_event e h) = obj_owned slot h"
proof -
  let ?h' = "apply_event e h"
  note wf = obj_inv_facts(1) [OF inv]
  obtain p where p: "slot_holds h slot p" using inv by (auto simp: obj_inv_def)
  have pub: "published slot ?h' = published slot h"
    using F by (intro avoids_published [OF e(2,1) _ ap obj_inv_facts(7) [OF inv]]) simp
  have spub: "\<forall>vb \<in> obj_strings slot h. published (Ptr vb 0) ?h' = published (Ptr vb 0) h"
  proof
    fix vb assume vb: "vb \<in> obj_strings slot h"
    then have sh: "vb \<in> obj_shared slot h" "vb \<noteq> blk slot"
      using obj_strings_core by (auto simp: obj_shared_def elim: obj_stringsE)
    then have own: "vb \<in> obj_owned slot h" by (simp add: obj_owned_def)
    then have "apart (Ptr vb 0) other" using o by (auto simp: apart_def)
    then show "published (Ptr vb 0) ?h' = published (Ptr vb 0) h"
      using F own obj_shared_live [OF inv sh(1)] by (intro avoids_published [OF e(2,1)]) auto
  qed
  have same: "blocks ?h' c = blocks h c" if c: "c \<in> obj_shared slot h" "c \<noteq> blk slot" for c
    using F c o obj_shared_live [OF inv c(1)] by (intro avoids_blocks [OF e(2,1)]) (auto simp: obj_owned_def)
  have slot: "slot_holds ?h' slot q = slot_holds h slot q" for q
    using F by (intro avoids_slot_iff [OF e(2,1) _ p ap wf]) simp
  note inv' = obj_elsewhere [OF inv heap_wf_apply_event [OF wf] next_block_event pub spub slot same]
  have "race_free (obj_plain slot h) (obj_sync slot h) e"
  proof (rule avoids_race_free [OF e(2) F ap o])
    fix b j assume "obj_plain slot h b j"
    then show "b \<in> obj_owned slot h"
      using obj_plain_own [OF inv] obj_plain_shared by (simp add: obj_owned_def)
  next
    fix b k w assume s: "(b, k, w) \<in> obj_sync slot h"
    have "b \<noteq> blk slot \<or> b = blk slot \<and> k = off slot + 8 \<and> w = 8"
      using s obj_inv_facts(3) [OF inv] by (auto simp: obj_sync_def elim: obj_stringsE)
    then show "b \<in> obj_owned slot h \<or> b = blk slot \<and> k = off slot + 8 \<and> w = 8"
      using obj_sync_shared [OF s] by (auto simp: obj_owned_def)
  qed
  moreover have "obj_shared slot ?h' = obj_shared slot h"
    using inv' pub spub by (simp add: obj_shared_def obj_core_def obj_texts_def obj_strings_def)
  ultimately show ?thesis using inv' pub by (simp add: obj_guar_def obj_owned_def)
qed

interpretation obj_slot: shared_slot slot "object_writer slot" "\<lambda>F. obj_inv F slot"
    "\<lambda>F. obj_guar F slot" "obj_owned slot" for slot
proof
  fix F h e
  assume g: "obj_guar F slot h e"
  then show "obj_inv F slot (apply_event e h)" "avoids F slot e" by (simp_all add: obj_guar_def)
  from g show "obj_guar {} slot h e" by (simp add: obj_guar_def obj_inv_def)
next
  fix f F h h'
  assume "f \<in> object_writer slot" "obj_inv F slot h" "f h = Inr h'"
  then show "evolves (obj_guar F slot) h h'" by (rule obj.ops_evolve)
next
  fix h assume "obj_inv {} slot h"
  then show "insert (blk slot) (obj_owned slot h) \<subseteq> {..<next_block h}"
    using obj_shared_live obj_shared_intro(1) by (auto simp: obj_owned_def)
next
  fix h e F other
  assume "obj_inv {} slot h" "event_ok h e" "avoids F other e"
    "insert (blk slot) (obj_owned slot h) \<subseteq> F" "apart slot other" "blk other \<notin> obj_owned slot h"
  then show "obj_guar {} slot h e \<and> obj_owned slot (apply_event e h) = obj_owned slot h"
    by (rule obj_undisturbed)
qed (auto simp: obj_inv_def obj_owned_def)

end
