(* ===== verification/Msm_Region_Swmr.thy ===== *)
theory Msm_Region_Swmr
  imports Msm_Shared_Slot Msm_Dealloc_Props
begin

text \<open>
  A segment with several shared values: arrays, strings and objects at slots of their own, as the
  fields of a record have them, one writer that operates on any of them and readers of any of them.
  From the contract of the single slots follow the same guarantees for the whole: every reader is
  right about its field, and no write races with any reader.
\<close>

section \<open>A family of shared slots\<close>

lemma evolves_mono: "evolves G h h' \<Longrightarrow> (\<And>h e. G h e \<Longrightarrow> G' h e) \<Longrightarrow> evolves G' h h'"
  by (induction rule: evolves.induct) (auto intro: evolves.intros)

lemma reads_weaken: "reads G r h Q \<Longrightarrow> (\<And>h e. G' h e \<Longrightarrow> G h e) \<Longrightarrow> reads G' r h Q"
proof (induction r arbitrary: h)
  case (Load p n k)
  then show ?case by (auto simp del: evolves.simps, metis evolves_mono rangeI)
qed (auto intro: evolves_mono)

locale shared_region =
  fixes n :: nat
    and slot :: "nat \<Rightarrow> ptr"
    and ops :: "nat \<Rightarrow> (heap \<Rightarrow> heap res) set"
    and inv :: "nat \<Rightarrow> nat set \<Rightarrow> heap \<Rightarrow> bool"
    and guar :: "nat \<Rightarrow> nat set \<Rightarrow> heap \<Rightarrow> event \<Rightarrow> bool"
    and owned :: "nat \<Rightarrow> heap \<Rightarrow> nat set"
  assumes contract: "i < n \<Longrightarrow> shared_slot (slot i) (ops i) (inv i) (guar i) (owned i)"
begin

text \<open>The blocks that slot \<open>i\<close> has to keep off: those of the slots, and what the others own.\<close>

definition others :: "nat \<Rightarrow> heap \<Rightarrow> nat set" where
  "others i h = (\<Union>j<n. {blk (slot j)}) \<union> (\<Union>j\<in>{..<n} - {i}. owned j h)"

definition resting :: "heap \<Rightarrow> bool" where
  "resting h \<longleftrightarrow> (\<forall>i<n. inv i (others i h) h) \<and> (\<forall>i<n. \<forall>j<n. i \<noteq> j \<longrightarrow> apart (slot i) (slot j))"

definition each_inv :: "heap \<Rightarrow> bool" where
  "each_inv h \<longleftrightarrow> (\<forall>i<n. inv i {} h)"

definition each_guar :: "heap \<Rightarrow> event \<Rightarrow> bool" where
  "each_guar h e \<longleftrightarrow> (\<forall>i<n. guar i {} h e)"

lemma others_cong: "(\<And>j. j < n \<Longrightarrow> j \<noteq> i \<Longrightarrow> owned j h' = owned j h) \<Longrightarrow> others i h' = others i h"
  by (auto simp: others_def)

lemma resting_alone:
  assumes "resting h" and "j < n"
  shows "inv j {} h"
proof -
  have "inv j (others j h) h" using assms by (simp add: resting_def)
  then show ?thesis
    using shared_slot.inv_others [OF contract [OF assms(2)], of "others j h" h] by blast
qed

text \<open>An event of the writer of slot \<open>i\<close>, seen from slot \<open>j\<close>.\<close>

lemma neighbour:
  assumes ij: "i < n" "j < n" "j \<noteq> i" and ap: "apart (slot j) (slot i)"
    and g: "guar i (others i h0) h e" "event_ok h e" and inv: "inv j {} h"
    and own: "owned j h = owned j h0" "blk (slot i) \<notin> owned j h0"
  shows "guar j {} h e \<and> inv j {} (apply_event e h) \<and> owned j (apply_event e h) = owned j h0"
proof -
  have "avoids (others i h0) (slot i) e" by (rule shared_slot.guar_avoids [OF contract [OF ij(1)] g(1)])
  moreover have "insert (blk (slot j)) (owned j h) \<subseteq> others i h0"
    using ij own(1) by (auto simp: others_def)
  ultimately have "guar j {} h e \<and> owned j (apply_event e h) = owned j h"
    using shared_slot.undisturbed [OF contract [OF ij(2)] inv g(2)] ap own by simp
  then show ?thesis using shared_slot.guar_inv [OF contract [OF ij(2)]] own(1) by simp
qed

lemma operation:
  assumes f: "f \<in> ops i" and i: "i < n" and rest: "resting h" and run: "f h = Inr h'"
  shows "evolves each_guar h h' \<and> resting h'"
proof -
  let ?F = "others i h"
  note slot_i = contract [OF i]
  have inv_h: "inv j (others j h) h" if "j < n" for j using rest that by (simp add: resting_def)
  have alone: "inv j {} h" if "j < n" for j by (rule resting_alone [OF rest that])
  have root: "blk (slot i) \<notin> owned j h" if "j < n" for j
    using inv_h [OF that] shared_slot.inv_others [OF contract [OF that], of "others j h"] i
    by (auto simp: others_def)
  have ap: "apart (slot j) (slot i)" if "j < n" "j \<noteq> i" for j
    using rest that i by (simp add: resting_def)
  let ?I = "\<lambda>g. inv i ?F g \<and> (\<forall>j<n. j \<noteq> i \<longrightarrow> inv j {} g \<and> owned j g = owned j h)"
  have "evolves (guar i ?F) h h'" by (rule shared_slot.ops_evolve [OF slot_i f inv_h [OF i] run])
  then have ev: "evolves each_guar h h' \<and> ?I h'"
  proof (rule evolves_weaken [where I = ?I])
    show "?I h" using inv_h [OF i] alone by blast
  next
    fix g e assume I: "?I g" and e: "event_ok g e" "guar i ?F g e"
    have "guar j {} g e \<and> inv j {} (apply_event e g) \<and> owned j (apply_event e g) = owned j h"
      if "j < n" "j \<noteq> i" for j
      using neighbour [OF i that ap [OF that] e(2,1) _ _ root [OF that(1)]] I that by blast
    moreover have "guar i {} g e" by (rule shared_slot.guar_alone [OF slot_i e(2)])
    moreover have "inv i ?F (apply_event e g)" by (rule shared_slot.guar_inv [OF slot_i e(2)])
    ultimately show "each_guar g e \<and> ?I (apply_event e g)" by (auto simp: each_guar_def)
  qed
  have same: "owned j h' = owned j h" if "j < n" "j \<noteq> i" for j using ev that by blast
  have live: "insert (blk (slot j)) (owned j h') \<subseteq> {..<next_block h'}" if "j < n" for j
  proof (rule shared_slot.owned_live [OF contract [OF that]])
    show "inv j {} h'"
      using ev that shared_slot.inv_others [OF slot_i, of ?F h'] by (cases "j = i") auto
  qed
  have inv_i: "inv i ?F h'" using ev by simp
  have "inv j (others j h') h'" if j: "j < n" for j
  proof (cases "j = i")
    case True
    have "others i h' = ?F" using same by (rule others_cong)
    then show ?thesis using inv_i True by simp
  next
    case False
    have "?F \<inter> owned i h' = {}" using shared_slot.inv_others [OF slot_i, of ?F h'] inv_i by simp
    then have i_off: "owned i h' \<inter> owned j h = {}" using j False by (auto simp: others_def)
    have j_off: "others j h \<inter> owned j h = {}"
      using inv_h [OF j] shared_slot.inv_others [OF contract [OF j], of "others j h"] by simp
    have "others j h' \<subseteq> others j h \<union> owned i h'"
      using same by (auto simp: others_def)
    then have "others j h' \<inter> owned j h' = {}" using i_off j_off same [OF j False] by blast
    moreover have "others j h' \<subseteq> {..<next_block h'}" using live by (auto simp: others_def)
    moreover have "inv j {} h'" using ev j False by blast
    ultimately show ?thesis using shared_slot.inv_others [OF contract [OF j], of "others j h'"] by simp
  qed
  then show ?thesis using ev rest by (simp add: resting_def)
qed

end

sublocale shared_region \<subseteq> swmr_resting "\<Union>i<n. ops i" resting each_inv each_guar
proof
  fix h assume "resting h"
  then show "each_inv h" by (simp add: each_inv_def resting_alone)
next
  fix h e assume "each_guar h e"
  then show "each_inv (apply_event e h)"
    using shared_slot.guar_inv [OF contract] by (simp add: each_guar_def each_inv_def)
next
  fix f h h' assume "f \<in> (\<Union>i<n. ops i)" "resting h" "f h = Inr h'"
  then show "evolves each_guar h h' \<and> resting h'" using operation by blast
qed

section \<open>The shared values of a segment\<close>

datatype shared_value =
    SharedArray (place: ptr) u32
  | SharedString (place: ptr)
  | SharedObject (place: ptr)

text \<open>The values of a type that lie in the region itself: the fields of a record, also of records
  within records. What an array or an object holds is reached through it.\<close>

fun shared_values :: "ty \<Rightarrow> ptr \<Rightarrow> shared_value list"
  and shared_members :: "member list \<Rightarrow> nat \<Rightarrow> ptr \<Rightarrow> shared_value list" where
  "shared_values String p = [SharedString p]"
| "shared_values (Array t) p = [SharedArray p (item_size t)]"
| "shared_values Object p = [SharedObject p]"
| "shared_values (Record fs) p = shared_members fs 8 p"
| "shared_values _ p = []"
| "shared_members [] k p = []"
| "shared_members (Member n t # fs) k p = shared_values t (padd p k) @ shared_members fs (k + extent t) p"

fun value_ops :: "shared_value \<Rightarrow> (heap \<Rightarrow> heap res) set" where
  "value_ops (SharedArray p isz) = array_writer p isz"
| "value_ops (SharedString p) = string_writer p"
| "value_ops (SharedObject p) = object_writer p"

fun value_inv :: "shared_value \<Rightarrow> nat set \<Rightarrow> heap \<Rightarrow> bool" where
  "value_inv (SharedArray p isz) = (\<lambda>F. arr_inv F p isz)"
| "value_inv (SharedString p) = (\<lambda>F. str_inv F p)"
| "value_inv (SharedObject p) = (\<lambda>F. obj_inv F p)"

fun value_guar :: "shared_value \<Rightarrow> nat set \<Rightarrow> heap \<Rightarrow> event \<Rightarrow> bool" where
  "value_guar (SharedArray p isz) = (\<lambda>F. arr_guar F p isz)"
| "value_guar (SharedString p) = (\<lambda>F. str_guar F p)"
| "value_guar (SharedObject p) = (\<lambda>F. obj_guar F p)"

fun value_owned :: "shared_value \<Rightarrow> heap \<Rightarrow> nat set" where
  "value_owned (SharedArray p isz) = published p"
| "value_owned (SharedString p) = published p"
| "value_owned (SharedObject p) = obj_owned p"

text \<open>What readers of the value load plainly, and atomically.\<close>

fun value_plain :: "shared_value \<Rightarrow> heap \<Rightarrow> nat \<Rightarrow> nat \<Rightarrow> bool" where
  "value_plain (SharedArray p isz) = arr_plain p isz"
| "value_plain (SharedString p) = (\<lambda>h b j. b \<in> published p h)"
| "value_plain (SharedObject p) = obj_plain p"

fun value_sync :: "shared_value \<Rightarrow> heap \<Rightarrow> (nat \<times> nat \<times> nat) set" where
  "value_sync (SharedArray p isz) = arr_sync p"
| "value_sync (SharedString p) = (\<lambda>h. {(blk p, off p + 8, 8)})"
| "value_sync (SharedObject p) = obj_sync p"

text \<open>The writer of the segment: any operation of the writer of any of its values.\<close>

definition region_writer :: "shared_value list \<Rightarrow> (heap \<Rightarrow> heap res) set" where
  "region_writer vs = (\<Union>i<length vs. value_ops (vs ! i))"

lemma value_contract:
  "shared_slot (place v) (value_ops v) (value_inv v) (value_guar v) (value_owned v)"
proof (cases v)
  case (SharedArray p isz)
  then show ?thesis using arr_slot.shared_slot_axioms [of p isz] by simp
next
  case (SharedString p)
  then show ?thesis using str_slot.shared_slot_axioms [of p] by simp
next
  case (SharedObject p)
  then show ?thesis using obj_slot.shared_slot_axioms [of p] by simp
qed

interpretation region: shared_region "length vs" "\<lambda>i. place (vs ! i)" "\<lambda>i. value_ops (vs ! i)"
    "\<lambda>i. value_inv (vs ! i)" "\<lambda>i. value_guar (vs ! i)" "\<lambda>i. value_owned (vs ! i)" for vs
  by (intro shared_region.intro value_contract)

section \<open>Where it starts\<close>

definition region_start :: "shared_value list \<Rightarrow> heap \<Rightarrow> bool" where
  "region_start vs h \<longleftrightarrow> heap_wf h \<and>
     (\<forall>v \<in> set vs. slot_holds h (place v) Null \<and> published (place v) h = {} \<and>
        (\<forall>p isz. v = SharedArray p isz \<longrightarrow> isz \<noteq> 0)) \<and>
     sorted_wrt (\<lambda>v w. apart (place v) (place w)) vs"

lemma apart_sym: "apart p q = apart q p"
  by (auto simp: apart_def)

lemma region_start_inv:
  assumes "region_start vs h" and "v \<in> set vs" and "F \<subseteq> {..<next_block h}"
  shows "value_inv v F h"
proof -
  have h: "heap_wf h" "slot_holds h (place v) Null" "published (place v) h = {}"
    and isz: "\<And>p isz. v = SharedArray p isz \<Longrightarrow> isz \<noteq> 0"
    using assms(1,2) by (simp_all add: region_start_def)
  show ?thesis
    using h isz arr_inv_null [OF h _ assms(3)] str_inv_null [OF h assms(3)] obj_inv_null [OF h assms(3)]
    by (cases v) simp_all
qed

lemma region_start_owned: "region_start vs h \<Longrightarrow> v \<in> set vs \<Longrightarrow> value_owned v h = {}"
  by (cases v) (auto simp: region_start_def obj_owned_def obj_nothing)

lemma region_start_resting:
  assumes "region_start vs h"
  shows "region.resting vs h"
proof -
  have "blk (place v) < next_block h" if "v \<in> set vs" for v
  proof -
    have "heap_wf h" "slot_holds h (place v) Null" using assms that by (simp_all add: region_start_def)
    then show ?thesis using slot_holds_live heap_wf_live by fastforce
  qed
  then have "region.others vs i h \<subseteq> {..<next_block h}" for i
    using region_start_owned [OF assms] by (auto simp: region.others_def)
  then have "value_inv (vs ! i) (region.others vs i h) h" if "i < length vs" for i
    using region_start_inv [OF assms] that by simp
  moreover have "apart (place (vs ! i)) (place (vs ! j))" if ij: "i < length vs" "j < length vs" "i \<noteq> j" for i j
  proof (cases "i < j")
    case True
    then show ?thesis using assms ij by (simp add: region_start_def sorted_wrt_iff_nth_less)
  next
    case False
    then have "apart (place (vs ! j)) (place (vs ! i))"
      using assms ij by (simp add: region_start_def sorted_wrt_iff_nth_less)
    then show ?thesis by (simp add: apart_sym)
  qed
  ultimately show ?thesis by (simp add: region.resting_def)
qed

text \<open>The values of a type in zeroed memory: the slots follow one another, and are empty.\<close>

definition in_row :: "nat \<Rightarrow> nat \<Rightarrow> nat \<Rightarrow> shared_value list \<Rightarrow> bool" where
  "in_row b k m vs \<longleftrightarrow>
     (\<forall>v \<in> set vs. \<exists>j. place v = Ptr b j \<and> j mod 8 = 0 \<and> k \<le> j \<and> j + 16 \<le> m) \<and>
     sorted_wrt (\<lambda>v w. apart (place v) (place w)) vs"

lemma in_rowD:
  assumes "in_row b k m vs" and "v \<in> set vs"
  obtains j where "place v = Ptr b j" and "j mod 8 = 0" and "j + 16 \<le> m"
proof -
  from assms obtain j where "place v = Ptr b j \<and> j mod 8 = 0 \<and> k \<le> j \<and> j + 16 \<le> m"
    unfolding in_row_def by metis
  then show ?thesis by (elim conjE) (rule that)
qed

lemma in_row_append:
  assumes "in_row b k m vs" and "in_row b m n ws" and "k \<le> m" and "m \<le> n"
  shows "in_row b k n (vs @ ws)"
proof -
  have "apart (place v) (place w)" if vw: "v \<in> set vs" "w \<in> set ws" for v w
  proof -
    obtain i j where "place v = Ptr b i" "i + 16 \<le> m" "place w = Ptr b j" "m \<le> j"
      using assms(1,2) vw unfolding in_row_def by blast
    then show ?thesis by (simp add: apart_def)
  qed
  then show ?thesis
    using assms by (fastforce simp: in_row_def sorted_wrt_append)
qed

lemma shared_values_row: "k mod 8 = 0 \<Longrightarrow> in_row b k (k + extent t) (shared_values t (Ptr b k))"
  and shared_members_row:
    "(k + j) mod 8 = 0 \<Longrightarrow> in_row b (k + j) (k + j + fields_extent fs) (shared_members fs j (Ptr b k))"
proof (induction t and fs arbitrary: k and k j rule: ty_fields_induct)
  case (9 fs)
  have "(k + 8) mod 8 = 0" using 9(2) by simp
  then have "in_row b (k + 8) (k + 8 + fields_extent fs) (shared_members fs 8 (Ptr b k))"
    by (rule 9(1))
  then have "in_row b k (k + extent (Record fs)) (shared_members fs 8 (Ptr b k))"
    by (fastforce simp: in_row_def add.assoc)
  then show ?case by simp
next
  case (11 n t fs)
  have "(k + (j + extent t)) mod 8 = 0"
    using 11(3) extent_mod8 [of t] by (metis add.assoc add.right_neutral mod_add_eq mod_0)
  then have "in_row b (k + (j + extent t)) (k + (j + extent t) + fields_extent fs)
      (shared_members fs (j + extent t) (Ptr b k))"
    by (rule 11(2))
  moreover have "in_row b (k + j) (k + j + extent t) (shared_values t (Ptr b (k + j)))"
    using 11(3) by (rule 11(1))
  ultimately show ?case
    using in_row_append [of b "k + j" "k + j + extent t" "shared_values t (Ptr b (k + j))"
        "k + j + extent t + fields_extent fs"] by (simp add: add.assoc)
qed (auto simp: in_row_def)

text \<open>In memory that \<^verbatim>\<open>msm_alloc\<close> has zeroed, a value of any type starts like that.\<close>

lemma zeroed_region_start:
  assumes "heap_wf h" and "blocks h b = Some (replicate (extent t) (Byte 0))"
    and "\<And>k. published (Ptr b k) h = {}"
    and "\<And>p isz. SharedArray p isz \<in> set (shared_values t (Ptr b 0)) \<Longrightarrow> isz \<noteq> 0"
  shows "region_start (shared_values t (Ptr b 0)) h"
proof -
  have row: "in_row b 0 (extent t) (shared_values t (Ptr b 0))"
    using shared_values_row [of 0 b t] by simp
  have "slot_holds h (place v) Null \<and> published (place v) h = {}" if v: "v \<in> set (shared_values t (Ptr b 0))" for v
  proof -
    obtain j where j: "place v = Ptr b j" "j mod 8 = 0" "j + 16 \<le> extent t"
      using in_rowD [OF row v] .
    then have "slot_holds h (Ptr b j) Null" by (intro slot_holds_zero [OF assms(2)]) simp_all
    then show ?thesis using j(1) assms(3) by simp
  qed
  moreover have "sorted_wrt (\<lambda>v w. apart (place v) (place w)) (shared_values t (Ptr b 0))"
    using row by (simp add: in_row_def)
  moreover have "\<forall>p isz. v = SharedArray p isz \<longrightarrow> isz \<noteq> 0" if "v \<in> set (shared_values t (Ptr b 0))" for v
    using assms(4) that by blast
  ultimately show ?thesis using assms(1) unfolding region_start_def by simp
qed

section \<open>Readers\<close>

text \<open>What a reader asks: an element of an array, a string, or a query of an object; \<open>region_right\<close>
  is the right answer for the contents in one state.\<close>

datatype region_query = ReadElement ptr u32 u32 | ReadString ptr | ReadObject ptr obj_query

datatype region_answer = Element "cell list option" | Content "u8 list" | Answer obj_answer

fun asked :: "region_query \<Rightarrow> shared_value" where
  "asked (ReadElement p isz i) = SharedArray p isz"
| "asked (ReadString p) = SharedString p"
| "asked (ReadObject p q) = SharedObject p"

fun region_reader :: "region_query \<Rightarrow> region_answer reader" where
  "region_reader (ReadElement p isz i) = bindR (read_elementR p i isz) (\<lambda>v. Return (Element v))"
| "region_reader (ReadString p) = bindR (read_stringR p) (\<lambda>s. Return (Content s))"
| "region_reader (ReadObject p q) = bindR (query_reader p q) (\<lambda>a. Return (Answer a))"

fun region_right :: "heap \<Rightarrow> region_query \<Rightarrow> region_answer \<Rightarrow> bool" where
  "region_right h (ReadElement p isz i) r \<longleftrightarrow> (\<exists>cap es. array_at h p isz cap es \<and>
     r = Element (if unat i < length es then Some (es ! unat i) else None))"
| "region_right h (ReadString p) r \<longleftrightarrow>
     (\<exists>s. string_at h p s \<and> r = Content (takeWhile (\<lambda>c. c \<noteq> 0) s))"
| "region_right h (ReadObject p q) r \<longleftrightarrow> (\<exists>cap M B. object_at h p cap M B \<and> r = Answer (answer q M))"

text \<open>\<open>right_between h0 q r h\<close>: the answer is right for a state of the run from \<open>h0\<close> to \<open>h\<close>.\<close>

definition right_between :: "heap \<Rightarrow> region_query \<Rightarrow> region_answer \<Rightarrow> heap \<Rightarrow> bool" where
  "right_between h0 q r h \<longleftrightarrow> (\<exists>es1 es2 h1. events_of h0 h = es1 @ es2 \<and> h1 = replay es1 h0 \<and>
     region_right h1 q r)"

lemma right_betweenI:
  assumes "evolves G h0 h1" and "evolves G h1 h" and "region_right h1 q r"
  shows "right_between h0 q r h"
  using evolves_between [OF assms(1,2)] assms(3) by (auto simp: right_between_def)

lemma reads_wrap:
  assumes "reads G r h Q" and "\<And>v h'. Q v h' \<Longrightarrow> evolves G h h' \<Longrightarrow> P (f v) h'"
    and "\<And>v h' h''. P v h' \<Longrightarrow> evolves G h' h'' \<Longrightarrow> P v h''"
  shows "reads G (bindR r (\<lambda>v. Return (f v))) h P"
proof (rule reads_bindR, rule reads_mono)
  show "reads G r h (\<lambda>v h'. Q v h' \<and> evolves G h h')"
    by (rule reads_since [OF assms(1) evolves_refl])
  show "reads G (Return (f v)) h' P" if "Q v h' \<and> evolves G h h'" for v h'
    unfolding reads.simps using that assms(2,3) by blast
qed

lemma right_later:
  assumes "evolves G h0 h" and "evolves G h h'" and "right_between h0 q r h"
  shows "right_between h0 q r h'"
proof -
  have "events_of h0 h' = events_of h0 h @ events_of h h'"
    using evolves_allowed [OF assms(1)] evolves_allowed [OF assms(2)]
    by (metis append_assoc append_eq_conv_conj events_of_def)
  then show ?thesis using assms(3) unfolding right_between_def by (metis append_assoc)
qed

text \<open>One reader beside the writer of its own value, then beside the writer of the segment.\<close>

lemma value_reads:
  assumes "value_inv (asked q) {} h"
  shows "reads (value_guar (asked q) {}) (region_reader q) h
    (\<lambda>r h'. right_between h q r h' \<and> evolves (value_guar (asked q) {}) h h')"
proof (cases q)
  case (ReadElement p isz i)
  let ?G = "arr_guar {} p isz"
  have inv: "arr_inv {} p isz h" using assms ReadElement by simp
  obtain cap0 es0 where at: "array_at h p isz cap0 es0" using inv by (auto simp: arr_inv_def)
  have "reads ?G (read_elementR p i isz) h (element_seen p isz i es0)"
    by (rule read_element_reads [OF inv at])
  then have "reads ?G (bindR (read_elementR p i isz) (\<lambda>v. Return (Element v))) h
      (\<lambda>r h'. right_between h q r h' \<and> evolves ?G h h')"
  proof (rule reads_wrap)
    fix v h' assume v: "element_seen p isz i es0 v h'" and ev: "evolves ?G h h'"
    show "right_between h q (Element v) h' \<and> evolves ?G h h'"
    proof (cases v)
      case None
      then have "region_right h q (Element v)"
        using v at ReadElement by (auto simp: element_seen_def intro!: exI [of _ cap0] exI [of _ es0])
      then show ?thesis using right_betweenI [OF evolves_refl ev] ev by blast
    next
      case (Some xs)
      then have "region_right h' q (Element v)"
        using v ReadElement by (fastforce simp: element_seen_def)
      then show ?thesis using right_betweenI [OF ev evolves_refl] ev by blast
    qed
  qed (auto intro: right_later evolves_trans)
  then show ?thesis using ReadElement by simp
next
  case (ReadString p)
  let ?G = "str_guar {} p"
  have inv: "str_inv {} p h" using assms ReadString by simp
  have "reads ?G (bindR (read_stringR p) (\<lambda>s. Return (Content s))) h
      (\<lambda>r h'. right_between h q r h' \<and> evolves ?G h h')"
  proof (rule reads_wrap [OF read_string_reads [OF inv]])
    fix v h' assume v: "string_seen {} p h v h'" and ev: "evolves ?G h h'"
    then obtain h1 s where "evolves ?G h h1" "evolves ?G h1 h'" "region_right h1 q (Content v)"
      using ReadString by (auto simp: text_seen_def)
    then show "right_between h q (Content v) h' \<and> evolves ?G h h'" using right_betweenI ev by blast
  qed (auto intro: right_later evolves_trans)
  then show ?thesis using ReadString by simp
next
  case (ReadObject p oq)
  let ?G = "obj_guar {} p"
  have inv: "obj_inv {} p h" using assms ReadObject by simp
  have "reads ?G (bindR (query_reader p oq) (\<lambda>a. Return (Answer a))) h
      (\<lambda>r h'. right_between h q r h' \<and> evolves ?G h h')"
  proof (rule reads_wrap [OF query_reads [OF inv]])
    fix v h' assume v: "obj_answered {} p h oq v h'" and ev: "evolves ?G h h'"
    from obj_answered_between [OF v] have "right_between h q (Answer v) h'"
      unfolding right_between_def ReadObject region_right.simps by blast
    then show "right_between h q (Answer v) h' \<and> evolves ?G h h'" using ev by blast
  qed (auto intro: right_later evolves_trans)
  then show ?thesis using ReadObject by simp
qed

section \<open>The properties\<close>

lemma each_guarD: "region.each_guar vs h e \<Longrightarrow> i < length vs \<Longrightarrow> value_guar (vs ! i) {} h e"
  by (simp add: region.each_guar_def)

lemma region_reader_reads:
  assumes inv: "region.each_inv vs h" and q: "asked q \<in> set vs"
  shows "reads (region.each_guar vs) (region_reader q) h (\<lambda>r h'. right_between h q r h')"
proof -
  obtain i where i: "i < length vs" "vs ! i = asked q" using q by (auto simp: in_set_conv_nth)
  have "value_inv (asked q) {} h" using inv i by (auto simp: region.each_inv_def)
  then have "reads (value_guar (asked q) {}) (region_reader q) h (\<lambda>r h'. right_between h q r h')"
    by (intro reads_mono [OF value_reads]) simp_all
  then show ?thesis
    by (rule reads_weaken) (use i each_guarD in metis)
qed

text \<open>A record with a string and an array, in a fresh region; a run in which the writer pushes an
  element and then sets the string.\<close>

definition pair_type :: ty where
  "pair_type = Record [Member [110, 0] String, Member [120, 115, 0] (Array Int64)]"

definition region_heap :: heap where
  "region_heap = \<lparr>blocks = [0 \<mapsto> replicate 40 (Byte 0)], next_block = 1, oom = (\<lambda>_ _. False), trace = []\<rparr>"

abbreviation pair_values :: "shared_value list" where
  "pair_values \<equiv> [SharedString (Ptr 0 8), SharedArray (Ptr 0 24) 16]"

lemma pair_type_values: "shared_values pair_type (Ptr 0 0) = pair_values"
  by (simp add: pair_type_def item_size_def)

lemma region_heap_start: "region_start pair_values region_heap"
proof -
  have "region_start (shared_values pair_type (Ptr 0 0)) region_heap"
  proof (rule zeroed_region_start)
    show "heap_wf region_heap" by (simp add: region_heap_def heap_wf_def)
    show "blocks region_heap 0 = Some (replicate (extent pair_type) (Byte 0))"
      by (simp add: region_heap_def pair_type_def header_size_def)
    show "published (Ptr 0 k) region_heap = {}" for k by (simp add: region_heap_def)
    show "isz \<noteq> 0" if "SharedArray p isz \<in> set (shared_values pair_type (Ptr 0 0))" for p isz
      using that by (auto simp: pair_type_values)
  qed
  then show ?thesis by (simp add: pair_type_values)
qed

lemma region_operation:
  assumes "f \<in> region_writer vs" and "region.resting vs h" and "f h = Inr h'"
  shows "swmr_run (region_writer vs) \<lparr>shared = h, pending = [], threads = ts\<rparr>
      \<lparr>shared = h', pending = [], threads = ts\<rparr>"
    and "region.resting vs h'" and "evolves (region.each_guar vs) h h'"
  using region.ops_rest [OF assms(1) [unfolded region_writer_def] assms(2,3)] run_operation [OF assms(1,3)]
  by blast+

text \<open>Claim C1. A segment with several shared values, as the fields of a record: one writer that
  operates on any of them (reserving and pushing, setting and clearing strings, adding and removing
  object fields) and any number of readers of any of them, interleaved freely. No reader ever faults,
  and each answer is right for the contents that the value had at one moment between the start of the
  read and its end, whatever the writer does to this value and to its neighbours.\<close>

theorem region_swmr_reads:
  assumes "region_start vs h"
    and "swmr_run (region_writer vs) \<lparr>shared = h, pending = [], threads = []\<rparr> s0"
    and "swmr_run (region_writer vs) (s0\<lparr>threads := map region_reader qs\<rparr>) s"
    and "asked ` set qs \<subseteq> set vs" and "j < length (threads s)"
  shows "threads s ! j \<noteq> Fail e \<and>
    (threads s ! j = Return r \<longrightarrow> right_between (shared s0) (qs ! j) r (shared s))"
proof -
  note start = region_start_resting [OF assms(1)]
  have inv0: "region.each_inv vs (shared s0)"
    using region.writer_consistent [OF start assms(2) [unfolded region_writer_def]] by (simp add: region.consistent_def)
  have "reads (region.each_guar vs) (map region_reader qs ! i) (shared s0)
      (\<lambda>r h'. right_between (shared s0) (qs ! i) r h')"
    if "i < length (map region_reader qs)" for i
    using that assms(4) by (simp add: region_reader_reads [OF inv0] image_subset_iff)
  note r = region.readers_correct(1,2) [OF start assms(2,3) [unfolded region_writer_def] this assms(5)]
  show ?thesis using r by blast
qed

theorem region_swmr_reads_witness:
  "\<exists>s0 s r. swmr_run (region_writer pair_values) \<lparr>shared = region_heap, pending = [], threads = []\<rparr> s0 \<and>
     swmr_run (region_writer pair_values) (s0\<lparr>threads := [region_reader (ReadElement (Ptr 0 24) 16 0)]\<rparr>) s \<and>
     threads s = [Return r] \<and> r = Element (Some (replicate 16 (Byte 7))) \<and>
     right_between (shared s0) (ReadElement (Ptr 0 24) 16 0) r (shared s)"
proof -
  let ?xs = "replicate 16 (Byte 7)" and ?a = "Ptr 0 24" and ?s = "Ptr 0 8" and ?vs = pair_values
  let ?q = "ReadElement ?a 16 0" and ?hi = "[104, 105] :: u8 list"
  note start = region_start_resting [OF region_heap_start]
  have wf: "heap_wf region_heap" by (simp add: region_heap_def heap_wf_def)
  have "array_at region_heap ?a 16 0 []"
    by (simp add: array_at_def region_heap_def slot_holds_def ptr_cells.simps)
  then obtain p h1 h2 h3 cap where push: "msm_array_prepare_push region_heap ?a 16 = Inr (p, h1)"
      "store_cells Plain h1 p ?xs = Inr h2" "msm_array_commit_push h2 ?a = Inr h3"
      "array_at h3 ?a 16 cap ([] @ [?xs])" "heap_wf h3" "oom h3 = oom region_heap"
    by (rule push_protocol_runs [where xs = ?xs, OF _ wf])
      (auto simp: can_push_def grown_cap_def region_heap_def)
  have run1: "push_element ?a 16 ?xs region_heap = Inr h3" using push by (simp add: push_element_def)
  have f1: "push_element ?a 16 ?xs \<in> region_writer ?vs"
    by (auto simp: region_writer_def array_writer_def intro!: bexI [of _ 1])
  note step1 = region_operation [OF f1 start run1]
  have "value_inv (?vs ! 0) {} h3" using region.resting_alone [OF step1(2), of 0] by simp
  then obtain q where q: "slot_holds h3 ?s q" by (auto simp: str_inv_def)
  obtain h4 where run2: "msm_string_set h3 ?s (Some ?hi) 2 = Inr h4"
    using string_set_runs [OF q push(5), of 2 ?hi] push(6) by (auto simp: region_heap_def)
  have f2: "(\<lambda>h. msm_string_set h ?s (Some ?hi) 2) \<in> region_writer ?vs"
  proof -
    have "(\<lambda>h. msm_string_set h ?s (Some ?hi) 2) \<in> string_writer ?s"
      unfolding string_writer_def by (intro UnI2 CollectI exI [of _ ?hi] exI [of _ 2]) simp
    then show ?thesis by (auto simp: region_writer_def intro!: bexI [of _ 0])
  qed
  note step2 = region_operation [OF f2 step1(2) run2]
  let ?s0 = "\<lparr>shared = h4, pending = [], threads = []\<rparr> :: region_answer system"
  have w: "swmr_run (region_writer ?vs) \<lparr>shared = region_heap, pending = [], threads = []\<rparr> ?s0"
    using step1(1) step2(1) by (rule rtranclp_trans)
  \<comment> \<open>the element is still there, and the reader finds it\<close>
  have "region.each_inv ?vs h4" using region.rest_inv [OF step2(2)] .
  note rd = reads_run [OF region_reader_reads [OF this, of ?q]]
  obtain r where r: "run_reader h4 (region_reader ?q) = Inr r" "right_between h4 ?q r h4"
    using rd by auto
  have "evolves (arr_guar {} ?a 16) h3 h4"
    using step2(3) by (rule evolves_mono) (use each_guarD [of ?vs _ _ 1] in simp)
  moreover have inv3: "arr_inv {} ?a 16 h3" using region.resting_alone [OF step1(2), of 1] by simp
  ultimately have grow: "arr_grows ?a 16 h3 h4" using arr_evolves by blast
  obtain cap' es where es: "array_at h4 ?a 16 cap' es" "r = Element (if 0 < length es then Some (es ! 0) else None)"
    using r(2) by (auto simp: right_between_def events_of_def)
  then have "take 1 es = [?xs]" using grow push(4) unfolding arr_grows_def by fastforce
  then have re: "r = Element (Some ?xs)" using es(2) by (cases es) auto
  let ?s1 = "\<lparr>shared = h4, pending = [], threads = [Return r]\<rparr>"
  have rr: "swmr_run (region_writer ?vs) (?s0\<lparr>threads := map region_reader [?q]\<rparr>) ?s1"
    using run_undisturbed [OF r(1)] by simp
  have "right_between h4 ?q r h4"
    using region_swmr_reads [OF region_heap_start w rr, of 0] by simp
  then show ?thesis using w rr re by (intro exI [of _ ?s0] exI [of _ ?s1]) simp
qed

text \<open>Claim C2. No write of the writer of such a segment races with any reader: whatever write comes
  next, on whichever of the values, it touches nothing that readers of any of them load plainly, and
  what they load atomically only as release stores of the whole place.\<close>

theorem region_swmr_race_free:
  assumes "region_start vs h"
    and "swmr_run (region_writer vs) \<lparr>shared = h, pending = [], threads = []\<rparr> s"
    and "pending s = e # es" and "v \<in> set vs"
  shows "race_free (value_plain v (shared s)) (value_sync v (shared s)) e"
proof -
  obtain i where i: "i < length vs" "vs ! i = v" using assms(4) by (auto simp: in_set_conv_nth)
  have "region.each_guar vs (shared s) e"
    using region.next_write_guarded [OF region_start_resting [OF assms(1)] assms(2) [unfolded region_writer_def] assms(3)]
    by simp
  then have "value_guar v {} (shared s) e" using i each_guarD by metis
  then show ?thesis
    by (cases v) (simp_all add: arr_guar_def str_guar_def obj_guar_def)
qed

theorem region_swmr_race_free_witness:
  "\<exists>s e. swmr_run (region_writer pair_values)
     \<lparr>shared = region_heap, pending = [], threads = [] :: region_answer reader list\<rparr> s \<and> pending s = [e] \<and>
     race_free (value_plain (SharedArray (Ptr 0 24) 16) (shared s)) {(0, 32, 8)} e"
proof -
  let ?f = "\<lambda>h. msm_string_clear h (Ptr 0 8)" and ?ops = "region_writer pair_values"
  let ?e = "Write (Atomic Release) 0 16 (ptr_cells Null)"
  let ?called = "\<lparr>shared = region_heap, pending = [?e], threads = [] :: region_answer reader list\<rparr>"
  have "slot_holds region_heap (Ptr 0 8) Null"
    by (simp add: region_heap_def slot_holds_def ptr_cells.simps)
  from store_slot [OF this, of Null Release] have run: "?f region_heap = Inr (apply_event ?e region_heap)"
    by (simp add: msm_string_clear_def)
  have f: "?f \<in> ?ops" by (auto simp: region_writer_def string_writer_def intro!: bexI [of _ 0])
  have ev: "events_of region_heap (apply_event ?e region_heap) = [?e]" by (simp add: events_of_def)
  have w: "swmr_run ?ops \<lparr>shared = region_heap, pending = [], threads = []\<rparr> ?called"
    using run_call [OF f, where h = region_heap and ts = "[]" and s = ?called] run ev by simp
  have "published (Ptr 0 24) region_heap = {}" by (simp add: region_heap_def)
  then show ?thesis
    using region_swmr_race_free [OF region_heap_start w, of ?e "[]" "SharedArray (Ptr 0 24) 16"] w
    by (intro exI [of _ ?called] exI [of _ ?e]) (simp add: arr_sync_def)
qed

end
