(* ===== verification/Msm_Wait_Free.thy ===== *)
theory Msm_Wait_Free
  imports Msm_Region_Swmr
begin

text \<open>
  Wait freedom: how many steps of its own a reader needs, whatever the writer and the other readers
  do between them. A reader is never blocked and never starts again; what is shown here is that it
  ends, with a right answer, after as many loads as the contents of the value at one moment of the
  read ask for: three for an element of an array, one for each character of a string and one for
  each field of an object, and a few more.
\<close>

section \<open>Counting loads\<close>

text \<open>\<open>tally r n\<close> is the reader \<open>r\<close> that also returns the number of loads, counted from \<open>n\<close>.\<close>

primrec tally :: "'v reader \<Rightarrow> nat \<Rightarrow> ('v \<times> nat) reader" where
  "tally (Return v) = (\<lambda>n. Return (v, n))"
| "tally (Fail e) = (\<lambda>n. Fail e)"
| "tally (Load p m k) = (\<lambda>n. Load p m (\<lambda>xs. tally (k xs) (Suc n)))"

lemma run_tally: "run_reader h (tally r n) = Inr (v, c) \<Longrightarrow> run_reader h r = Inr v \<and> n \<le> c"
proof (induction r arbitrary: n)
  case (Load p m k)
  then obtain xs where "load_cells h p m = Inr xs" "run_reader h (tally (k xs) (Suc n)) = Inr (v, c)"
    by (auto split: sum.splits)
  then show ?case using Load.IH [OF rangeI] by fastforce
qed auto

text \<open>\<open>pays r n w\<close>: when \<open>r\<close> returns \<open>v\<close>, it has made at most \<open>w v\<close> loads, counted from
  \<open>n\<close>, whatever it loads.\<close>

primrec pays :: "'v reader \<Rightarrow> nat \<Rightarrow> ('v \<Rightarrow> nat) \<Rightarrow> bool" where
  "pays (Return v) = (\<lambda>n w. n \<le> w v)"
| "pays (Fail e) = (\<lambda>n w. True)"
| "pays (Load p m k) = (\<lambda>n w. \<forall>xs. pays (k xs) (Suc n) w)"

lemma pays_mono: "pays r m u \<Longrightarrow> n \<le> m \<Longrightarrow> (\<And>v. u v \<le> w v) \<Longrightarrow> pays r n w"
proof (induction r arbitrary: m n)
  case (Return v)
  then show ?case by (simp, meson order_trans)
next
  case (Load p l k)
  have "pays (k xs) (Suc n) w" for xs
    by (rule Load.IH [OF rangeI _ _ Load.prems(3)]) (use Load.prems(1,2) in auto)
  then show ?case by simp
qed simp

lemma pays_bindR:
  "pays m n u \<Longrightarrow> (\<And>v k. k \<le> u v \<Longrightarrow> pays (f v) k w) \<Longrightarrow> pays (bindR m f) n w"
  by (induction m arbitrary: n) auto

lemma pays_Return: "n \<le> w v \<Longrightarrow> pays (Return v) n w"
  by simp

lemma pays_if: "pays r n w \<Longrightarrow> pays r' n w \<Longrightarrow> pays (if c then r else r') n w"
  by simp

lemma pays_liftR: "pays (liftR r) n (\<lambda>_. n)"
  by (cases r) simp_all

lemma pays_readR: "pays (readR p m) n (\<lambda>_. Suc n)"
  by (simp add: readR_def)

lemma pays_load:
  "pays (load_wordR p m) n (\<lambda>_. Suc n)" "pays (load_ptrR p) n (\<lambda>_. Suc n)"
  unfolding load_wordR_def load_ptrR_def
  by (rule pays_bindR [OF pays_readR], rule pays_mono [OF pays_liftR]; simp)+

lemma pays_atomic:
  "pays (atomic_load_u32R p) n (\<lambda>_. Suc n)" "pays (atomic_load_ptrR p) n (\<lambda>_. Suc n)"
  by (simp_all add: atomic_load_u32R_def atomic_load_ptrR_def pays_load)

lemma reads_tally:
  assumes "reads G r h Q" and "pays r n w"
  shows "reads G (tally r n) h (\<lambda>(v, c) h'. Q v h' \<and> c \<le> w v)"
  using assms
proof (induction r arbitrary: h n)
  case (Load p m k)
  have k: "pays (k xs) (Suc n) w" for xs using Load.prems(2) by simp
  show ?case
    unfolding tally.simps reads.simps
  proof (intro allI impI)
    fix h' assume "evolves G h h'"
    then obtain xs where "load_cells h' p m = Inr xs" "reads G (k xs) h' Q"
      using Load.prems(1) by fastforce
    then show "\<exists>xs. load_cells h' p m = Inr xs \<and>
        reads G (tally (k xs) (Suc n)) h' (\<lambda>(v, c) h'. Q v h' \<and> c \<le> w v)"
      using Load.IH [OF rangeI _ k] by blast
  qed
qed simp_all

text \<open>A reader in two parts, where the first part finds out how much the second has to pay.\<close>

lemma reads_tally_bindR:
  assumes "reads G m h P" and "reads G (bindR m f) h Q" and "pays m n u"
    and "\<And>x k. k \<le> u x \<Longrightarrow> pays (f x) k (w x)"
    and "\<And>x h' h''. P x h' \<Longrightarrow> evolves G h' h'' \<Longrightarrow> P x h''"
  shows "reads G (tally (bindR m f) n) h (\<lambda>(v, c) h'. Q v h' \<and> (\<exists>x. P x h' \<and> c \<le> w x v))"
  using assms(1-3)
proof (induction m arbitrary: h n)
  case (Return x)
  have P: "P x h" using Return.prems(1) evolves_refl by fastforce
  have "reads G (f x) h (\<lambda>v h'. Q v h' \<and> evolves G h h')"
    using Return.prems(2) by (intro reads_since [OF _ evolves_refl]) simp
  moreover have "pays (f x) n (w x)" using Return.prems(3) assms(4) by simp
  ultimately have "reads G (tally (f x) n) h (\<lambda>(v, c) h'. (Q v h' \<and> evolves G h h') \<and> c \<le> w x v)"
    by (rule reads_tally)
  then show ?case
    unfolding bindR.simps by (rule reads_mono) (use P assms(5) in blast)
next
  case (Load p l k)
  show ?case
    unfolding bindR.simps tally.simps reads.simps
  proof (intro allI impI)
    fix h' assume ev: "evolves G h h'"
    obtain xs where xs: "load_cells h' p l = Inr xs" "reads G (k xs) h' P" "reads G (bindR (k xs) f) h' Q"
      using Load.prems(1,2) ev by fastforce
    have "pays (k xs) (Suc n) u" using Load.prems(3) by simp
    from Load.IH [OF rangeI xs(2,3) this] xs(1)
    show "\<exists>xs. load_cells h' p l = Inr xs \<and> reads G (tally (bindR (k xs) f) (Suc n)) h'
        (\<lambda>(v, c) h'. Q v h' \<and> (\<exists>x. P x h' \<and> c \<le> w x v))" by blast
  qed
qed simp

section \<open>The steps of one reader\<close>

text \<open>\<open>own_steps ops j n s s'\<close>: a run from \<open>s\<close> to \<open>s'\<close> in which reader \<open>j\<close> makes
  \<open>n\<close> steps, among any number of steps of the writer and of the other readers. A step of the reader
  is one that changes the rest of its program, as every load does.\<close>

lemma load_progress: "k xs \<noteq> Load p m k"
proof -
  have "r = Load p m k \<longrightarrow> k xs \<noteq> r" for r :: "'a reader" and p m k xs
    by (induction r arbitrary: p m k xs) (auto, metis rangeI)
  then show ?thesis by blast
qed

inductive own_steps ::
    "(heap \<Rightarrow> heap res) set \<Rightarrow> nat \<Rightarrow> nat \<Rightarrow> 'v system \<Rightarrow> 'v system \<Rightarrow> bool" for ops j where
  start: "own_steps ops j 0 s s"
| other: "own_steps ops j n s s' \<Longrightarrow> swmr_step ops s' s'' \<Longrightarrow> threads s'' ! j = threads s' ! j \<Longrightarrow>
    own_steps ops j n s s''"
| own: "own_steps ops j n s s' \<Longrightarrow> swmr_step ops s' s'' \<Longrightarrow> threads s'' ! j \<noteq> threads s' ! j \<Longrightarrow>
    own_steps ops j (Suc n) s s''"

lemma own_steps_run: "own_steps ops j n s s' \<Longrightarrow> swmr_run ops s s'"
  by (induction rule: own_steps.induct) auto

context swmr_resting
begin

lemma own_steps_tally:
  assumes "own_steps ops j n s s'" and "consistent s" and "j < length (threads s)"
    and "reads guar (tally (threads s ! j) 0) (shared s) Q"
  shows "consistent s' \<and> length (threads s') = length (threads s) \<and>
    reads guar (tally (threads s' ! j) n) (shared s') Q"
  using assms
proof (induction rule: own_steps.induct)
  case start
  then show ?case by simp
next
  case (other n s s' s'')
  note c = step_consistent [OF other.hyps(2)]
  have "length (threads s'') = length (threads s')" using swmr_run_threads other.hyps(2) by blast
  then show ?case using c other.IH [OF other.prems] other.hyps(3) reads_later by auto
next
  case (own n s s' s'')
  note c = step_consistent [OF own.hyps(2)] and IH = own.IH [OF own.prems]
  have len: "length (threads s'') = length (threads s')" using swmr_run_threads own.hyps(2) by blast
  from own.hyps(2) have "reads guar (tally (threads s'' ! j) (Suc n)) (shared s'') Q"
  proof (cases rule: swmr_step.cases)
    case (load i p m k xs)
    have "i = j" using own.hyps(3) load(1) by (cases "i = j") simp_all
    then show ?thesis using load IH own.prems(2) evolves_refl [of guar "shared s'"] by fastforce
  next
    case (fault i p m k e)
    have "i = j" using own.hyps(3) fault(1) by (cases "i = j") simp_all
    then show ?thesis using fault IH own.prems(2) evolves_refl [of guar "shared s'"] by fastforce
  qed (use own.hyps(3) in simp_all)
  then show ?case using c len IH by simp
qed

text \<open>What is left of the reader after its steps: it has returned, or its next load can be made and
  it is not yet past what it may need.\<close>

lemma own_steps_outcome:
  assumes "rest h" and "swmr_run ops \<lparr>shared = h, pending = [], threads = []\<rparr> s0"
    and "own_steps ops j n (s0\<lparr>threads := rs\<rparr>) s" and "j < length rs"
    and "reads guar (tally (rs ! j) 0) (shared s0) Q"
  shows "threads s ! j \<noteq> Fail e"
    and "threads s ! j = Return v \<Longrightarrow> Q (v, n) (shared s)"
    and "threads s ! j = Load p m k \<Longrightarrow>
      (\<exists>xs. load_cells (shared s) p m = Inr xs) \<and>
      (\<exists>v c. n < c \<and> run_reader (shared s) (tally (threads s ! j) n) = Inr (v, c) \<and> Q (v, c) (shared s))"
proof -
  have "consistent (s0\<lparr>threads := rs\<rparr>)"
    using writer_consistent [OF assms(1,2)] by (simp add: consistent_def)
  then have r: "reads guar (tally (threads s ! j) n) (shared s) Q"
    using own_steps_tally [OF assms(3)] assms(4,5) by simp
  show "threads s ! j \<noteq> Fail e" using r by auto
  show "threads s ! j = Return v \<Longrightarrow> Q (v, n) (shared s)" using r evolves_refl [of guar "shared s"] by simp
  show "(\<exists>xs. load_cells (shared s) p m = Inr xs) \<and>
      (\<exists>v c. n < c \<and> run_reader (shared s) (tally (threads s ! j) n) = Inr (v, c) \<and> Q (v, c) (shared s))"
    if t: "threads s ! j = Load p m k"
  proof
    obtain xs where xs: "load_cells (shared s) p m = Inr xs" "reads guar (tally (k xs) (Suc n)) (shared s) Q"
      using r evolves_refl [of guar "shared s"] by (auto simp: t)
    then show "\<exists>xs. load_cells (shared s) p m = Inr xs" by blast
    obtain v c where vc: "run_reader (shared s) (tally (k xs) (Suc n)) = Inr (v, c)" "Q (v, c) (shared s)"
      using reads_run [OF xs(2)] by auto
    moreover have "n < c" using run_tally [OF vc(1)] by simp
    moreover have "run_reader (shared s) (tally (threads s ! j) n) = Inr (v, c)"
      unfolding t tally.simps run_reader.simps xs(1) using vc(1) by simp
    ultimately show "\<exists>v c. n < c \<and> run_reader (shared s) (tally (threads s ! j) n) = Inr (v, c) \<and>
        Q (v, c) (shared s)" by blast
  qed
qed

end

section \<open>What the readers pay\<close>

lemma pays_element: "pays (read_elementR p i isz) 0 (\<lambda>_. 3)"
proof -
  have "pays (msm_array_getR p i isz) 0 (\<lambda>_. 2)"
    unfolding msm_array_getR_def
    by (intro pays_if pays_Return pays_bindR [OF pays_atomic(2)] pays_bindR [OF pays_atomic(1)]) simp_all
  then show ?thesis
    unfolding read_elementR_def
    by (rule pays_bindR) (intro pays_if pays_Return pays_bindR [OF pays_readR], simp_all)
qed

lemma pays_bytes: "pays (read_bytesR fuel p) n (\<lambda>s. n + length s + 1)"
proof (induction fuel arbitrary: p n)
  case (Suc fuel)
  have step: "pays (case xs of [Byte c] \<Rightarrow> if c = 0 then Return []
      else bindR (read_bytesR fuel (padd p 1)) (\<lambda>s. Return (c # s)) | _ \<Rightarrow> Fail (Fault BadValue)) k
      (\<lambda>s. n + length s + 1)" if k: "k \<le> Suc n" for xs k
  proof -
    have "pays (bindR (read_bytesR fuel (padd p 1)) (\<lambda>s. Return (c # s))) k (\<lambda>s. n + length s + 1)" for c
      by (rule pays_bindR [OF Suc]) (use k in simp)
    then show ?thesis using k by (auto split: list.split cell.split)
  qed
  show ?case unfolding read_bytesR.simps by (rule pays_bindR [OF pays_readR step])
qed simp

lemma pays_string: "pays (read_stringR p) n (\<lambda>s. n + length s + 3)"
proof -
  have "pays (msm_string_getR p) n (\<lambda>_. n + 2)"
    unfolding msm_string_getR_def
    by (intro pays_if pays_Return pays_bindR [OF pays_atomic(2)] pays_bindR [OF pays_atomic(1)]) simp_all
  moreover have "pays (read_cstrR r) k (\<lambda>s. n + length s + 3)" if "k \<le> n + 2" for r k
    using pays_mono [OF pays_bytes [of _ _ "n + 2"] that] that by (cases r) simp_all
  ultimately show ?thesis unfolding read_stringR_def by (rule pays_bindR)
qed

subsection \<open>Objects\<close>

text \<open>Every query starts with the loads of the buffer and of its count; what follows is paid by
  that count.\<close>

definition viewR :: "ptr \<Rightarrow> (ptr \<times> u32) reader" where
  "viewR slot =
     bindR (atomic_load_ptrR (padd slot 8)) (\<lambda>buf.
       if buf = Null then Return (Null, 0)
       else bindR (atomic_load_u32R buf) (\<lambda>count. Return (buf, count)))"

lemma pays_viewR: "pays (viewR slot) 0 (\<lambda>_. 2)"
  unfolding viewR_def
  by (intro pays_if pays_Return pays_bindR [OF pays_atomic(2)] pays_bindR [OF pays_atomic(1)]) simp_all

definition view_count :: "ptr \<Rightarrow> heap \<Rightarrow> ptr \<times> u32 \<Rightarrow> heap \<Rightarrow> bool" where
  "view_count slot h0 v h \<longleftrightarrow> (\<exists>fs. obj_seen {} slot h0 fs h \<and> unat (snd v) = length fs)"

lemma view_count_later:
  "view_count slot h0 v h \<Longrightarrow> evolves (obj_guar {} slot) h h' \<Longrightarrow> view_count slot h0 v h'"
  unfolding view_count_def using obj_seen_later by blast

lemma viewR_reads:
  assumes inv: "obj_inv {} slot h0"
  shows "reads (obj_guar {} slot) (viewR slot) h0 (view_count slot h0)"
  unfolding viewR_def
proof (rule slot_reads [OF inv], goal_cases)
  case (1 h)
  then have "view_count slot h0 (Null, 0) h" by (auto simp: view_count_def)
  then show ?case using view_count_later by simp
next
  case (2 h b cap fs)
  have "reads (obj_guar {} slot) (bindR (atomic_load_u32R (Ptr b 0)) (\<lambda>count. Return (Ptr b 0, count))) h
      (view_count slot h0)"
  proof (rule count_reads [OF 2])
    fix h' fs' assume v: "obj_view {} slot h0 b cap fs' h'" and l: "length fs' < 4294967296"
    obtain gs where "map outline gs = fs'" "obj_seen {} slot h0 gs h'" using obj_view_seen [OF v] .
    then have "view_count slot h0 (Ptr b 0, of_nat (length fs')) h'"
      using l by (auto simp: view_count_def unat_of_nat)
    then show "reads (obj_guar {} slot) (Return (Ptr b 0, of_nat (length fs'))) h' (view_count slot h0)"
      using view_count_later by simp
  qed
  then show ?case by simp
qed

lemma find_from_view:
  "object_find_entry_by_hashR slot k = bindR (viewR slot) (\<lambda>(buf, count).
     if buf = Null then Return Null else if count = 0 then Return Null
     else find_entry_scanR (obj_buf_entries buf) k 0 (unat count))"
  unfolding object_find_entry_by_hashR_def viewR_def bindR_assoc
  by (intro arg_cong2 [where f = bindR] refl ext) (auto simp: bindR_assoc)

lemma pays_scan: "pays (find_entry_scanR p k i r) n (\<lambda>_. n + r)"
proof (induction r arbitrary: i n)
  case (Suc r)
  have "pays (bindR (entry_name_hashR e) (\<lambda>x. if x = k then Return e else find_entry_scanR p k (i + 1) r)) n
      (\<lambda>_. n + Suc r)" for e
    unfolding entry_name_hashR_def
  proof (rule pays_bindR [OF pays_load(1)])
    fix x :: u64 and m assume m: "m \<le> Suc n"
    have "pays (find_entry_scanR p k (i + 1) r) m (\<lambda>_. n + Suc r)"
      by (rule pays_mono [OF Suc m]) simp
    then show "pays (if x = k then Return e else find_entry_scanR p k (i + 1) r) m (\<lambda>_. n + Suc r)"
      using m by simp
  qed
  then show ?case by (simp add: Let_def)
qed simp

lemma pays_find:
  assumes "\<And>e n. n \<le> unat count + 2 \<Longrightarrow> pays (f e) n w" and "n \<le> 2"
  shows "pays (bindR (if buf = Null then Return Null else if count = 0 then Return Null
     else find_entry_scanR (obj_buf_entries buf) k 0 (unat count)) f) n w"
proof (rule pays_bindR)
  show "pays (if buf = Null then Return Null else if count = 0 then Return Null
     else find_entry_scanR (obj_buf_entries buf) k 0 (unat count)) n (\<lambda>_. unat count + 2)"
    using assms(2) by (intro pays_if pays_Return pays_mono [OF pays_scan]) simp_all
qed (rule assms(1))

text \<open>The loads that a query needs when the object has \<open>m\<close> fields, for an answer \<open>r\<close>.\<close>

fun query_loads :: "obj_query \<Rightarrow> nat \<Rightarrow> obj_answer \<Rightarrow> nat" where
  "query_loads AskCount m a = 2"
| "query_loads (AskField nm) m a = m + 2"
| "query_loads (AskType nm) m a = m + 3"
| "query_loads (AskString nm) m a = (case a of Text s \<Rightarrow> m + 7 + length s | _ \<Rightarrow> m + 7)"
| "query_loads _ m a = m + 5"

lemma get_scheme_pays:
  assumes "\<And>p n. n \<le> unat count + 4 \<Longrightarrow> pays (rd p) n (\<lambda>v. w (C v))"
    and "\<And>a. unat count + 4 \<le> w a" and "n \<le> 2"
  shows "pays (bindR (bindR (if buf = Null then Return Null else if count = 0 then Return Null
       else find_entry_scanR (obj_buf_entries buf) k 0 (unat count)) (\<lambda>e.
     if e = Null then Return dflt
     else bindR (entry_type_idR e) (\<lambda>t. if t \<noteq> ty then Return dflt else bindR (entry_value_ptrR e) rd)))
     (\<lambda>v. Return (C v))) n w"
proof (rule pays_bindR [where u = "\<lambda>v. w (C v)"], rule pays_find [OF _ assms(3)])
  fix e n assume n: "n \<le> unat count + 2"
  have w: "unat count + 4 \<le> w (C v)" for v by (rule assms(2))
  have ret: "pays (Return dflt) m (\<lambda>v. w (C v))" if "m \<le> unat count + 4" for m
    using that w [of dflt] by simp
  show "pays (if e = Null then Return dflt
     else bindR (entry_type_idR e) (\<lambda>t. if t \<noteq> ty then Return dflt else bindR (entry_value_ptrR e) rd)) n
     (\<lambda>v. w (C v))"
    unfolding entry_type_idR_def entry_value_ptrR_def
    by (intro pays_if ret pays_bindR [OF pays_load(1)] pays_bindR [OF pays_load(2)] assms(1)) (use n in simp_all)
qed simp

lemma scheme_from_view:
  "bindR (get_schemeR ty dflt rd slot k) g = bindR (viewR slot) (\<lambda>(buf, count). bindR (bindR
     (if buf = Null then Return Null else if count = 0 then Return Null
      else find_entry_scanR (obj_buf_entries buf) k 0 (unat count)) (\<lambda>e.
     if e = Null then Return dflt
     else bindR (entry_type_idR e) (\<lambda>t. if t \<noteq> ty then Return dflt else bindR (entry_value_ptrR e) rd))) g)"
  unfolding get_schemeR_def find_from_view bindR_assoc split_beta ..

text \<open>The queries in two parts: the view, and a rest that pays by the count of the view.\<close>

definition pays_by_view :: "ptr \<Rightarrow> obj_query \<Rightarrow> bool" where
  "pays_by_view slot q \<longleftrightarrow> (\<exists>f. query_reader slot q = bindR (viewR slot) f \<and>
     (\<forall>x. \<forall>k \<le> 2. pays (f x) k (query_loads q (unat (snd x)))))"

lemma pays_by_viewI:
  "query_reader slot q = bindR (viewR slot) f \<Longrightarrow>
   (\<And>buf count k. k \<le> 2 \<Longrightarrow> pays (f (buf, count)) k (query_loads q (unat count))) \<Longrightarrow> pays_by_view slot q"
  unfolding pays_by_view_def by (intro exI [of _ f]) auto

lemma scalar_pays_by_view:
  assumes "query_reader slot q = bindR (get_schemeR ty dflt (\<lambda>p. load_wordR (padd p i) n) slot k) (\<lambda>v. Return (C v))"
    and "\<And>m a. query_loads q m a = m + 5"
  shows "pays_by_view slot q"
  using assms(1) unfolding scheme_from_view
  by (rule pays_by_viewI, unfold split, intro get_scheme_pays pays_mono [OF pays_load(1)])
    (simp_all add: assms(2) add.commute)

lemma query_pays_by_view:
  assumes "slot \<noteq> Null"
  shows "pays_by_view slot q"
proof (cases q)
  case (AskString nm)
  have "query_reader slot q = bindR (get_schemeR type_string [] read_stringR slot (field_key nm)) (\<lambda>s. Return (Text s))"
    using AskString by (simp add: get_schemes(5) [OF assms])
  then show ?thesis
    unfolding scheme_from_view
    by (rule pays_by_viewI, unfold split, intro get_scheme_pays pays_mono [OF pays_string])
      (auto simp: AskString split: obj_answer.split)
next
  case (AskField nm)
  have "query_reader slot q = bindR (viewR slot) (\<lambda>(buf, count). bindR (if buf = Null then Return Null
      else if count = 0 then Return Null else find_entry_scanR (obj_buf_entries buf) (field_key nm) 0 (unat count))
      (\<lambda>e. Return (Status (if e \<noteq> Null then 1 else 0))))"
    using assms AskField
    by (simp add: msm_object_has_fieldR_def object_find_entryR_def field_key_def find_from_view bindR_assoc case_prod_unfold cong: if_cong)
  then show ?thesis
    by (rule pays_by_viewI, unfold split, intro pays_find pays_Return) (simp_all add: AskField)
next
  case (AskType nm)
  have "query_reader slot q = bindR (viewR slot) (\<lambda>(buf, count). bindR (if buf = Null then Return Null
      else if count = 0 then Return Null else find_entry_scanR (obj_buf_entries buf) (field_key nm) 0 (unat count))
      (\<lambda>e. if e = Null then Return (Tag 0) else bindR (entry_type_idR e) (\<lambda>t. Return (Tag t))))"
    using assms AskType
    by (simp add: msm_object_get_typeR_def object_find_entryR_def field_key_def find_from_view bindR_assoc case_prod_unfold
        if_distrib [where f = "\<lambda>m. bindR m _"] cong: if_cong)
  then show ?thesis
    unfolding entry_type_idR_def
    by (rule pays_by_viewI, unfold split, intro pays_find pays_if pays_bindR [OF pays_load(1)] pays_Return)
      (simp_all add: AskType)
next
  case AskCount
  have "query_reader slot q = bindR (viewR slot) (\<lambda>(buf, count). Return (Word32 (if buf = Null then 0 else count)))"
    using assms AskCount
    by (auto simp: msm_object_field_countR_def viewR_def bindR_assoc if_distrib [where f = "\<lambda>m. bindR m _"]
        cong: if_cong intro!: arg_cong2 [where f = bindR])
  then show ?thesis by (rule pays_by_viewI) (simp add: AskCount)
qed (rule scalar_pays_by_view, simp add: get_schemes [OF assms], simp)+

section \<open>Wait freedom of the readers of a segment\<close>

text \<open>\<open>within_loads h0 q r h n\<close>: \<open>n\<close> is at most the number of loads that the query \<open>q\<close> needs for
  the answer \<open>r\<close>, where the fields of an object are those of a moment between \<open>h0\<close> and \<open>h\<close>.\<close>

fun within_loads :: "heap \<Rightarrow> region_query \<Rightarrow> region_answer \<Rightarrow> heap \<Rightarrow> nat \<Rightarrow> bool" where
  "within_loads h0 (ReadElement p isz i) r h n \<longleftrightarrow> n \<le> 3"
| "within_loads h0 (ReadString p) r h n \<longleftrightarrow> (\<exists>s. r = Content s \<and> n \<le> length s + 3)"
| "within_loads h0 (ReadObject p q) r h n \<longleftrightarrow> (\<exists>a es1 es2 h1 cap M B. r = Answer a \<and>
     events_of h0 h = es1 @ es2 \<and> h1 = replay es1 h0 \<and> object_at h1 p cap M B \<and>
     n \<le> query_loads q (card (dom M)) a)"

lemma view_count_between:
  assumes "view_count slot h0 x h"
  shows "\<exists>es1 es2 h1 cap M B. events_of h0 h = es1 @ es2 \<and> h1 = replay es1 h0 \<and>
    object_at h1 slot cap M B \<and> unat (snd x) = card (dom M)"
proof -
  obtain fs where fs: "obj_seen {} slot h0 fs h" "unat (snd x) = length fs"
    using assms by (auto simp: view_count_def)
  then obtain hm cap B where "evolves (obj_guar {} slot) h0 hm" "evolves (obj_guar {} slot) hm h"
      "object_fs hm slot cap fs B"
    by (auto simp: obj_seen_def)
  moreover from evolves_between [OF this(1,2)]
  obtain es1 es2 where "events_of h0 h = es1 @ es2" "hm = replay es1 h0" by blast
  ultimately show ?thesis using card_dom_seen [OF fs(1)] fs(2) unfolding object_at_def by metis
qed

lemma view_count_within:
  assumes "view_count slot h0 x h" and "c \<le> query_loads q (unat (snd x)) a"
  shows "within_loads h0 (ReadObject slot q) (Answer a) h c"
  using view_count_between [OF assms(1)] assms(2) unfolding within_loads.simps by metis

lemma reads_answer:
  "reads G (bindR r (\<lambda>a. Return (Answer a))) h Q \<Longrightarrow>
   reads G (bindR r (\<lambda>a. Return (Answer a))) h (\<lambda>v h. Q v h \<and> (\<exists>a. v = Answer a))"
proof (induction r arbitrary: h)
  case (Load p n k)
  then show ?case by fastforce
qed auto

lemma query_tally:
  assumes inv: "obj_inv {} slot h0"
    and reads: "reads (obj_guar {} slot) (bindR (query_reader slot q) (\<lambda>a. Return (Answer a))) h0 Q"
  shows "reads (obj_guar {} slot) (tally (bindR (query_reader slot q) (\<lambda>a. Return (Answer a))) 0) h0
    (\<lambda>(r, c) h. Q r h \<and> within_loads h0 (ReadObject slot q) r h c)"
proof -
  have nn: "slot \<noteq> Null" by (rule obj_inv_facts(2) [OF inv])
  obtain f where f: "query_reader slot q = bindR (viewR slot) f"
      "\<And>x k. k \<le> 2 \<Longrightarrow> pays (f x) k (query_loads q (unat (snd x)))"
    using query_pays_by_view [OF nn] unfolding pays_by_view_def by blast
  define w where "w x r = (case r of Answer a \<Rightarrow> query_loads q (unat (snd x)) a | _ \<Rightarrow> 0)" for x :: "ptr \<times> u32" and r
  have "reads (obj_guar {} slot) (tally (bindR (viewR slot) (\<lambda>x. bindR (f x) (\<lambda>a. Return (Answer a)))) 0) h0
      (\<lambda>(r, c) h. (Q r h \<and> (\<exists>a. r = Answer a)) \<and> (\<exists>x. view_count slot h0 x h \<and> c \<le> w x r))"
  proof (rule reads_tally_bindR [OF viewR_reads [OF inv] _ pays_viewR _ view_count_later])
    show "pays (bindR (f x) (\<lambda>a. Return (Answer a))) k (w x)" if "k \<le> 2" for x k
      by (rule pays_bindR [OF f(2) [OF that]]) (simp add: w_def)
    show "reads (obj_guar {} slot) (bindR (viewR slot) (\<lambda>x. bindR (f x) (\<lambda>a. Return (Answer a)))) h0
        (\<lambda>r h. Q r h \<and> (\<exists>a. r = Answer a))"
      using reads_answer [OF reads] unfolding f(1) bindR_assoc .
  qed
  then show ?thesis
    unfolding f(1) bindR_assoc
  proof (rule reads_mono, goal_cases)
    case (1 rc h)
    then obtain r c a x where rc: "rc = (r, c)" "Q r h" "r = Answer a" "view_count slot h0 x h" "c \<le> w x r"
      by auto
    have "within_loads h0 (ReadObject slot q) (Answer a) h c"
      by (rule view_count_within [OF rc(4)]) (use rc(3,5) in \<open>simp add: w_def\<close>)
    then show ?case using rc by simp
  qed
qed

text \<open>One reader beside the writer of its own value, then beside the writer of the segment.\<close>

lemma value_tally:
  assumes "value_inv (asked q) {} h"
  shows "reads (value_guar (asked q) {}) (tally (region_reader q) 0) h
    (\<lambda>(r, c) h'. right_between h q r h' \<and> within_loads h q r h' c)"
proof -
  have right: "reads (value_guar (asked q) {}) (region_reader q) h (\<lambda>r h'. right_between h q r h')"
    by (rule reads_mono [OF value_reads [OF assms]]) simp
  show ?thesis
  proof (cases q)
    case (ReadElement p isz i)
    have "pays (region_reader q) 0 (\<lambda>_. 3)"
      unfolding ReadElement region_reader.simps by (rule pays_bindR [OF pays_element]) simp
    from reads_tally [OF right this] show ?thesis
      by (rule reads_mono) (auto simp: ReadElement)
  next
    case (ReadString p)
    let ?w = "\<lambda>r. case r of Content s \<Rightarrow> length s + 3 | _ \<Rightarrow> 0"
    have "pays (region_reader q) 0 ?w"
      unfolding ReadString region_reader.simps by (rule pays_bindR [OF pays_string]) simp
    from reads_tally [OF right this] show ?thesis
      by (rule reads_mono) (auto simp: ReadString right_between_def)
  next
    case (ReadObject p oq)
    then show ?thesis
      using query_tally [of p h oq "\<lambda>r h'. right_between h q r h'"] assms right by simp
  qed
qed

lemma region_tally:
  assumes inv: "region.each_inv vs h" and q: "asked q \<in> set vs"
  shows "reads (region.each_guar vs) (tally (region_reader q) 0) h
    (\<lambda>(r, c) h'. right_between h q r h' \<and> within_loads h q r h' c)"
proof -
  obtain i where i: "i < length vs" "vs ! i = asked q" using q by (auto simp: in_set_conv_nth)
  have "value_inv (asked q) {} h" using inv i by (auto simp: region.each_inv_def)
  from value_tally [OF this] show ?thesis
    by (rule reads_weaken) (use i each_guarD in metis)
qed

lemma own_undisturbed:
  assumes "own_steps ops 0 n s \<lparr>shared = h, pending = es, threads = [r]\<rparr>"
    and "run_reader h (tally r n) = Inr (v, c)"
  shows "own_steps ops 0 c s \<lparr>shared = h, pending = es, threads = [Return v]\<rparr>"
  using assms
proof (induction r arbitrary: n)
  case (Load p m k)
  then obtain xs where xs: "load_cells h p m = Inr xs" "run_reader h (tally (k xs) (Suc n)) = Inr (v, c)"
    by (auto split: sum.splits)
  let ?s = "\<lparr>shared = h, pending = es, threads = [Load p m k]\<rparr>"
  let ?t = "\<lparr>shared = h, pending = es, threads = [k xs]\<rparr>"
  have "swmr_step ops ?s (?s\<lparr>threads := (threads ?s)[0 := k xs]\<rparr>)"
    by (rule swmr_step.load) (use xs(1) in simp_all)
  then have "own_steps ops 0 (Suc n) s ?t"
    by (intro own_steps.own [OF Load.prems(1)]) (simp_all add: load_progress)
  then show ?case using Load.IH [OF rangeI _ xs(2)] by blast
qed auto

text \<open>Claim C26. Reads are wait-free: a reader of a value in a shared segment needs only steps of its
  own, and few of them, whatever the writer and the other readers do between them. After any \<open>n\<close>
  steps of the reader it has not faulted; if it has returned, its answer is right for one moment of
  the read, and the \<open>n\<close> loads are within what the contents of one moment ask for (three for an array
  element; three and one for each character for a string; for a query of an object one for each field
  and at most five more, and for a string field those of its characters); if it has not returned, its
  next load can be made now, and by going on alone it would return such an answer within such a
  number of loads.\<close>

theorem reads_wait_free:
  assumes "region_start vs h"
    and "swmr_run (region_writer vs) \<lparr>shared = h, pending = [], threads = []\<rparr> s0"
    and "own_steps (region_writer vs) j n (s0\<lparr>threads := map region_reader qs\<rparr>) s"
    and "asked ` set qs \<subseteq> set vs" and "j < length qs"
  shows "threads s ! j \<noteq> Fail e \<and>
    (threads s ! j = Return r \<longrightarrow>
       right_between (shared s0) (qs ! j) r (shared s) \<and> within_loads (shared s0) (qs ! j) r (shared s) n) \<and>
    (threads s ! j = Load p m k \<longrightarrow>
       (\<exists>xs. load_cells (shared s) p m = Inr xs) \<and>
       (\<exists>r c. n < c \<and> run_reader (shared s) (tally (threads s ! j) n) = Inr (r, c) \<and>
          right_between (shared s0) (qs ! j) r (shared s) \<and> within_loads (shared s0) (qs ! j) r (shared s) c))"
proof -
  note start = region_start_resting [OF assms(1)]
  have "region.each_inv vs (shared s0)"
    using region.writer_consistent [OF start assms(2) [unfolded region_writer_def]] by (simp add: region.consistent_def)
  then have "reads (region.each_guar vs) (tally (map region_reader qs ! j) 0) (shared s0)
      (\<lambda>(r, c) h'. right_between (shared s0) (qs ! j) r h' \<and> within_loads (shared s0) (qs ! j) r h' c)"
    using assms(4,5) by (simp add: region_tally image_subset_iff)
  note out = region.own_steps_outcome [OF start assms(2,3) [unfolded region_writer_def] _ this]
  show ?thesis using out assms(5) by simp
qed

theorem reads_wait_free_witness:
  "\<exists>s0 s n. swmr_run (region_writer pair_values) \<lparr>shared = region_heap, pending = [], threads = []\<rparr> s0 \<and>
     own_steps (region_writer pair_values) 0 n (s0\<lparr>threads := [region_reader (ReadString (Ptr 0 8))]\<rparr>) s \<and>
     threads s = [Return (Content [104, 105])] \<and> n \<le> 5"
proof -
  let ?vs = pair_values and ?p = "Ptr 0 8" and ?hi = "[104, 105] :: u8 list" and ?q = "ReadString (Ptr 0 8)"
  let ?f = "\<lambda>h. msm_string_set h ?p (Some ?hi) 2"
  note start = region_start_resting [OF region_heap_start]
  have wf: "heap_wf region_heap" by (simp add: region_heap_def heap_wf_def)
  have slot: "slot_holds region_heap ?p Null"
    by (simp add: region_heap_def slot_holds_def ptr_cells.simps)
  obtain h' where run: "?f region_heap = Inr h'" "string_rep h' ?p 1 ?hi"
    by (rule string_set_runs [OF slot wf, of 2 ?hi]) (auto simp: region_heap_def)
  have "?f \<in> string_writer ?p"
    unfolding string_writer_def by (intro UnI2 CollectI exI [of _ ?hi] exI [of _ 2]) simp
  then have f: "?f \<in> region_writer ?vs" by (auto simp: region_writer_def intro!: bexI [of _ 0])
  note step = region_operation [OF f start run(1)]
  obtain r c where rc: "run_reader h' (tally (region_reader ?q) 0) = Inr (r, c)"
    using reads_run [OF region_tally [OF region.rest_inv [OF step(2)], of ?q]] by auto
  let ?s0 = "\<lparr>shared = h', pending = [], threads = []\<rparr> :: region_answer system"
  let ?s1 = "\<lparr>shared = h', pending = [], threads = [Return r]\<rparr>"
  have own: "own_steps (region_writer ?vs) 0 c (?s0\<lparr>threads := map region_reader [?q]\<rparr>) ?s1"
    using own_undisturbed [OF own_steps.start rc] by simp
  have "right_between h' ?q r h' \<and> within_loads h' ?q r h' c"
    using reads_wait_free [OF region_heap_start step(1) own] by simp
  then obtain s where s: "string_at h' ?p s" "r = Content (takeWhile (\<lambda>c. c \<noteq> 0) s)"
      and c: "\<exists>t. r = Content t \<and> c \<le> length t + 3"
    by (auto simp: right_between_def events_of_def)
  have "string_at h' ?p ?hi" using run(2) by (auto simp: string_at_def)
  then have "s = ?hi" using s(1) string_at_unique by blast
  then have r: "r = Content ?hi" using s(2) by simp
  then have "c \<le> 5" using c by simp
  then show ?thesis using step(1) own r by (intro exI [of _ ?s0] exI [of _ ?s1] exI [of _ c]) simp
qed

end
