(* ===== verification/Spec2Isabelle.thy ===== *)
theory Spec2Isabelle
  imports
    Msm_Array_Props Msm_String_Props Msm_Record_Props Msm_Hash
    Msm_Object_Props Msm_Object_Errors Msm_Registry_Props
    Msm_Entry_Dealloc Msm_Types_Props Msm_Document_Props Msm_Region_Swmr
    Msm_Wait_Free
begin

text \<open>
  \<^bold>\<open>What the program is.\<close> The library msm (\<^verbatim>\<open>src/src/msm\<close>) provides dynamic types, arrays, strings
  and objects, that live in named regions of memory and are shared by one writer and any number of
  readers without locks. A region starts with the slots of a type: a scalar in place, or a 16-byte
  slot whose second half points to a heap buffer. The writer never changes a buffer in a way that a
  reader could notice: it builds a new one and publishes its pointer, or writes behind the published
  size and publishes the size. Replaced buffers are kept until the region is freed. The layers are

    \<^item> the C functions of \<^verbatim>\<open>msm_allocator.cpp\<close>: the registry of named regions, arrays, strings,
      objects, and teardown;
    \<^item> the C++ wrappers \<^verbatim>\<open>types.hpp\<close>, \<^verbatim>\<open>string.hpp\<close>, \<^verbatim>\<open>array.hpp\<close>, \<^verbatim>\<open>object.hpp\<close>, views that hold a
      pointer to a slot and call the C functions;
    \<^item> the compile-time layer \<^verbatim>\<open>record.hpp\<close>, \<^verbatim>\<open>member.hpp\<close>, \<^verbatim>\<open>fixed_string.hpp\<close>, which computes the offsets
      of named fields, and \<^verbatim>\<open>segment.hpp\<close>, which puts a value of a type into a named region;
    \<^item> a few C functions for other languages, \<^verbatim>\<open>capi.cpp\<close>.

  \<^bold>\<open>How it is modelled.\<close> A function of the source is a function on an explicit heap that returns
  \<open>Inl\<close> of an error or \<open>Inr\<close> of its results and the new heap (\<open>Msm_Prelude\<close>, \<open>Msm_Heap\<close>). The heap is
  one of bytes in blocks, with uninitialised bytes and the eight bytes of a stored pointer kept apart
  from numbers, so that sizes, offsets and alignments are those of the source. What C++ leaves
  undefined (null, dangling, out of bounds, uninitialised, misaligned, overlapping copies, bad frees)
  is an error of its own; so a theorem that a function returns \<open>Inr\<close> includes memory safety. Integers
  are words of their width and wrap as in the source. \<^verbatim>\<open>malloc\<close> may fail at any call (\<open>oom\<close>). Every
  write is recorded with its memory order in a trace.

  \<^bold>\<open>Which theory models what.\<close>

    \<^item> \<open>Msm_Heap\<close>: \<^verbatim>\<open>malloc\<close>, \<^verbatim>\<open>free\<close>, \<^verbatim>\<open>memcpy\<close>, \<^verbatim>\<open>memset\<close>, and the \<^verbatim>\<open>atomic_ref\<close> helpers at the top of
      \<^verbatim>\<open>msm_allocator.cpp\<close>. Loads and stores of each width are instances of the locale \<open>cell_codec\<close>
      (what is stored is loaded again).
    \<^item> \<open>Msm_Registry\<close>, \<open>Msm_Registry_Props\<close>: \<^verbatim>\<open>msm_alloc\<close>, \<^verbatim>\<open>msm_alloc_with_schema\<close>, \<^verbatim>\<open>msm_get\<close>,
      \<^verbatim>\<open>msm_get_with_schema\<close>, \<^verbatim>\<open>msm_get_schema_hash\<close> and \<^verbatim>\<open>msm_free\<close>; the registry is a partial map
      from names to regions. A region has an optional destructor, a function on the heap.
    \<^item> \<open>Msm_Hash\<close>: the two FNV-1a hashes, each with its own loop and constants, and the published
      algorithm on natural numbers that both are compared with.
    \<^item> \<open>Msm_Array\<close>, \<open>Msm_Array_Props\<close>: \<^verbatim>\<open>msm_array_*\<close>. The abstract contents of a slot are a capacity
      and a list of elements (\<open>array_at\<close>).
    \<^item> \<open>Msm_String\<close>, \<open>Msm_String_Props\<close>: \<^verbatim>\<open>msm_string_*\<close> and \<^verbatim>\<open>msm::string\<close>; the contents are a list of
      characters (\<open>string_at\<close>).
    \<^item> \<open>Msm_Object\<close>: \<^verbatim>\<open>msm_object_*\<close>, with the helpers \<^verbatim>\<open>object_find_entry\<close>, \<^verbatim>\<open>object_add_entry\<close> and
      \<^verbatim>\<open>object_commit_add\<close>. The contents are a map from name hashes to typed values (\<open>object_at\<close>); the
      theorems are refinements of updates and removals of this map. \<open>Msm_Object_Fields\<close> defines the
      representation, \<open>Msm_Object_Update\<close> what growing, filling and overwriting do to it,
      \<open>Msm_Object_Set\<close> and \<open>Msm_Object_Remove\<close> run the operations; \<open>Msm_Object_Props\<close> holds the theorems
      and \<open>Msm_Object_Errors\<close> the cases that go wrong. The setters are instances of one scheme, the
      locale \<open>field_writer\<close>.
    \<^item> \<open>Msm_Scalars\<close>: the wrappers of \<^verbatim>\<open>types.hpp\<close>, each an interpretation of the locale \<open>scalar_slot\<close>,
      and the scalar functions of \<^verbatim>\<open>capi.cpp\<close>.
    \<^item> \<open>Msm_Record\<close>, \<open>Msm_Record_Props\<close>: type expressions and the layout of records. The templates are
      functions on type expressions; a failed \<^verbatim>\<open>static_assert\<close> is \<open>None\<close>. Sizes and offsets are
      64-bit words (\<open>slot_size\<close>, \<open>field_offset\<close>); \<open>extent\<close> is the size as a natural number, which the
      lemmas about memory use, and equals \<open>slot_size\<close> for types of less than \<open>2 ^ 64\<close> bytes.
    \<^item> \<open>Msm_Types\<close>, \<open>Msm_Types_Props\<close>: \<^verbatim>\<open>msm::array\<close> with its iterator, \<^verbatim>\<open>msm::object\<close> with its proxy,
      the array functions of \<^verbatim>\<open>capi.cpp\<close>, the \<^verbatim>\<open>deallocate\<close> of every type, and \<^verbatim>\<open>segment\<close>. In
      \<^verbatim>\<open>emplace_back(args...)\<close> the conversions between integers and floating-point numbers are a
      parameter (\<open>float_casts\<close>); arguments that do not compile give \<open>None\<close>.
    \<^item> \<open>Msm_Document\<close>, \<open>Msm_Document_Props\<close>: objects within objects, and the chained brackets of
      \<^verbatim>\<open>object_proxy\<close>. An object is the root of a tree (\<open>doc_at\<close>); the locale \<open>document_action\<close> lifts what
      an action does to one object to the end of a path, and is interpreted for every assignment and,
      extended to \<open>document_reader\<close>, for every getter.
    \<^item> \<open>Msm_Dealloc\<close>, \<open>Msm_Ownership\<close>, \<open>Msm_Dealloc_Props\<close>, \<open>Msm_Entry_Dealloc\<close>: the theorems about
      teardown, and the recursive \<^verbatim>\<open>object_deallocate_entry_value\<close>, which no other function calls.
      \<open>reaches t h p B\<close> says that the slot at \<open>p\<close> holds a well-formed value of type \<open>t\<close>, where \<open>B\<close> are
      the blocks that \<^verbatim>\<open>deallocate\<close> finds; \<open>owned t n h p B L\<close> adds the blocks \<open>L\<close> of the objects
      nested in it, up to depth \<open>n\<close>, which it does not find.
    \<^item> \<open>Msm_Swmr\<close>: one writer and concurrent readers. The writer's operations are the functions above;
      the writes of an operation become visible one by one. A reader is a program of single loads, and
      everything interleaves (\<open>swmr_step\<close>). \<open>reads G r h Q\<close> is the rely-guarantee rule for readers:
      while the writer's events obey \<open>G\<close>, the reader \<open>r\<close> does not fault and ends with \<open>Q\<close>. The
      locale \<open>swmr\<close> asks of a component an invariant and a guarantee that each write of its operations
      keeps, and gives the theorems about systems; \<open>swmr_resting\<close> is the more general form with an
      invariant that holds between operations only.
    \<^item> \<open>Msm_Array_Swmr\<close>, \<open>Msm_Array_Swmr_Props\<close>, \<open>Msm_String_Swmr\<close>, \<open>Msm_Object_Readers\<close>,
      \<open>Msm_Object_Shared\<close>, \<open>Msm_Object_Steps\<close>, \<open>Msm_Object_Writer\<close>, \<open>Msm_Object_Queries\<close>,
      \<open>Msm_Object_Swmr_Props\<close>: the three interpretations of \<open>swmr\<close>. Each parameter \<open>F\<close> is a set of blocks
      of others that the component stays away from. A string that is a field of an object is a shared
      string of its own: the invariant of objects contains the one of strings, and the outline of an
      object (\<open>outline\<close>), what its readers can count on, leaves the text out.
    \<^item> \<open>Msm_Shared_Slot\<close>, \<open>Msm_Region_Swmr\<close>: the composition. The locale \<open>shared_slot\<close> states what a shared
      value owes to its neighbours (it owns the buffers it has published, and writes to nothing else
      that a neighbour has), \<open>shared_region\<close> derives the guarantees of a family of such slots, and is
      interpreted on the shared values of a type in a segment.
    \<^item> \<open>Msm_Wait_Free\<close>: the loads that each reader makes. \<open>tally\<close> lets a reader count its loads, \<open>pays\<close>
      bounds the count by the answer, and \<open>own_steps\<close> are the runs in which one reader makes a given
      number of steps of its own.

  \<^bold>\<open>What the lemmas show.\<close>

    \<^item> Sequentially: on well-formed contents and live slots, reserving and pushing, setting and clearing
      strings, and setting, reading and removing object fields compute what their names say on the
      abstract contents, change nothing outside and keep the representation invariant, failed
      allocations included where the code checks them; assignments and reads along a path of nested
      objects do so on the tree; names in the registry have regions of their own, returned under the
      hash they were allocated with; record fields are disjoint, aligned and independent; teardown
      frees each block it reaches once and leaves exactly those of nested objects.
    \<^item> Concurrently: readers of arrays, strings and objects, of one or of all the fields of a segment,
      never fault, need only loads of their own, as many as the contents at one moment of the read ask
      for, and get an answer that was right at one moment of the read; no write of the writer races with a reader. The operations that are safe in this sense are
      reserving, and prepare, fill and commit, for arrays; setting and clearing for strings; adding a
      field of any type, setting a string that is there, \<open>ensure_object\<close> and removing a field for objects.
    \<^item> What is not safe, each with a run that shows it: writing the element that \<^verbatim>\<open>push_back\<close> has already
      published, \<^verbatim>\<open>msm_array_clear\<close> followed by a push, overwriting a scalar field of an object, and
      \<^verbatim>\<open>begin()\<close>/\<^verbatim>\<open>end()\<close> around a push. Sequentially: growth that fails, lengths and capacities that wrap,
      names of 65536 bytes and more, allocation failures that are not checked, nested objects that
      \<^verbatim>\<open>object::deallocate\<close> leaks, and reads through a missing nested object, which create it.

  \<^bold>\<open>Bounds and fuel.\<close> Every function of the model is total. \<open>msm_string_get\<close>'s callers read up to the
  NUL; the concurrent reader \<open>read_cstrR\<close> has the fuel \<open>2 ^ 32\<close>, more than the longest string, whose
  length is a 32-bit word (the theorem that readers never fault would fail otherwise).
  \<open>object_deallocate_entry_value\<close> takes the number of stack frames; it is shown to return with one
  frame for each level of nesting. A range-based \<open>for\<close> takes a number of steps and is shown to return
  with as many as there are elements. Claims about pushes are for capacities below \<open>2 ^ 31\<close>, where
  doubling wraps, as are those about objects; beyond it, \<open>array_failed_growth_overflows\<close> says what happens.

  \<^bold>\<open>Assumptions.\<close> Memory is sequentially consistent; race freedom is what justifies this, as every
  write that readers may see is a release store to a place that they load with acquire. A block that was
  freed is not given out again. Floating-point values are their bit patterns. An operation that faults
  or aborts is no step of the concurrent writer. The mutex of the registry makes each of its functions
  one step. Registered destructors are functions of the model, which is where types and segments meet.

  \<^bold>\<open>Not modelled.\<close> Tests, benchmarks and build files; the export macros and type aliases of
  \<^verbatim>\<open>msm_allocator.h\<close> and \<^verbatim>\<open>sharelib.hpp\<close>, which have no behaviour; the operating system's memory beyond
  \<^verbatim>\<open>malloc\<close> and \<^verbatim>\<open>free\<close>. The concurrent theorems cover the slots in the region itself; values inside
  array elements and nested objects are covered by the sequential theorems only.
\<close>

end
